(* ===== verification/Prelude.thy ===== *)
theory Prelude
  imports Main "HOL-Library.Word"
begin

text \<open>
  Shared vocabulary of the development: the Go types the proxy is written in (bytes,
  fixed-width integers, strings as byte sequences, errors), the few functions of the Go
  standard library the sources call (\<open>encoding/binary\<close>, \<open>io.ReadFull\<close>, slices,
  \<open>bytes.Split\<close>), and the generic lemmas the component theories use.

  The target is a 64-bit platform (the release builds are amd64 and arm64), so a Go \<open>int\<close>
  holds every value of a \<open>uint32\<close> and every length that occurs here; lengths are \<open>nat\<close>.
\<close>

unbundle bit_operations_syntax

section \<open>Types\<close>

type_synonym byte = "8 word"
type_synonym u16 = "16 word"
type_synonym u32 = "32 word"

text \<open>
  Errors. \<open>EOF\<close> and \<open>ErrUnexpectedEOF\<close> are those of package \<open>io\<close>, \<open>ErrClosed\<close> that of
  package \<open>net\<close>; \<open>IOError\<close> is any other error of a connection. \<open>New\<close> is \<open>errors.New\<close>,
  \<open>Errorf\<close> is \<open>fmt.Errorf\<close> with its numeric or string arguments and \<open>Wrapf\<close> is
  \<open>fmt.Errorf\<close> with a wrapped error (\<open>%w\<close>).
\<close>

datatype go_error =
    EOF
  | ErrUnexpectedEOF
  | ErrClosed
  | IOError string
  | New string
  | Errorf string "nat list" "string list"
  | Wrapf string "string list" go_error

type_synonym 'a result = "go_error + 'a"

text \<open>Collections of rewrite rules that the component theories extend.\<close>

named_theorems wire_simps \<open>encoders and decoders applied to each other\<close>
named_theorems slot_simps \<open>effect of the channel operations on the slot table\<close>
named_theorems map_simps \<open>effect of the client operations on the channel maps\<close>

section \<open>Slices and strings\<close>

text \<open>\<open>xs[i:j]\<close>; every use in the sources is guarded by a length check.\<close>

definition subslice :: "'a list \<Rightarrow> nat \<Rightarrow> nat \<Rightarrow> 'a list" where
  "subslice xs i j = take (j - i) (drop i xs)"

text \<open>The conversions \<open>[]byte(s)\<close> and \<open>string(b)\<close>: a Go string is its byte sequence.\<close>

definition bytes_of :: "string \<Rightarrow> byte list" where
  "bytes_of s = map of_char s"

definition string_of :: "byte list \<Rightarrow> string" where
  "string_of b = map (\<lambda>x. char_of (unat x)) b"

lemma unat_of_char [simp]: "unat (of_char c :: byte) = of_char c"
proof -
  have "unat (of_nat (of_char c) :: byte) = of_char c mod 256"
    by (simp add: unat_of_nat)
  also have "\<dots> = of_char (char_of (of_char c :: nat))"
    by (simp only: of_char_of)
  finally show ?thesis by (simp add: of_nat_of_char)
qed

lemma of_char_char_of_unat [simp]: "of_char (char_of (unat (x :: byte)) :: char) = x"
proof -
  have "unat x < 256" using unsigned_less [of x, where ?'a = nat] by simp
  then have "(of_char (char_of (unat x)) :: nat) = unat x"
    by (simp only: of_char_of mod_less)
  then have "of_nat (of_char (char_of (unat x))) = x"
    by simp
  then show ?thesis by (simp only: of_nat_of_char)
qed

lemma string_of_bytes_of [simp]: "string_of (bytes_of s) = s"
  by (simp add: string_of_def bytes_of_def comp_def)

lemma bytes_of_string_of [simp]: "bytes_of (string_of b) = b"
  by (simp add: string_of_def bytes_of_def comp_def)

lemma length_bytes_of [simp]: "length (bytes_of s) = length s"
  by (simp add: bytes_of_def)

lemma length_string_of [simp]: "length (string_of b) = length b"
  by (simp add: string_of_def)

lemma bytes_of_append [simp]: "bytes_of (s @ t) = bytes_of s @ bytes_of t"
  by (simp add: bytes_of_def)

lemma bytes_of_eq_iff [simp]: "bytes_of s = bytes_of t \<longleftrightarrow> s = t"
  by (metis string_of_bytes_of)

lemma subslice_append_left [simp]: "length xs = j - i \<Longrightarrow> subslice (xs @ ys) 0 (j - i) = xs"
  by (simp add: subslice_def)

text \<open>Two lookups agree when they find the same values.\<close>

lemma option_eqI: "(\<And>d. a = Some d \<longleftrightarrow> b = Some d) \<Longrightarrow> a = b"
  by (cases a; cases b) auto

section \<open>Package encoding/binary: big-endian integers\<close>

definition Uint16 :: "byte list \<Rightarrow> u16" where
  "Uint16 b = ucast (b ! 1) OR push_bit 8 (ucast (b ! 0))"

definition PutUint16 :: "u16 \<Rightarrow> byte list" where
  "PutUint16 v = [ucast (drop_bit 8 v), ucast v]"

definition Uint32 :: "byte list \<Rightarrow> u32" where
  "Uint32 b = ucast (b ! 3) OR push_bit 8 (ucast (b ! 2)) OR
     push_bit 16 (ucast (b ! 1)) OR push_bit 24 (ucast (b ! 0))"

definition PutUint32 :: "u32 \<Rightarrow> byte list" where
  "PutUint32 v = [ucast (drop_bit 24 v), ucast (drop_bit 16 v), ucast (drop_bit 8 v), ucast v]"

lemma length_PutUint16 [simp]: "length (PutUint16 v) = 2"
  by (simp add: PutUint16_def)

lemma length_PutUint32 [simp]: "length (PutUint32 v) = 4"
  by (simp add: PutUint32_def)

lemma Uint16_PutUint16 [simp, wire_simps]: "Uint16 (PutUint16 v) = v"
  unfolding Uint16_def PutUint16_def by (rule bit_word_eqI) (auto simp: bit_simps)

lemma bit_index_split:
  "n < 32 \<Longrightarrow> \<not> n < 8 \<Longrightarrow> \<not> n - 8 < 8 \<Longrightarrow> \<not> n - 16 < 8 \<Longrightarrow> 24 + (n - 24) = (n::nat)"
  by arith

lemma Uint32_PutUint32 [simp, wire_simps]: "Uint32 (PutUint32 v) = v"
  unfolding Uint32_def PutUint32_def
  by (rule bit_word_eqI) (auto simp: bit_simps, metis bit_index_split)

lemma byte_bit_high [simp]: "bit (b :: byte) (8 + n) = False"
    "bit (b :: byte) (16 + n) = False" "bit (b :: byte) (24 + n) = False"
  by (auto dest: bit_imp_le_length)

lemma PutUint16_Uint16 [wire_simps]: "PutUint16 (Uint16 [a, b]) = [a, b]"
  unfolding Uint16_def PutUint16_def by (auto intro!: bit_word_eqI simp: bit_simps)

lemma PutUint32_Uint32 [wire_simps]: "PutUint32 (Uint32 [a, b, c, d]) = [a, b, c, d]"
  unfolding Uint32_def PutUint32_def by (auto intro!: bit_word_eqI simp: bit_simps)

lemma PutUint16_Uint16_list: "length xs = 2 \<Longrightarrow> PutUint16 (Uint16 xs) = xs"
  by (auto simp: length_Suc_conv numeral_eq_Suc PutUint16_Uint16)

lemma PutUint32_Uint32_list: "length xs = 4 \<Longrightarrow> PutUint32 (Uint32 xs) = xs"
  by (auto simp: length_Suc_conv numeral_eq_Suc PutUint32_Uint32)

lemma unat_of_nat_u32 [simp]: "n < 4294967296 \<Longrightarrow> unat (of_nat n :: u32) = n"
  by (simp add: unat_of_nat)

lemma unat_of_nat_byte [simp]: "n < 256 \<Longrightarrow> unat (of_nat n :: byte) = n"
  by (simp add: unat_of_nat)

section \<open>Package io: readers\<close>

text \<open>
  A reader is the bytes the peer will still deliver, in order, and the error the
  connection reports after them: \<open>EOF\<close> when the peer closed, \<open>ErrClosed\<close> when this side
  closed, or another error. A \<open>bufio.Reader\<close> on top of a connection delivers the same bytes.
\<close>

record reader =
  rdata :: "byte list"
  rend :: go_error

definition mk_reader :: "byte list \<Rightarrow> go_error \<Rightarrow> reader" where
  "mk_reader bs e = \<lparr>rdata = bs, rend = e\<rparr>"

text \<open>
  \<open>io.ReadFull(r, buf)\<close> for a buffer of \<open>n\<close> bytes: all \<open>n\<close> bytes, or the reader's error,
  where an end of file after a partial read becomes \<open>ErrUnexpectedEOF\<close>. A buffer of length
  zero never reads.
\<close>

definition ReadFull :: "reader \<Rightarrow> nat \<Rightarrow> byte list result \<times> reader" where
  "ReadFull r n =
     (if n \<le> length (rdata r) then (Inr (take n (rdata r)), r\<lparr>rdata := drop n (rdata r)\<rparr>)
      else (Inl (if rend r = EOF \<and> rdata r \<noteq> [] then ErrUnexpectedEOF else rend r),
            r\<lparr>rdata := []\<rparr>))"

lemma ReadFull_ok_iff:
  "ReadFull r n = (Inr bs, r') \<longleftrightarrow>
     length bs = n \<and> rdata r = bs @ rdata r' \<and> rend r' = rend r"
  by (cases r; cases r') (auto simp: ReadFull_def)

lemma ReadFull_append [simp, wire_simps]:
  "length bs = n \<Longrightarrow> ReadFull \<lparr>rdata = bs @ rest, rend = e\<rparr> n = (Inr bs, \<lparr>rdata = rest, rend = e\<rparr>)"
  by (simp add: ReadFull_def)

lemma ReadFull_short:
  "length (rdata r) < n \<Longrightarrow> \<exists>e r'. ReadFull r n = (Inl e, r') \<and> rdata r' = []"
  by (simp add: ReadFull_def)

section \<open>Package bytes: Split\<close>

text \<open>\<open>bytes.Split(s, []byte{sep})\<close>: the pieces between the separators, \<open>n + 1\<close> of them.\<close>

fun bytes_Split :: "byte list \<Rightarrow> byte \<Rightarrow> byte list list" where
  "bytes_Split [] sep = [[]]"
| "bytes_Split (x # xs) sep =
     (case bytes_Split xs sep of
        [] \<Rightarrow> []
      | p # ps \<Rightarrow> if x = sep then [] # p # ps else (x # p) # ps)"

lemma bytes_Split_nonempty [simp]: "bytes_Split xs sep \<noteq> []"
  by (induction xs) (auto split: list.splits)

lemma bytes_Split_none: "sep \<notin> set xs \<Longrightarrow> bytes_Split xs sep = [xs]"
  by (induction xs) auto

lemma bytes_Split_sep [simp]: "bytes_Split (sep # xs) sep = [] # bytes_Split xs sep"
  by (cases "bytes_Split xs sep") simp_all

lemma bytes_Split_append:
  "sep \<notin> set xs \<Longrightarrow> bytes_Split (xs @ sep # ys) sep = xs # bytes_Split ys sep"
proof (induction xs)
  case Nil
  show ?case by (simp only: append_Nil bytes_Split_sep)
next
  case (Cons x xs)
  then show ?case by (auto simp del: bytes_Split_sep)
qed

lemma length_bytes_Split: "length (bytes_Split xs sep) = Suc (count_list xs sep)"
  by (induction xs) (auto split: list.splits)

lemma bytes_Split_pieces: "p \<in> set (bytes_Split xs sep) \<Longrightarrow> sep \<notin> set p"
proof (induction xs arbitrary: p)
  case Nil
  then show ?case by simp
next
  case (Cons x xs)
  obtain q qs where q: "bytes_Split xs sep = q # qs"
    by (cases "bytes_Split xs sep") auto
  with Cons.IH [of q] Cons.IH [of p] Cons.prems show ?case
    by (auto split: if_splits)
qed

end
