(* ===== verification/Byte_Io.thy ===== *)
theory Byte_Io
  imports Prelude
begin

text \<open>
  The output side of the standard library as the proxy uses it: a network connection
  (\<open>net.Conn\<close>), the \<open>bufio.Writer\<close> that every component puts on top of it, and the
  contract of the interface \<open>io.Writer\<close> that both implement, as the locale \<open>io_writer\<close>.
  \<open>WriteFrame\<close> (theory \<open>Wire_Frame\<close>) is proved correct once against that contract.
\<close>

section \<open>Connections\<close>

text \<open>
  What this side has handed to the peer so far, how many further bytes the connection
  takes before a write fails (\<open>None\<close>: it never fails), and whether this side closed it.
\<close>

record net_conn =
  sent :: "byte list"
  room :: "nat option"
  closed :: bool

definition new_conn :: net_conn where
  "new_conn = \<lparr>sent = [], room = None, closed = False\<rparr>"

text \<open>\<open>Conn.Write\<close>: the number of bytes taken, the error, the connection afterwards.\<close>

definition Conn_Write :: "net_conn \<Rightarrow> byte list \<Rightarrow> nat \<times> go_error option \<times> net_conn" where
  "Conn_Write c p =
     (if closed c then (0, Some ErrClosed, c)
      else case room c of
        None \<Rightarrow> (length p, None, c\<lparr>sent := sent c @ p\<rparr>)
      | Some k \<Rightarrow>
          if length p \<le> k
          then (length p, None, c\<lparr>sent := sent c @ p, room := Some (k - length p)\<rparr>)
          else (k, Some (IOError ''write''), c\<lparr>sent := sent c @ take k p, room := Some 0\<rparr>))"

definition Conn_Close :: "net_conn \<Rightarrow> net_conn" where
  "Conn_Close c = c\<lparr>closed := True\<rparr>"

text \<open>The connection behind the interface \<open>io.Writer\<close>, whose byte count the proxy ignores.\<close>

definition net_Write :: "net_conn \<Rightarrow> byte list \<Rightarrow> go_error option \<times> net_conn" where
  "net_Write c p = snd (Conn_Write c p)"

lemma Conn_Write_short: "Conn_Write c p = (n, None, c') \<Longrightarrow> n = length p"
  by (auto simp: Conn_Write_def split: if_splits option.splits)

lemma Conn_Write_sent: "Conn_Write c p = (n, e, c') \<Longrightarrow> n \<le> length p \<and> sent c' = sent c @ take n p"
  by (auto simp: Conn_Write_def split: if_splits option.splits)

lemma Conn_Write_ok: "Conn_Write c p = (n, None, c') \<Longrightarrow> sent c' = sent c @ p"
  using Conn_Write_sent Conn_Write_short by fastforce

lemma Conn_Write_closed: "closed c \<Longrightarrow> Conn_Write c p = (0, Some ErrClosed, c)"
  by (simp add: Conn_Write_def)

section \<open>Buffered writers\<close>

record bufio_writer =
  wr :: net_conn
  buf :: "byte list"
  werr :: "go_error option"

definition NewWriter :: "net_conn \<Rightarrow> bufio_writer" where
  "NewWriter c = \<lparr>wr = c, buf = [], werr = None\<rparr>"

definition buf_size :: nat where
  "buf_size = 4096"

definition Available :: "bufio_writer \<Rightarrow> nat" where
  "Available b = buf_size - length (buf b)"

text \<open>\<open>Writer.Flush\<close>: after a failed write the untaken bytes stay and the error is sticky.\<close>

definition Flush :: "bufio_writer \<Rightarrow> go_error option \<times> bufio_writer" where
  "Flush b =
     (case werr b of
        Some e \<Rightarrow> (Some e, b)
      | None \<Rightarrow>
          if buf b = [] then (None, b)
          else case Conn_Write (wr b) (buf b) of
            (n, Some e, c) \<Rightarrow> (Some e, b\<lparr>wr := c, buf := drop n (buf b), werr := Some e\<rparr>)
          | (n, None, c) \<Rightarrow> (None, b\<lparr>wr := c, buf := []\<rparr>))"

text \<open>
  \<open>Writer.Write\<close>: while the data does not fit, write it directly (empty buffer) or top the
  buffer up and flush it; then keep the rest. The loop ends because each turn empties the
  buffer, empties the data or records an error.
\<close>

function Write_loop :: "bufio_writer \<Rightarrow> byte list \<Rightarrow> bufio_writer \<times> byte list" where
  "Write_loop b p =
     (if length p > Available b \<and> werr b = None
      then if buf b = []
        then (case Conn_Write (wr b) p of
                (n, e, c) \<Rightarrow> Write_loop (b\<lparr>wr := c, werr := e\<rparr>) (drop n p))
        else (let n = Available b
              in Write_loop (snd (Flush (b\<lparr>buf := buf b @ take n p\<rparr>))) (drop n p))
      else (b, p))"
  by pat_completeness auto
termination
proof (relation "measures [\<lambda>(b, p). if werr b = None then 1 else 0, \<lambda>(b, p). length p,
    \<lambda>(b, p). length (buf b)]", goal_cases)
  case 1
  show ?case by simp
next
  case (2 b p n y e c)
  then show ?case
    using Conn_Write_short [of "wr b" p n c]
    by (cases e) auto
next
  case (3 b p n)
  then show ?case
    by (cases "Available b = 0")
       (auto simp: Flush_def Available_def split: option.splits prod.splits)
qed

declare Write_loop.simps [simp del]

definition bufio_Write :: "bufio_writer \<Rightarrow> byte list \<Rightarrow> go_error option \<times> bufio_writer" where
  "bufio_Write b p =
     (case Write_loop b p of
        (b', p') \<Rightarrow>
          (case werr b' of
             Some e \<Rightarrow> (Some e, b')
           | None \<Rightarrow> (None, b'\<lparr>buf := buf b' @ p'\<rparr>)))"

text \<open>Everything the writer has accepted: what the peer has, then what is still buffered.\<close>

definition accepted :: "bufio_writer \<Rightarrow> byte list" where
  "accepted b = sent (wr b) @ buf b"

lemma Flush_accepted [simp]: "accepted (snd (Flush b)) = accepted b"
  by (auto simp: Flush_def accepted_def dest: Conn_Write_sent Conn_Write_ok
      split: option.splits prod.splits)

lemma Flush_ok: "Flush b = (None, b') \<Longrightarrow> buf b' = [] \<and> sent (wr b') = accepted b \<and> werr b' = None"
  by (auto simp: Flush_def accepted_def dest: Conn_Write_ok
      split: option.splits prod.splits if_splits)

lemma Flush_sticky: "Flush b = (Some e, b') \<Longrightarrow> werr b' = Some e"
  by (auto simp: Flush_def split: option.splits prod.splits if_splits)

text \<open>The loop passes on a prefix of the data and hands back the rest.\<close>

lemma Write_loop_accepted:
  "Write_loop b p = (b', p') \<Longrightarrow> \<exists>q. p = q @ p' \<and> accepted b' = accepted b @ q"
proof (induction b p arbitrary: b' p' rule: Write_loop.induct)
  case (1 b p)
  consider (stop) "\<not> (length p > Available b \<and> werr b = None)"
    | (direct) "length p > Available b" "werr b = None" "buf b = []"
    | (fill) "length p > Available b" "werr b = None" "buf b \<noteq> []"
    by blast
  then show ?case
  proof cases
    case stop
    with 1(3) show ?thesis by (auto simp: Write_loop.simps [of b p])
  next
    case direct
    obtain n e c where w: "Conn_Write (wr b) p = (n, e, c)" by (cases "Conn_Write (wr b) p")
    with direct 1(3) have "Write_loop (b\<lparr>wr := c, werr := e\<rparr>) (drop n p) = (b', p')"
      by (simp add: Write_loop.simps [of b p])
    with 1(1) [OF _ _ w [symmetric] refl] direct obtain q where
      "drop n p = q @ p'" "accepted b' = accepted (b\<lparr>wr := c, werr := e\<rparr>) @ q" by blast
    moreover have "accepted (b\<lparr>wr := c, werr := e\<rparr>) = accepted b @ take n p"
      using Conn_Write_sent [OF w] direct by (simp add: accepted_def)
    ultimately show ?thesis
      by (intro exI [of _ "take n p @ q"]) (simp, metis append_take_drop_id)
  next
    case fill
    let ?b = "b\<lparr>buf := buf b @ take (Available b) p\<rparr>"
    from fill 1(3) have "Write_loop (snd (Flush ?b)) (drop (Available b) p) = (b', p')"
      by (simp add: Write_loop.simps [of b p] Let_def)
    with 1(2) [OF _ _ refl] fill obtain q where
      "drop (Available b) p = q @ p'" "accepted b' = accepted (snd (Flush ?b)) @ q" by blast
    moreover have "accepted ?b = accepted b @ take (Available b) p"
      by (simp add: accepted_def)
    ultimately show ?thesis
      by (intro exI [of _ "take (Available b) p @ q"]) (simp, metis append_take_drop_id)
  qed
qed

text \<open>The buffer never exceeds its size, and what is handed back fits into it.\<close>

lemma Write_loop_fits:
  "Write_loop b p = (b', p') \<Longrightarrow> length (buf b) \<le> buf_size \<Longrightarrow>
     length (buf b') \<le> buf_size \<and> (werr b' = None \<longrightarrow> length (buf b') + length p' \<le> buf_size)"
proof (induction b p arbitrary: b' p' rule: Write_loop.induct)
  case (1 b p)
  consider (stop) "\<not> (length p > Available b \<and> werr b = None)"
    | (direct) "length p > Available b" "werr b = None" "buf b = []"
    | (fill) "length p > Available b" "werr b = None" "buf b \<noteq> []"
    by blast
  then show ?case
  proof cases
    case stop
    with 1(3,4) show ?thesis by (auto simp: Write_loop.simps [of b p] Available_def)
  next
    case direct
    obtain n e c where w: "Conn_Write (wr b) p = (n, e, c)" by (cases "Conn_Write (wr b) p")
    with direct 1(3) have "Write_loop (b\<lparr>wr := c, werr := e\<rparr>) (drop n p) = (b', p')"
      by (simp add: Write_loop.simps [of b p])
    with 1(1) [OF _ _ w [symmetric] refl] direct show ?thesis by simp
  next
    case fill
    let ?b = "b\<lparr>buf := buf b @ take (Available b) p\<rparr>"
    from fill 1(3) have "Write_loop (snd (Flush ?b)) (drop (Available b) p) = (b', p')"
      by (simp add: Write_loop.simps [of b p] Let_def)
    moreover have "length (buf (snd (Flush ?b))) \<le> buf_size"
      using 1(4) by (auto simp: Flush_def Available_def split: option.splits prod.splits)
    ultimately show ?thesis using 1(2) [OF _ _ refl] fill by blast
  qed
qed

text \<open>A closed connection takes nothing any more, whatever is written to the buffer above it.\<close>

lemma Flush_closed: "closed (wr b) \<Longrightarrow> wr (snd (Flush b)) = wr b"
  by (simp add: Flush_def Conn_Write_closed split: option.splits)

lemma Write_loop_closed: "closed (wr b) \<Longrightarrow> wr (fst (Write_loop b p)) = wr b"
proof (induction b p rule: Write_loop.induct)
  case (1 b p)
  then show ?case
    using Flush_closed [of "b\<lparr>buf := buf b @ take (Available b) p\<rparr>"]
    by (auto simp: Write_loop.simps [of b p] Let_def Conn_Write_closed)
qed

lemma bufio_Write_closed: "closed (wr b) \<Longrightarrow> wr (snd (bufio_Write b p)) = wr b"
  using Write_loop_closed [of b p] by (auto simp: bufio_Write_def split: prod.splits option.splits)

section \<open>The interface io.Writer\<close>

text \<open>
  A write without error appends the whole slice to what the writer has accepted; a write
  with an error appends a prefix of it (the documented behaviour of \<open>io.Writer\<close>).
\<close>

locale io_writer =
  fixes Write :: "'w \<Rightarrow> byte list \<Rightarrow> go_error option \<times> 'w"
    and content :: "'w \<Rightarrow> byte list"
  assumes Write_ok: "Write w p = (None, w') \<Longrightarrow> content w' = content w @ p"
    and Write_err: "Write w p = (Some e, w') \<Longrightarrow> \<exists>k\<le>length p. content w' = content w @ take k p"
begin

lemma Write_prefix: "\<exists>k\<le>length p. content (snd (Write w p)) = content w @ take k p"
proof (cases "Write w p")
  case (Pair e w')
  show ?thesis
  proof (cases e)
    case None
    with Pair Write_ok [of w p w'] show ?thesis by (intro exI [of _ "length p"]) simp
  next
    case (Some x)
    with Pair Write_err [of w p x w'] show ?thesis by simp
  qed
qed

end

text \<open>A writer whose connection works: every write succeeds and leaves it working.\<close>

locale live_writer = io_writer +
  fixes healthy :: "'w \<Rightarrow> bool"
  assumes Write_live: "healthy w \<Longrightarrow> \<exists>w'. Write w p = (None, w') \<and> healthy w'"

interpretation net_writer: io_writer net_Write sent
proof
  fix w p w'
  assume "net_Write w p = (None, w')"
  then show "sent w' = sent w @ p"
    by (cases "Conn_Write w p") (auto simp: net_Write_def dest: Conn_Write_ok)
next
  fix w p e w'
  assume "net_Write w p = (Some e, w')"
  then show "\<exists>k\<le>length p. sent w' = sent w @ take k p"
    by (cases "Conn_Write w p") (auto simp: net_Write_def dest: Conn_Write_sent)
qed

interpretation buffered: io_writer bufio_Write accepted
proof
  fix b p b'
  assume "bufio_Write b p = (None, b')"
  then obtain c q where "Write_loop b p = (c, q)" "b' = c\<lparr>buf := buf c @ q\<rparr>"
    by (auto simp: bufio_Write_def split: prod.splits option.splits)
  with Write_loop_accepted [of b p c q] show "accepted b' = accepted b @ p"
    by (auto simp: accepted_def)
next
  fix b p e b'
  assume "bufio_Write b p = (Some e, b')"
  then obtain q where "Write_loop b p = (b', q)"
    by (auto simp: bufio_Write_def split: prod.splits option.splits)
  from Write_loop_accepted [OF this] obtain r where "p = r @ q" "accepted b' = accepted b @ r"
    by blast
  then show "\<exists>k\<le>length p. accepted b' = accepted b @ take k p"
    by (intro exI [of _ "length r"]) simp
qed

definition live_conn :: "net_conn \<Rightarrow> bool" where
  "live_conn c \<longleftrightarrow> \<not> closed c \<and> room c = None"

definition live_bufio :: "bufio_writer \<Rightarrow> bool" where
  "live_bufio b \<longleftrightarrow> live_conn (wr b) \<and> werr b = None"

lemma Conn_Write_live:
  "live_conn c \<Longrightarrow> Conn_Write c p = (length p, None, c\<lparr>sent := sent c @ p\<rparr>)"
  by (simp add: Conn_Write_def live_conn_def)

lemma Flush_live: "live_bufio b \<Longrightarrow> \<exists>b'. Flush b = (None, b') \<and> live_bufio b'"
  by (simp add: Flush_def live_bufio_def Conn_Write_live) (simp add: live_conn_def)

lemma Write_loop_live: "live_bufio b \<Longrightarrow> live_bufio (fst (Write_loop b p))"
proof (induction b p rule: Write_loop.induct)
  case (1 b p)
  from 1(3) have w: "Conn_Write (wr b) p = (length p, None, (wr b)\<lparr>sent := sent (wr b) @ p\<rparr>)"
    by (simp add: live_bufio_def Conn_Write_live)
  have "live_bufio (b\<lparr>wr := (wr b)\<lparr>sent := sent (wr b) @ p\<rparr>, werr := None\<rparr>)"
    using 1(3) by (simp add: live_bufio_def live_conn_def)
  moreover have "live_bufio (snd (Flush (b\<lparr>buf := buf b @ take n p\<rparr>)))" for n
    using Flush_live [of "b\<lparr>buf := buf b @ take n p\<rparr>"] 1(3) by (auto simp: live_bufio_def)
  ultimately show ?case
    using 1 w by (auto simp: Write_loop.simps [of b p] Let_def)
qed

interpretation live_net: live_writer net_Write sent live_conn
  by unfold_locales (simp add: net_Write_def Conn_Write_live live_conn_def)

interpretation live_buffered: live_writer bufio_Write accepted live_bufio
proof
  fix b p
  assume "live_bufio b"
  then have "live_bufio (fst (Write_loop b p))" by (rule Write_loop_live)
  then show "\<exists>b'. bufio_Write b p = (None, b') \<and> live_bufio b'"
    by (auto simp: bufio_Write_def live_bufio_def split: prod.splits)
qed

end
