(* ===== verification/Wire_Frame.thy ===== *)
theory Wire_Frame
  imports Byte_Io
begin

text \<open>
  \<open>proxy/frame.go\<close>: AMQP frames on the wire. \<open>ParseFrame\<close> and \<open>WriteFrame\<close> with their
  bounds and error branches, the method header, and the laws that make them a codec:
  parsing succeeds exactly on the encodings of the admissible frames, frames are
  self-delimiting, and what one side writes the other side reads.
\<close>

section \<open>Data\<close>

record Frame =
  Type :: byte
  Channel :: u16
  Payload :: "byte list"

record MethodHeader =
  ClassID :: u16
  MethodID :: u16

abbreviation FrameTypeMethod :: byte where "FrameTypeMethod \<equiv> 1"
abbreviation FrameTypeHeader :: byte where "FrameTypeHeader \<equiv> 2"
abbreviation FrameTypeBody :: byte where "FrameTypeBody \<equiv> 3"
abbreviation FrameTypeHeartbeat :: byte where "FrameTypeHeartbeat \<equiv> 8"

definition ProtocolHeader :: "byte list" where
  "ProtocolHeader = bytes_of ''AMQP'' @ [0, 0, 9, 1]"

definition MaxFrameSize :: nat where
  "MaxFrameSize = 1 * 1024 * 1024"

definition frame_end :: byte where
  "frame_end = 0xCE"

section \<open>Operations\<close>

definition ParseFrame :: "reader \<Rightarrow> Frame result \<times> reader" where
  "ParseFrame r =
     (case ReadFull r 7 of
        (Inl err, r1) \<Rightarrow> (Inl err, r1)
      | (Inr header, r1) \<Rightarrow>
          let frameType = header ! 0;
              chan = Uint16 (subslice header 1 3);
              size = Uint32 (subslice header 3 7)
          in if unat size > MaxFrameSize then (Inl (New ''frame size exceeds maximum''), r1)
             else case ReadFull r1 (unat size) of
               (Inl err, r2) \<Rightarrow> (Inl err, r2)
             | (Inr pl, r2) \<Rightarrow>
                 (case ReadFull r2 1 of
                    (Inl err, r3) \<Rightarrow> (Inl err, r3)
                  | (Inr endMarker, r3) \<Rightarrow>
                      if endMarker ! 0 \<noteq> frame_end
                      then (Inl (New ''invalid frame end marker''), r3)
                      else (Inr \<lparr>Type = frameType, Channel = chan, Payload = pl\<rparr>, r3)))"

text \<open>The three writes of \<open>WriteFrame\<close>, against any \<open>io.Writer\<close>.\<close>

definition WriteFrame ::
    "('w \<Rightarrow> byte list \<Rightarrow> go_error option \<times> 'w) \<Rightarrow> 'w \<Rightarrow> Frame \<Rightarrow> go_error option \<times> 'w" where
  "WriteFrame Wr w f =
     (if length (Payload f) > MaxFrameSize then (Some (New ''frame size exceeds maximum''), w)
      else
        let header = [Type f] @ PutUint16 (Channel f) @ PutUint32 (of_nat (length (Payload f)))
        in case Wr w header of
             (Some err, w1) \<Rightarrow> (Some err, w1)
           | (None, w1) \<Rightarrow>
               (case Wr w1 (Payload f) of
                  (Some err, w2) \<Rightarrow> (Some err, w2)
                | (None, w2) \<Rightarrow>
                    (case Wr w2 [frame_end] of
                       (Some err, w3) \<Rightarrow> (Some err, w3)
                     | (None, w3) \<Rightarrow> (None, w3))))"

definition ParseMethodHeader :: "byte list \<Rightarrow> MethodHeader result" where
  "ParseMethodHeader data =
     (if length data < 4 then Inl (New ''method header too short'')
      else Inr \<lparr>ClassID = Uint16 (subslice data 0 2), MethodID = Uint16 (subslice data 2 4)\<rparr>)"

definition SerializeMethodHeader :: "MethodHeader \<Rightarrow> byte list" where
  "SerializeMethodHeader h = PutUint16 (ClassID h) @ PutUint16 (MethodID h)"

abbreviation method_header :: "u16 \<Rightarrow> u16 \<Rightarrow> byte list" where
  "method_header cls mth \<equiv> SerializeMethodHeader \<lparr>ClassID = cls, MethodID = mth\<rparr>"

section \<open>Specification\<close>

text \<open>The AMQP encoding of a frame, and the frames the proxy admits.\<close>

definition frame_bytes :: "Frame \<Rightarrow> byte list" where
  "frame_bytes f =
     [Type f] @ PutUint16 (Channel f) @ PutUint32 (of_nat (length (Payload f))) @
     Payload f @ [frame_end]"

definition frame_ok :: "Frame \<Rightarrow> bool" where
  "frame_ok f \<longleftrightarrow> length (Payload f) \<le> MaxFrameSize"

lemma length_frame_bytes: "length (frame_bytes f) = 8 + length (Payload f)"
  by (simp add: frame_bytes_def)

lemma frame_bytes_nonempty [simp]: "frame_bytes f \<noteq> []"
  by (simp add: frame_bytes_def)

lemma frame_ok_size: "frame_ok f \<Longrightarrow> unat (of_nat (length (Payload f)) :: u32) = length (Payload f)"
  by (simp add: frame_ok_def MaxFrameSize_def)

section \<open>The codec laws\<close>

lemma header_split:
  assumes "length h = 7"
  shows "h = [h ! 0] @ PutUint16 (Uint16 (subslice h 1 3)) @ PutUint32 (Uint32 (subslice h 3 7))"
proof -
  from assms obtain a b c d e f g where "h = [a, b, c, d, e, f, g]"
    by (auto simp: length_Suc_conv numeral_eq_Suc)
  then show ?thesis by (simp add: subslice_def PutUint16_Uint16 PutUint32_Uint32)
qed

lemma header_fields:
  assumes "h = [t] @ PutUint16 c @ PutUint32 s"
  shows "length h = 7" "h ! 0 = t" "Uint16 (subslice h 1 3) = c" "Uint32 (subslice h 3 7) = s"
  using assms by (simp_all add: subslice_def)

lemma ParseFrame_frame_bytes [wire_simps]:
  assumes "frame_ok f"
  shows "ParseFrame \<lparr>rdata = frame_bytes f @ rest, rend = e\<rparr> = (Inr f, \<lparr>rdata = rest, rend = e\<rparr>)"
proof -
  define h where "h = [Type f] @ PutUint16 (Channel f) @ PutUint32 (of_nat (length (Payload f)))"
  note hf = header_fields [OF h_def]
  have bytes: "frame_bytes f @ rest = h @ Payload f @ [frame_end] @ rest"
    by (simp add: frame_bytes_def h_def)
  have size: "\<not> MaxFrameSize < length (Payload f)"
    using assms by (simp add: frame_ok_def)
  show ?thesis
    unfolding ParseFrame_def bytes using hf size
    by (simp add: Let_def frame_ok_size [OF assms] del: append_Cons append_Nil)
qed

lemma ParseFrame_Inr:
  assumes "ParseFrame r = (Inr f, r')"
  shows "frame_ok f \<and> rdata r = frame_bytes f @ rdata r' \<and> rend r' = rend r"
proof -
  from assms obtain h r1 pl r2 em where
    h: "ReadFull r 7 = (Inr h, r1)" and
    sz: "unat (Uint32 (subslice h 3 7)) \<le> MaxFrameSize" and
    pl: "ReadFull r1 (unat (Uint32 (subslice h 3 7))) = (Inr pl, r2)" and
    em: "ReadFull r2 1 = (Inr em, r')" "em ! 0 = frame_end" and
    f: "f = \<lparr>Type = h ! 0, Channel = Uint16 (subslice h 1 3), Payload = pl\<rparr>"
    by (auto simp: ParseFrame_def Let_def split: prod.splits sum.splits if_splits)
  from h pl em(1) have len: "length h = 7" "length pl = unat (Uint32 (subslice h 3 7))" "length em = 1"
    and dat: "rdata r = h @ pl @ em @ rdata r'" and re: "rend r' = rend r"
    by (simp_all add: ReadFull_ok_iff)
  have em': "em = [frame_end]" using len(3) em(2) by (cases em) auto
  have "h = [h ! 0] @ PutUint16 (Uint16 (subslice h 1 3)) @ PutUint32 (of_nat (length pl))"
    using header_split [OF len(1)] len(2) by simp
  with dat em' have "rdata r = frame_bytes f @ rdata r'"
    by (simp add: f frame_bytes_def)
  with sz len(2) re show ?thesis by (simp add: frame_ok_def f)
qed

lemma ParseFrame_ok_iff:
  "ParseFrame r = (Inr f, r') \<longleftrightarrow>
     frame_ok f \<and> rdata r = frame_bytes f @ rdata r' \<and> rend r' = rend r"
proof
  assume "frame_ok f \<and> rdata r = frame_bytes f @ rdata r' \<and> rend r' = rend r"
  then have f: "frame_ok f"
    and r: "\<lparr>rdata = frame_bytes f @ rdata r', rend = rend r\<rparr> = r"
    and r': "\<lparr>rdata = rdata r', rend = rend r\<rparr> = r'"
    by simp_all
  from ParseFrame_frame_bytes [OF f, of "rdata r'" "rend r"] show "ParseFrame r = (Inr f, r')"
    by (simp only: r r')
qed (rule ParseFrame_Inr)

lemma frame_bytes_prefix_free:
  assumes "frame_ok f" "frame_ok g" "frame_bytes f @ xs = frame_bytes g @ ys"
  shows "f = g \<and> xs = ys"
proof -
  have "ParseFrame \<lparr>rdata = frame_bytes g @ ys, rend = EOF\<rparr> = (Inr f, \<lparr>rdata = xs, rend = EOF\<rparr>)"
    using ParseFrame_frame_bytes [OF assms(1), of xs EOF] by (simp only: assms(3))
  then show ?thesis by (simp add: ParseFrame_frame_bytes [OF assms(2)])
qed

section \<open>Method headers\<close>

lemma ParseMethodHeader_Serialize [simp, wire_simps]:
  "ParseMethodHeader (SerializeMethodHeader h @ rest) = Inr h"
  by (simp add: ParseMethodHeader_def SerializeMethodHeader_def subslice_def)

lemma length_SerializeMethodHeader [simp]: "length (SerializeMethodHeader h) = 4"
  by (simp add: SerializeMethodHeader_def)

lemma drop_SerializeMethodHeader [simp]: "drop 4 (SerializeMethodHeader h @ rest) = rest"
  by simp

section \<open>Writing\<close>

text \<open>A frame is written in three chunks, and the first failing write ends the sequence.\<close>

definition frame_chunks :: "Frame \<Rightarrow> byte list list" where
  "frame_chunks f =
     [[Type f] @ PutUint16 (Channel f) @ PutUint32 (of_nat (length (Payload f))), Payload f, [frame_end]]"

fun Writes :: "('w \<Rightarrow> byte list \<Rightarrow> go_error option \<times> 'w) \<Rightarrow> 'w \<Rightarrow> byte list list \<Rightarrow> go_error option \<times> 'w"
where
  "Writes Wr w [] = (None, w)"
| "Writes Wr w (p # ps) =
     (case Wr w p of (Some e, w') \<Rightarrow> (Some e, w') | (None, w') \<Rightarrow> Writes Wr w' ps)"

lemma concat_frame_chunks: "concat (frame_chunks f) = frame_bytes f"
  by (simp add: frame_chunks_def frame_bytes_def)

lemma WriteFrame_Writes: "frame_ok f \<Longrightarrow> WriteFrame Wr w f = Writes Wr w (frame_chunks f)"
  by (auto simp: WriteFrame_def frame_chunks_def frame_ok_def Let_def split: prod.splits option.splits)

context io_writer
begin

text \<open>Without error the whole encoding was accepted; with an error only a proper prefix.\<close>

lemma WriteFrame_too_large:
  "\<not> frame_ok f \<Longrightarrow> WriteFrame Write w f = (Some (New ''frame size exceeds maximum''), w)"
  by (simp add: WriteFrame_def frame_ok_def)

lemma Writes_ok: "Writes Write w ps = (None, w') \<Longrightarrow> content w' = content w @ concat ps"
  by (induction ps arbitrary: w) (auto dest: Write_ok split: prod.splits option.splits)

lemma Writes_prefix:
  "\<exists>k\<le>length (concat ps). content (snd (Writes Write w ps)) = content w @ take k (concat ps)"
proof (induction ps arbitrary: w)
  case Nil
  show ?case by simp
next
  case (Cons p ps)
  obtain e w1 where w1: "Write w p = (e, w1)" by (cases "Write w p")
  show ?case
  proof (cases e)
    case None
    from Cons.IH [of w1] obtain k where "k \<le> length (concat ps)"
      "content (snd (Writes Write w1 ps)) = content w1 @ take k (concat ps)" by blast
    with w1 None Write_ok [of w p w1] show ?thesis by (intro exI [of _ "length p + k"]) simp
  next
    case (Some x)
    with Write_err [of w p x w1] w1 obtain k where "k \<le> length p" "content w1 = content w @ take k p"
      by blast
    with w1 Some show ?thesis by (intro exI [of _ k]) simp
  qed
qed

lemma WriteFrame_ok:
  assumes "WriteFrame Write w f = (None, w')"
  shows "frame_ok f \<and> content w' = content w @ frame_bytes f"
proof (cases "frame_ok f")
  case True
  with assms Writes_ok [of w "frame_chunks f" w'] show ?thesis
    by (simp add: WriteFrame_Writes concat_frame_chunks)
next
  case False
  with assms show ?thesis by (simp add: WriteFrame_too_large)
qed

lemma WriteFrame_prefix:
  "\<exists>k\<le>length (frame_bytes f). content (snd (WriteFrame Write w f)) = content w @ take k (frame_bytes f)"
proof (cases "frame_ok f")
  case True
  with Writes_prefix [of "frame_chunks f" w] show ?thesis by (simp add: WriteFrame_Writes concat_frame_chunks)
next
  case False
  then show ?thesis by (intro exI [of _ 0]) (simp add: WriteFrame_too_large)
qed

end

context live_writer
begin

lemma Writes_live: "healthy w \<Longrightarrow> \<exists>w'. Writes Write w ps = (None, w') \<and> healthy w'"
proof (induction ps arbitrary: w)
  case (Cons p ps)
  from Write_live [OF Cons.prems] obtain w1 where "Write w p = (None, w1)" "healthy w1" by blast
  with Cons.IH [of w1] show ?case by simp
qed simp

lemma WriteFrame_live:
  "healthy w \<Longrightarrow> frame_ok f \<Longrightarrow> \<exists>w'. WriteFrame Write w f = (None, w') \<and> healthy w'"
  by (simp add: WriteFrame_Writes Writes_live)

end

section \<open>Reading a stream of frames\<close>

text \<open>
  The reading side of every connection loop (\<open>readLoop\<close>, the proxy loop of
  \<open>handleConnection\<close>): take frames until \<open>ParseFrame\<close> reports an error. Every frame consumes
  at least eight bytes, so the loop ends on every finite input.
\<close>

function ReadFrames :: "reader \<Rightarrow> Frame list \<times> go_error \<times> reader" where
  "ReadFrames r =
     (case ParseFrame r of
        (Inl err, r') \<Rightarrow> ([], err, r')
      | (Inr f, r') \<Rightarrow> (case ReadFrames r' of (fs, err, r'') \<Rightarrow> (f # fs, err, r'')))"
  by pat_completeness auto
termination
  by (relation "measure (\<lambda>r. length (rdata r))") (auto dest!: sym [of "(Inr _, _)"] simp: ParseFrame_ok_iff)

declare ReadFrames.simps [simp del]

lemma ParseFrame_empty [simp]:
  "ParseFrame \<lparr>rdata = [], rend = e\<rparr> = (Inl e, \<lparr>rdata = [], rend = e\<rparr>)"
  by (simp add: ParseFrame_def ReadFull_def)

lemma ReadFrames_concat:
  "list_all frame_ok fs \<Longrightarrow>
   ReadFrames \<lparr>rdata = concat (map frame_bytes fs), rend = e\<rparr> = (fs, e, \<lparr>rdata = [], rend = e\<rparr>)"
proof (induction fs)
  case Nil
  show ?case by (simp add: ReadFrames.simps)
next
  case (Cons f fs)
  then show ?case by (simp add: ReadFrames.simps [of "\<lparr>rdata = frame_bytes f @ _, rend = e\<rparr>"] wire_simps)
qed

section \<open>Properties\<close>

text \<open>(C11) \<open>ParseFrame\<close> succeeds exactly on an encoded frame of at most \<open>MaxFrameSize\<close> payload
  bytes at the front of the input, returns that frame and leaves exactly the bytes after it.\<close>

theorem ParseFrame_exact:
  "ParseFrame r = (Inr f, r') \<longleftrightarrow>
     length (Payload f) \<le> MaxFrameSize \<and> rdata r = frame_bytes f @ rdata r' \<and> rend r' = rend r"
  using ParseFrame_ok_iff by (simp add: frame_ok_def)

text \<open>On a working connection \<open>WriteFrame\<close> followed by \<open>Flush\<close> succeeds for every admissible
  frame, the peer receives exactly what was buffered before followed by new bytes, and
  \<open>ParseFrame\<close> on those new bytes returns the frame written, whatever follows it.\<close>

theorem WriteFrame_ParseFrame:
  assumes "live_bufio b" and "length (Payload f) \<le> MaxFrameSize"
  shows "\<exists>b1 b2 new. WriteFrame bufio_Write b f = (None, b1) \<and> Flush b1 = (None, b2) \<and>
     sent (wr b2) = sent (wr b) @ buf b @ new \<and>
     ParseFrame \<lparr>rdata = new @ rest, rend = e\<rparr> = (Inr f, \<lparr>rdata = rest, rend = e\<rparr>)"
proof -
  have ok: "frame_ok f" using assms(2) by (simp add: frame_ok_def)
  from live_buffered.WriteFrame_live [OF assms(1) ok] obtain b1 where
    b1: "WriteFrame bufio_Write b f = (None, b1)" "live_bufio b1" by blast
  from Flush_live [OF b1(2)] obtain b2 where b2: "Flush b1 = (None, b2)" by blast
  have "sent (wr b2) = sent (wr b) @ buf b @ frame_bytes f"
    using buffered.WriteFrame_ok [OF b1(1)] Flush_ok [OF b2] by (simp add: accepted_def)
  with b1 b2 ParseFrame_frame_bytes [OF ok] show ?thesis by blast
qed

theorem WriteFrame_ParseFrame_witness:
  "\<exists>b1 b2 new. WriteFrame bufio_Write (NewWriter new_conn) \<lparr>Type = 1, Channel = 7, Payload = [0, 20, 0, 10]\<rparr> = (None, b1) \<and>
     Flush b1 = (None, b2) \<and> sent (wr b2) = new \<and>
     ParseFrame \<lparr>rdata = new @ [1, 2], rend = EOF\<rparr> =
       (Inr \<lparr>Type = 1, Channel = 7, Payload = [0, 20, 0, 10]\<rparr>, \<lparr>rdata = [1, 2], rend = EOF\<rparr>)"
proof -
  have "live_bufio (NewWriter new_conn)"
    by (simp add: live_bufio_def live_conn_def NewWriter_def new_conn_def)
  from WriteFrame_ParseFrame [OF this, of "\<lparr>Type = 1, Channel = 7, Payload = [0, 20, 0, 10]\<rparr>" "[1, 2]" EOF]
  show ?thesis by (simp add: MaxFrameSize_def NewWriter_def new_conn_def)
qed

text \<open>If writing a frame to a buffered writer fails, the bytes it accepted are a prefix of the
  frame's encoding appended to what it had accepted; a payload above the limit fails with
  nothing written.\<close>

theorem WriteFrame_failure:
  assumes "WriteFrame bufio_Write b f = (Some err, b')"
  shows "(\<exists>k\<le>8 + length (Payload f). accepted b' = accepted b @ take k (frame_bytes f)) \<and>
    (length (Payload f) > MaxFrameSize \<longrightarrow> b' = b \<and> err = New ''frame size exceeds maximum'')"
  using buffered.WriteFrame_prefix [of f b] buffered.WriteFrame_too_large [of f b] assms
  by (auto simp: length_frame_bytes frame_ok_def)

theorem WriteFrame_failure_witness:
  "\<exists>k\<le>9. accepted (snd (WriteFrame bufio_Write
      (NewWriter new_conn\<lparr>werr := Some ErrClosed\<rparr>) \<lparr>Type = 3, Channel = 1, Payload = [65]\<rparr>)) =
    accepted (NewWriter new_conn) @ take k (frame_bytes \<lparr>Type = 3, Channel = 1, Payload = [65]\<rparr>)"
proof -
  let ?b = "NewWriter new_conn\<lparr>werr := Some ErrClosed\<rparr>"
  let ?f = "\<lparr>Type = 3, Channel = 1, Payload = [65]\<rparr>"
  have "WriteFrame bufio_Write ?b ?f = (Some ErrClosed, ?b)"
    by (simp add: WriteFrame_def MaxFrameSize_def bufio_Write_def Write_loop.simps [of ?b])
  from WriteFrame_failure [OF this] \<open>WriteFrame bufio_Write ?b ?f = (Some ErrClosed, ?b)\<close>
  show ?thesis by (simp add: accepted_def NewWriter_def)
qed

text \<open>A frame whose size field exceeds the limit is refused after the seven header bytes: no
  payload byte is read and nothing of that size is allocated.\<close>

theorem ParseFrame_oversize:
  assumes "7 \<le> length (rdata r)" and "unat (Uint32 (subslice (rdata r) 3 7)) > MaxFrameSize"
  shows "ParseFrame r =
    (Inl (New ''frame size exceeds maximum''), r\<lparr>rdata := drop 7 (rdata r)\<rparr>)"
proof -
  have "subslice (take 7 (rdata r)) 3 7 = subslice (rdata r) 3 7"
    by (simp add: subslice_def drop_take)
  with assms show ?thesis by (simp add: ParseFrame_def ReadFull_def)
qed

theorem ParseFrame_oversize_witness:
  "ParseFrame \<lparr>rdata = [3, 0, 1, 255, 255, 255, 255, 9, 9], rend = EOF\<rparr> =
    (Inl (New ''frame size exceeds maximum''), \<lparr>rdata = [9, 9], rend = EOF\<rparr>)"
proof -
  have "Uint32 [255, 255, 255, 255] = 4294967295" by code_simp
  then have "unat (Uint32 (subslice [3, 0, 1, 255, 255, 255, 255, 9, 9] 3 7)) > MaxFrameSize"
    by (simp add: subslice_def MaxFrameSize_def)
  with ParseFrame_oversize [of "\<lparr>rdata = [3, 0, 1, 255, 255, 255, 255, 9, 9], rend = EOF\<rparr>"]
  show ?thesis by simp
qed

text \<open>A truncated frame is never accepted: on a proper prefix of an encoded frame
  \<open>ParseFrame\<close> reports an error.\<close>

theorem ParseFrame_truncated:
  assumes "length (Payload f) \<le> MaxFrameSize" and "k < 8 + length (Payload f)"
  shows "\<exists>err r'. ParseFrame \<lparr>rdata = take k (frame_bytes f), rend = e\<rparr> = (Inl err, r')"
proof (rule ccontr)
  assume "\<not> ?thesis"
  then obtain g r' where "ParseFrame \<lparr>rdata = take k (frame_bytes f), rend = e\<rparr> = (Inr g, r')"
    by (metis surj_pair sumE)
  then have g: "frame_ok g" "take k (frame_bytes f) = frame_bytes g @ rdata r'"
    by (auto simp: ParseFrame_ok_iff)
  then have "frame_bytes f @ [] = frame_bytes g @ (rdata r' @ drop k (frame_bytes f))"
    by (metis append_assoc append_take_drop_id append_Nil2)
  from frame_bytes_prefix_free [OF _ g(1) this] assms(1) have "drop k (frame_bytes f) = []"
    by (auto simp: frame_ok_def)
  with assms(2) show False by (simp add: length_frame_bytes)
qed

theorem ParseFrame_truncated_witness:
  "\<exists>err r'. ParseFrame \<lparr>rdata = [8, 0, 0, 0, 0, 0, 0], rend = EOF\<rparr> = (Inl err, r')"
  using ParseFrame_truncated [of "\<lparr>Type = 8, Channel = 0, Payload = []\<rparr>" 7 EOF]
  by (simp add: frame_bytes_def PutUint16_def PutUint32_def)

text \<open>Frames are self-delimiting: a sequence of admissible frames written back to back is read
  back as that sequence, and the loop then reports the error of the exhausted connection.\<close>

theorem ReadFrames_stream:
  assumes "\<forall>f \<in> set fs. length (Payload f) \<le> MaxFrameSize"
  shows "ReadFrames \<lparr>rdata = concat (map frame_bytes fs), rend = e\<rparr> =
    (fs, e, \<lparr>rdata = [], rend = e\<rparr>)"
  using assms by (intro ReadFrames_concat) (simp add: list_all_iff frame_ok_def)

theorem ReadFrames_stream_witness:
  "ReadFrames \<lparr>rdata = frame_bytes \<lparr>Type = 1, Channel = 1, Payload = [0, 20, 0, 10]\<rparr> @
      frame_bytes \<lparr>Type = 8, Channel = 0, Payload = []\<rparr>, rend = EOF\<rparr> =
    ([\<lparr>Type = 1, Channel = 1, Payload = [0, 20, 0, 10]\<rparr>, \<lparr>Type = 8, Channel = 0, Payload = []\<rparr>],
     EOF, \<lparr>rdata = [], rend = EOF\<rparr>)"
  using ReadFrames_stream [of "[\<lparr>Type = 1, Channel = 1, Payload = [0, 20, 0, 10]\<rparr>,
      \<lparr>Type = 8, Channel = 0, Payload = []\<rparr>]" EOF]
  by (simp add: MaxFrameSize_def)

end
