(* ===== verification/Amqp_Credentials.thy ===== *)
theory Amqp_Credentials
  imports Wire_Frame
begin

text \<open>
  \<open>proxy/credentials.go\<close>: the AMQP strings and tables, the \<open>Connection.StartOk\<close> and
  \<open>Connection.Open\<close> payloads, and the PLAIN and AMQPLAIN responses from which the proxy takes
  the credentials that select an upstream.
\<close>

record Credentials =
  Username :: string
  Password :: string

section \<open>Strings and tables\<close>

definition parseShortString :: "byte list \<Rightarrow> (string \<times> nat) result" where
  "parseShortString data =
     (if length data < 1 then Inl (New ''data too short'')
      else let len = unat (data ! 0)
           in if length data < 1 + len then Inl (New ''invalid string length'')
              else Inr (string_of (subslice data 1 (1 + len)), 1 + len))"

definition parseLongString :: "byte list \<Rightarrow> (byte list \<times> nat) result" where
  "parseLongString data =
     (if length data < 4 then Inl (New ''data too short for longstr'')
      else let len = unat (Uint32 (subslice data 0 4))
           in if length data < 4 + len then Inl (New ''invalid long string length'')
              else Inr (subslice data 4 (4 + len), 4 + len))"

definition parseTable :: "byte list \<Rightarrow> (byte list \<times> nat) result" where
  "parseTable data =
     (if length data < 4 then Inl (New ''table too short'')
      else let len = unat (Uint32 (subslice data 0 4))
           in if length data < 4 + len then Inl (New ''invalid table length'')
              else Inr (subslice data 4 (4 + len), 4 + len))"

definition serializeEmptyTable :: "byte list" where
  "serializeEmptyTable = PutUint32 0"

definition serializeLongString :: "byte list \<Rightarrow> byte list" where
  "serializeLongString data = PutUint32 (of_nat (length data)) @ data"

text \<open>\<open>byte(len(s))\<close> keeps the low eight bits of the length.\<close>

definition serializeShortString :: "string \<Rightarrow> byte list" where
  "serializeShortString s = [of_nat (length s)] @ bytes_of s"

section \<open>AMQPLAIN\<close>

text \<open>The loop over the fields: \<open>offset\<close> grows by at least six bytes per field.\<close>

function parseAMQPLAIN_loop :: "byte list \<Rightarrow> nat \<Rightarrow> (string \<rightharpoonup> string) \<Rightarrow> (string \<rightharpoonup> string) result" where
  "parseAMQPLAIN_loop data offset flds =
     (if offset < length data
      then case parseShortString (drop offset data) of
        Inl err \<Rightarrow> Inl (Wrapf ''AMQPLAIN: bad field name: %w'' [] err)
      | Inr (name, n) \<Rightarrow>
          let offset = offset + n
          in if offset \<ge> length data then Inl (New ''AMQPLAIN: missing field type'')
             else if data ! offset \<noteq> of_char (CHR ''S'')
             then Inl (Errorf ''AMQPLAIN: unsupported field type %q for %s'' [unat (data ! offset)] [name])
             else let offset = offset + 1
                  in case parseLongString (drop offset data) of
                    Inl err \<Rightarrow> Inl (Wrapf ''AMQPLAIN: bad field value for %s: %w'' [name] err)
                  | Inr (val, n) \<Rightarrow>
                      parseAMQPLAIN_loop data (offset + n) (flds(name \<mapsto> string_of val))
      else Inr flds)"
  by pat_completeness auto
termination
  by (relation "measure (\<lambda>(data, offset, flds). length data - offset)") auto

declare parseAMQPLAIN_loop.simps [simp del]

definition parseAMQPLAIN :: "byte list \<Rightarrow> Credentials result" where
  "parseAMQPLAIN data =
     (case parseAMQPLAIN_loop data 0 Map.empty of
        Inl err \<Rightarrow> Inl err
      | Inr flds \<Rightarrow>
          (case (flds ''LOGIN'', flds ''PASSWORD'') of
             (Some login, Some password) \<Rightarrow> Inr \<lparr>Username = login, Password = password\<rparr>
           | _ \<Rightarrow> Inl (New ''AMQPLAIN: missing LOGIN or PASSWORD field'')))"

section \<open>Connection.StartOk\<close>

definition ParseConnectionStartOk :: "byte list \<Rightarrow> Credentials result" where
  "ParseConnectionStartOk data =
     (case ParseMethodHeader data of
        Inl err \<Rightarrow> Inl err
      | Inr header \<Rightarrow>
          if ClassID header \<noteq> 10 \<or> MethodID header \<noteq> 11
          then Inl (New ''not a Connection.StartOk frame'')
          else let offset = 4 in
            case parseTable (drop offset data) of
              Inl err \<Rightarrow> Inl err
            | Inr (_, tableEnd) \<Rightarrow>
                let offset = offset + tableEnd in
                case parseShortString (drop offset data) of
                  Inl err \<Rightarrow> Inl err
                | Inr (mech, mechLen) \<Rightarrow>
                    let offset = offset + mechLen in
                    case parseLongString (drop offset data) of
                      Inl err \<Rightarrow> Inl err
                    | Inr (response, _) \<Rightarrow>
                        if mech = ''PLAIN''
                        then let parts = bytes_Split response 0
                             in if length parts \<noteq> 3 then Inl (New ''invalid PLAIN auth format'')
                                else Inr \<lparr>Username = string_of (parts ! 1),
                                          Password = string_of (parts ! 2)\<rparr>
                        else if mech = ''AMQPLAIN'' then parseAMQPLAIN response
                        else Inl (Errorf ''unsupported auth mechanism: %s'' [] [mech]))"

definition serializeConnectionStartOk :: "string \<Rightarrow> byte list \<Rightarrow> byte list" where
  "serializeConnectionStartOk mechanism response =
     method_header 10 11 @ serializeEmptyTable @ serializeShortString mechanism @
     serializeLongString response @ serializeShortString ''en_US''"

definition serializeConnectionStartOkResponse :: "string \<Rightarrow> string \<Rightarrow> byte list" where
  "serializeConnectionStartOkResponse username password =
     [0] @ bytes_of username @ [0] @ bytes_of password"

section \<open>Connection.Open\<close>

definition ParseConnectionOpen :: "byte list \<Rightarrow> string result" where
  "ParseConnectionOpen data =
     (case ParseMethodHeader data of
        Inl err \<Rightarrow> Inl err
      | Inr header \<Rightarrow>
          if ClassID header \<noteq> 10 \<or> MethodID header \<noteq> 40
          then Inl (Errorf ''expected Connection.Open (class=10, method=40), got class=%d method=%d''
                      [unat (ClassID header), unat (MethodID header)] [])
          else if length data < 5 then Inl (New ''Connection.Open payload too short'')
          else case parseShortString (drop 4 data) of
            Inl err \<Rightarrow> Inl (Wrapf ''failed to parse vhost: %w'' [] err)
          | Inr (vhost, _) \<Rightarrow> Inr vhost)"

section \<open>Codec laws\<close>

lemma length_serializeShortString [simp]: "length (serializeShortString s) = 1 + length s"
  by (simp add: serializeShortString_def)

lemma length_serializeLongString [simp]: "length (serializeLongString d) = 4 + length d"
  by (simp add: serializeLongString_def)

lemma length_serializeEmptyTable [simp]: "length serializeEmptyTable = 4"
  by (simp add: serializeEmptyTable_def)

lemma parseShortString_serialize [simp, wire_simps]:
  "length s < 256 \<Longrightarrow> parseShortString (serializeShortString s @ rest) = Inr (s, 1 + length s)"
  by (simp add: parseShortString_def serializeShortString_def subslice_def)

lemma parseLongString_serialize [simp, wire_simps]:
  "length d < 4294967296 \<Longrightarrow> parseLongString (serializeLongString d @ rest) = Inr (d, 4 + length d)"
  by (simp add: parseLongString_def serializeLongString_def subslice_def)

lemma parseTable_empty [simp, wire_simps]: "parseTable (serializeEmptyTable @ rest) = Inr ([], 4)"
  by (simp add: parseTable_def serializeEmptyTable_def subslice_def)

lemma parseShortString_InrD:
  assumes "parseShortString data = Inr (s, n)"
  shows "length s < 256 \<and> n = 1 + length s \<and> data = serializeShortString s @ drop n data"
proof -
  from assms obtain b bs where d: "data = b # bs" by (cases data) (auto simp: parseShortString_def)
  with assms have len: "unat b \<le> length bs" "n = 1 + unat b" "s = string_of (take (unat b) bs)"
    by (auto simp: parseShortString_def subslice_def Let_def split: if_splits)
  then have "length s = unat b" by simp
  with len unsigned_less [of b, where ?'a = nat] show ?thesis
    by (simp add: d serializeShortString_def)
qed

text \<open>A field of an AMQPLAIN response, and the loop on a sequence of such fields.\<close>

definition amqplain_field :: "string \<times> string \<Rightarrow> byte list" where
  "amqplain_field kv =
     serializeShortString (fst kv) @ [of_char (CHR ''S'')] @ serializeLongString (bytes_of (snd kv))"

definition field_ok :: "string \<times> string \<Rightarrow> bool" where
  "field_ok kv \<longleftrightarrow> length (fst kv) < 256 \<and> length (snd kv) < 4294967296"

lemma length_amqplain_field [simp]:
  "length (amqplain_field kv) = 6 + length (fst kv) + length (snd kv)"
  by (simp add: amqplain_field_def)

lemma parseAMQPLAIN_step:
  assumes "data = pre @ amqplain_field (k, v) @ rest" and "field_ok (k, v)"
  shows "parseAMQPLAIN_loop data (length pre) flds =
    parseAMQPLAIN_loop data (length (pre @ amqplain_field (k, v))) (flds(k \<mapsto> v))"
proof -
  have d1: "drop (length pre) data =
      serializeShortString k @ [of_char (CHR ''S'')] @ serializeLongString (bytes_of v) @ rest"
    by (simp add: assms(1) amqplain_field_def)
  have at: "data ! Suc (length pre + length k) = of_char (CHR ''S'')"
    using d1 by (simp add: assms(1) amqplain_field_def nth_append del: of_char_Char)
  have "drop (Suc (Suc (length pre + length k))) data = drop (Suc (Suc (length k))) (drop (length pre) data)"
    by (simp add: add.commute)
  also have "\<dots> = serializeLongString (bytes_of v) @ rest"
    by (simp add: d1)
  finally have d2: "drop (Suc (Suc (length pre + length k))) data = serializeLongString (bytes_of v) @ rest" .
  from assms(2) have lens: "length k < 256" "length (bytes_of v) < 4294967296"
    by (simp_all add: field_ok_def)
  have bound: "length pre < length data" "Suc (length pre + length k) < length data"
    by (simp_all add: assms(1))
  show ?thesis
    using bound lens
    by (subst parseAMQPLAIN_loop.simps)
       (simp add: d1 at d2 wire_simps Let_def ac_simps del: of_char_Char append_Cons append_Nil)
qed

lemma parseAMQPLAIN_loop_fields:
  assumes "list_all field_ok kvs" "data = pre @ concat (map amqplain_field kvs)"
  shows "parseAMQPLAIN_loop data (length pre) flds = Inr (flds ++ map_of (rev kvs))"
  using assms
proof (induction kvs arbitrary: pre flds)
  case Nil
  then show ?case by (subst parseAMQPLAIN_loop.simps) simp
next
  case (Cons kv kvs)
  obtain k v where kv: "kv = (k, v)" by (cases kv)
  have "parseAMQPLAIN_loop data (length pre) flds =
      parseAMQPLAIN_loop data (length (pre @ amqplain_field (k, v))) (flds(k \<mapsto> v))"
    using Cons.prems kv by (intro parseAMQPLAIN_step) auto
  also have "\<dots> = Inr (flds(k \<mapsto> v) ++ map_of (rev kvs))"
    using Cons.prems kv by (intro Cons.IH) auto
  also have "flds(k \<mapsto> v) ++ map_of (rev kvs) = flds ++ map_of (rev (kv # kvs))"
    by (rule ext) (simp add: kv map_add_def split: option.splits)
  finally show ?case .
qed

lemma ParseConnectionStartOk_serialize:
  assumes "length mech < 256" "length response < 4294967296"
  shows "ParseConnectionStartOk (serializeConnectionStartOk mech response) =
    (if mech = ''PLAIN'' then
       (let parts = bytes_Split response 0
        in if length parts \<noteq> 3 then Inl (New ''invalid PLAIN auth format'')
           else Inr \<lparr>Username = string_of (parts ! 1), Password = string_of (parts ! 2)\<rparr>)
     else if mech = ''AMQPLAIN'' then parseAMQPLAIN response
     else Inl (Errorf ''unsupported auth mechanism: %s'' [] [mech]))"
proof -
  let ?tail = "serializeLongString response @ serializeShortString ''en_US''"
  let ?p = "serializeConnectionStartOk mech response"
  have p: "?p = method_header 10 11 @ serializeEmptyTable @ serializeShortString mech @ ?tail"
    by (simp add: serializeConnectionStartOk_def)
  have d4: "drop 4 ?p = serializeEmptyTable @ serializeShortString mech @ ?tail" by (simp add: p)
  have d8: "drop (4 + 4) ?p = serializeShortString mech @ ?tail" by (simp add: p)
  have dm: "drop (4 + 4 + (1 + length mech)) ?p = ?tail" by (simp add: p)
  have hdr: "ParseMethodHeader ?p = Inr \<lparr>ClassID = 10, MethodID = 11\<rparr>"
    unfolding p by (rule ParseMethodHeader_Serialize)
  show ?thesis
    unfolding ParseConnectionStartOk_def hdr Let_def
    using assms by (simp only: sum.case d4 parseTable_empty prod.case d8 parseShortString_serialize dm
        parseLongString_serialize) simp
qed

lemma PLAIN_response_Split:
  "0 \<notin> set (bytes_of username) \<Longrightarrow> 0 \<notin> set (bytes_of password) \<Longrightarrow>
   bytes_Split (serializeConnectionStartOkResponse username password) 0 =
     [[], bytes_of username, bytes_of password]"
  by (simp add: serializeConnectionStartOkResponse_def bytes_Split_append bytes_Split_none
      del: bytes_Split.simps)

lemma StartOk_plain:
  assumes "0 \<notin> set (bytes_of username)" and "0 \<notin> set (bytes_of password)"
    and "length username + length password + 2 < 2 ^ 32"
  shows "ParseConnectionStartOk (serializeConnectionStartOk ''PLAIN''
      (serializeConnectionStartOkResponse username password)) =
    Inr \<lparr>Username = username, Password = password\<rparr>"
proof -
  have "length (serializeConnectionStartOkResponse username password) < 4294967296"
    using assms(3) by (simp add: serializeConnectionStartOkResponse_def)
  then show ?thesis
    by (simp add: ParseConnectionStartOk_serialize PLAIN_response_Split [OF assms(1,2)])
qed

section \<open>Properties\<close>

text \<open>PLAIN round trip: what the proxy sends upstream as \<open>Connection.StartOk\<close> for a user name
  and a password without NUL bytes is parsed back to the same credentials.\<close>

theorem StartOk_plain_roundtrip:
  assumes "0 \<notin> set (bytes_of username)" and "0 \<notin> set (bytes_of password)"
    and "length username + length password + 2 < 2 ^ 32"
  shows "ParseConnectionStartOk (serializeConnectionStartOk ''PLAIN''
      (serializeConnectionStartOkResponse username password)) =
    Inr \<lparr>Username = username, Password = password\<rparr>"
  using assms by (rule StartOk_plain)

theorem StartOk_plain_roundtrip_witness:
  "ParseConnectionStartOk (serializeConnectionStartOk ''PLAIN''
      (serializeConnectionStartOkResponse ''guest'' ''pw'')) =
    Inr \<lparr>Username = ''guest'', Password = ''pw''\<rparr>"
  using StartOk_plain_roundtrip [of "''guest''" "''pw''"] by (simp add: bytes_of_def)

text \<open>A PLAIN response is accepted exactly when it contains two NUL bytes; any other count is
  refused with the format error, so no credentials are guessed.\<close>

theorem StartOk_plain_accept:
  assumes "length response < 2 ^ 32"
  shows "((\<exists>c. ParseConnectionStartOk (serializeConnectionStartOk ''PLAIN'' response) = Inr c) \<longleftrightarrow>
      count_list response 0 = 2) \<and>
    (count_list response 0 \<noteq> 2 \<longrightarrow>
      ParseConnectionStartOk (serializeConnectionStartOk ''PLAIN'' response) =
      Inl (New ''invalid PLAIN auth format''))"
  using assms by (auto simp: ParseConnectionStartOk_serialize length_bytes_Split Let_def)

theorem StartOk_plain_accept_witness:
  "(\<exists>c. ParseConnectionStartOk (serializeConnectionStartOk ''PLAIN'' [0, 97, 0, 98]) = Inr c) \<and>
   ParseConnectionStartOk (serializeConnectionStartOk ''PLAIN'' [0, 97]) =
     Inl (New ''invalid PLAIN auth format'')"
  using StartOk_plain_accept [of "[0, 97, 0, 98]"] StartOk_plain_accept [of "[0, 97]"] by simp

text \<open>AMQPLAIN: on any sequence of string fields the parser returns the last \<open>LOGIN\<close> and the
  last \<open>PASSWORD\<close> value, in whatever order and among whatever other fields they come, and
  refuses the response when one of them is missing.\<close>

theorem AMQPLAIN_fields:
  assumes "\<forall>(k, v) \<in> set kvs. length k < 256 \<and> length v < 2 ^ 32"
  shows "parseAMQPLAIN (concat (map amqplain_field kvs)) =
    (case (map_of (rev kvs) ''LOGIN'', map_of (rev kvs) ''PASSWORD'') of
       (Some u, Some p) \<Rightarrow> Inr \<lparr>Username = u, Password = p\<rparr>
     | _ \<Rightarrow> Inl (New ''AMQPLAIN: missing LOGIN or PASSWORD field''))"
proof -
  have "list_all field_ok kvs" using assms by (auto simp: list_all_iff field_ok_def)
  from parseAMQPLAIN_loop_fields [OF this, of "concat (map amqplain_field kvs)" "[]" Map.empty]
  show ?thesis by (simp add: parseAMQPLAIN_def)
qed

theorem AMQPLAIN_fields_witness:
  "parseAMQPLAIN (concat (map amqplain_field
      [(''LOGIN'', ''guest''), (''X'', ''y''), (''PASSWORD'', ''secret'')])) =
    Inr \<lparr>Username = ''guest'', Password = ''secret''\<rparr>"
  using AMQPLAIN_fields [of "[(''LOGIN'', ''guest''), (''X'', ''y''), (''PASSWORD'', ''secret'')]"]
  by simp

end
