(* ===== verification/Client_Connection.thy ===== *)
theory Client_Connection
  imports Amqp_Credentials
begin

text \<open>
  \<open>proxy/connection.go\<close>: one client of the proxy. Its channel maps with the operations that
  maintain them, the delivery of frames, the classification of methods, the payloads the proxy
  sends as a server, and the server side of the AMQP handshake (\<open>Handle\<close>).

  A \<open>ClientConnection\<close> owns its network connection: \<open>Reader\<close> is what the client sends,
  \<open>Writer\<close> the buffered writer on the connection, whose \<open>wr\<close> is the field \<open>Conn\<close> of the source.
  Every method below runs under the lock its source holds and is one function on the record.
  The back pointers to the proxy and from a channel to its connection carry no state.
\<close>

section \<open>State\<close>

record ClientChannel =
  ID :: u16
  UpstreamID :: u16
  Safe :: bool
  Operations :: "string set"

record ClientConnection =
  ClientChannels :: "u16 \<rightharpoonup> ClientChannel"
  ChannelMapping :: "u16 \<rightharpoonup> u16"
  ReverseMapping :: "u16 \<rightharpoonup> u16"
  Reader :: reader
  Writer :: bufio_writer
  cc_Username :: string
  cc_Password :: string
  cc_Vhost :: string

text \<open>\<open>inp\<close> is what arrives on the connection; \<open>Handle\<close> puts the buffered pair on it.\<close>

definition NewClientConnection :: "net_conn \<Rightarrow> reader \<Rightarrow> ClientConnection" where
  "NewClientConnection conn inp =
     \<lparr>ClientChannels = Map.empty, ChannelMapping = Map.empty, ReverseMapping = Map.empty,
      Reader = inp, Writer = NewWriter conn, cc_Username = '''', cc_Password = '''', cc_Vhost = ''''\<rparr>"

section \<open>Channel maps\<close>

definition MapChannel :: "ClientConnection \<Rightarrow> u16 \<Rightarrow> u16 \<Rightarrow> ClientConnection" where
  "MapChannel cc clientID upstreamID =
     (let cc = cc\<lparr>ChannelMapping := (ChannelMapping cc)(clientID \<mapsto> upstreamID),
                  ReverseMapping := (ReverseMapping cc)(upstreamID \<mapsto> clientID)\<rparr>
      in case ClientChannels cc clientID of
           Some channel \<Rightarrow>
             cc\<lparr>ClientChannels := (ClientChannels cc)(clientID \<mapsto> channel\<lparr>UpstreamID := upstreamID\<rparr>)\<rparr>
         | None \<Rightarrow>
             cc\<lparr>ClientChannels := (ClientChannels cc)(clientID \<mapsto>
                  \<lparr>ID = clientID, UpstreamID = upstreamID, Safe = True, Operations = {}\<rparr>)\<rparr>)"

definition UnmapChannel :: "ClientConnection \<Rightarrow> u16 \<Rightarrow> ClientConnection" where
  "UnmapChannel cc clientID =
     (case ChannelMapping cc clientID of
        None \<Rightarrow> cc
      | Some upstreamID \<Rightarrow>
          cc\<lparr>ChannelMapping := (ChannelMapping cc)(clientID := None),
             ReverseMapping := (ReverseMapping cc)(upstreamID := None),
             ClientChannels := (ClientChannels cc)(clientID := None)\<rparr>)"

definition RecordChannelOperation :: "ClientConnection \<Rightarrow> u16 \<Rightarrow> string \<Rightarrow> bool \<Rightarrow> ClientConnection" where
  "RecordChannelOperation cc channelID operation isSafe =
     (case ClientChannels cc channelID of
        None \<Rightarrow> cc
      | Some channel \<Rightarrow>
          let channel = channel\<lparr>Operations := insert operation (Operations channel)\<rparr>;
              channel = (if \<not> isSafe then channel\<lparr>Safe := False\<rparr> else channel)
          in cc\<lparr>ClientChannels := (ClientChannels cc)(channelID \<mapsto> channel)\<rparr>)"

definition OnChannelClosed :: "ClientConnection \<Rightarrow> u16 \<Rightarrow> ClientConnection" where
  "OnChannelClosed cc clientChanID = UnmapChannel cc clientChanID"

section \<open>Delivery\<close>

definition DeliverFrame :: "ClientConnection \<Rightarrow> Frame \<Rightarrow> go_error option \<times> ClientConnection" where
  "DeliverFrame cc frame =
     (case WriteFrame bufio_Write (Writer cc) frame of
        (Some err, w) \<Rightarrow> (Some err, cc\<lparr>Writer := w\<rparr>)
      | (None, w) \<Rightarrow> (case Flush w of (err, w') \<Rightarrow> (err, cc\<lparr>Writer := w'\<rparr>)))"

definition Abort :: "ClientConnection \<Rightarrow> ClientConnection" where
  "Abort cc = cc\<lparr>Writer := (Writer cc)\<lparr>wr := Conn_Close (wr (Writer cc))\<rparr>\<rparr>"

section \<open>Method classification\<close>

definition isChannelOpen :: "Frame \<Rightarrow> bool" where
  "isChannelOpen frame =
     (if Type frame \<noteq> FrameTypeMethod \<or> length (Payload frame) < 4 then False
      else Payload frame ! 0 = 0 \<and> Payload frame ! 1 = 20 \<and>
           Payload frame ! 2 = 0 \<and> Payload frame ! 3 = 10)"

definition isChannelCloseOk :: "Frame \<Rightarrow> bool" where
  "isChannelCloseOk frame =
     (if Type frame \<noteq> FrameTypeMethod \<or> length (Payload frame) < 4 then False
      else Payload frame ! 0 = 0 \<and> Payload frame ! 1 = 20 \<and>
           Payload frame ! 2 = 0 \<and> Payload frame ! 3 = 41)"

definition isChannelClose :: "Frame \<Rightarrow> bool" where
  "isChannelClose frame =
     (if Type frame \<noteq> FrameTypeMethod \<or> length (Payload frame) < 4 then False
      else if Payload frame ! 0 \<noteq> 0 \<or> Payload frame ! 1 \<noteq> 20 then False
      else Payload frame ! 2 = 0 \<and> (Payload frame ! 3 = 40 \<or> Payload frame ! 3 = 41))"

definition isConnectionClose :: "Frame \<Rightarrow> bool" where
  "isConnectionClose frame =
     (if Type frame \<noteq> FrameTypeMethod \<or> Channel frame \<noteq> 0 \<or> length (Payload frame) < 4 then False
      else Payload frame ! 0 = 0 \<and> Payload frame ! 1 = 10 \<and>
           Payload frame ! 2 = 0 \<and> Payload frame ! 3 = 50)"

definition unsafeMethods :: "byte list set" where
  "unsafeMethods =
     {[0, 60, 0, 20], [0, 60, 0, 10], [0, 60, 0, 80], [0, 60, 0, 90], [0, 60, 0, 120]}"

definition markChannelSafety :: "Frame \<Rightarrow> ClientConnection \<Rightarrow> ClientConnection" where
  "markChannelSafety frame cc =
     (if Type frame \<noteq> FrameTypeMethod \<or> length (Payload frame) < 4 then cc
      else if take 4 (Payload frame) \<in> unsafeMethods
      then (case ClientChannels cc (Channel frame) of
              None \<Rightarrow> cc
            | Some ch \<Rightarrow> cc\<lparr>ClientChannels := (ClientChannels cc)(Channel frame \<mapsto> ch\<lparr>Safe := False\<rparr>)\<rparr>)
      else cc)"

section \<open>Payloads of the server side\<close>

definition serializeConnectionTunePayload :: "byte list" where
  "serializeConnectionTunePayload =
     method_header 10 30 @ PutUint16 0 @ PutUint32 131072 @ PutUint16 60"

definition serializeConnectionStart :: "byte list" where
  "serializeConnectionStart =
     method_header 10 10 @ [0] @ [9] @ serializeEmptyTable @
     serializeLongString (bytes_of ''AMQPLAIN PLAIN'') @ serializeLongString (bytes_of ''en_US'')"

definition serializeConnectionOpenOK :: "byte list" where
  "serializeConnectionOpenOK = method_header 10 41 @ [0]"

definition serializeConnectionClose :: "u16 \<Rightarrow> string \<Rightarrow> byte list" where
  "serializeConnectionClose replyCode replyText =
     method_header 10 50 @ PutUint16 replyCode @ serializeShortString replyText @ [0, 0, 0, 0]"

abbreviation method_frame :: "byte list \<Rightarrow> Frame" where
  "method_frame p \<equiv> \<lparr>Type = FrameTypeMethod, Channel = 0, Payload = p\<rparr>"

definition sendConnectionStart :: "ClientConnection \<Rightarrow> go_error option \<times> ClientConnection" where
  "sendConnectionStart cc = DeliverFrame cc (method_frame serializeConnectionStart)"

definition sendConnectionTune :: "ClientConnection \<Rightarrow> go_error option \<times> ClientConnection" where
  "sendConnectionTune cc = DeliverFrame cc (method_frame serializeConnectionTunePayload)"

section \<open>The handshake with a client\<close>

text \<open>One read of \<open>Handle\<close>: a frame and its method header.\<close>

definition readMethod :: "ClientConnection \<Rightarrow> (Frame \<times> MethodHeader) result \<times> ClientConnection" where
  "readMethod cc =
     (case ParseFrame (Reader cc) of
        (Inl err, r) \<Rightarrow> (Inl err, cc\<lparr>Reader := r\<rparr>)
      | (Inr frame, r) \<Rightarrow>
          (case ParseMethodHeader (Payload frame) of
             Inl err \<Rightarrow> (Inl err, cc\<lparr>Reader := r\<rparr>)
           | Inr header \<Rightarrow> (Inr (frame, header), cc\<lparr>Reader := r\<rparr>)))"

definition Handle :: "ClientConnection \<Rightarrow> go_error option \<times> ClientConnection" where
  "Handle cc0 =
     (case sendConnectionStart cc0 of
        (Some err, cc) \<Rightarrow> (Some err, cc)
      | (None, cc) \<Rightarrow>
     (case readMethod cc of
        (Inl err, cc) \<Rightarrow> (Some err, cc)
      | (Inr (frame, header), cc) \<Rightarrow>
     (if \<not> (ClassID header = 10 \<and> MethodID header = 11)
      then (Some (Errorf ''expected Connection.StartOk, got class=%d method=%d''
                    [unat (ClassID header), unat (MethodID header)] []), cc)
      else case ParseConnectionStartOk (Payload frame) of
        Inl err \<Rightarrow> (Some err, cc)
      | Inr creds \<Rightarrow>
     (case sendConnectionTune cc of
        (Some err, cc) \<Rightarrow> (Some err, cc)
      | (None, cc) \<Rightarrow>
     (case readMethod cc of
        (Inl err, cc) \<Rightarrow> (Some err, cc)
      | (Inr (frame, header), cc) \<Rightarrow>
     (if ClassID header \<noteq> 10 \<or> MethodID header \<noteq> 31
      then (Some (Errorf ''expected Connection.TuneOk, got class=%d method=%d''
                    [unat (ClassID header), unat (MethodID header)] []), cc)
      else case readMethod cc of
        (Inl err, cc) \<Rightarrow> (Some err, cc)
      | (Inr (frame, header), cc) \<Rightarrow>
     (if ClassID header \<noteq> 10 \<or> MethodID header \<noteq> 40
      then (Some (Errorf ''expected Connection.Open (class=10, method=40), got class=%d method=%d''
                    [unat (ClassID header), unat (MethodID header)] []), cc)
      else case ParseConnectionOpen (Payload frame) of
        Inl err \<Rightarrow> (Some (Wrapf ''failed to parse Connection.Open: %w'' [] err), cc)
      | Inr vhost \<Rightarrow>
          DeliverFrame (cc\<lparr>cc_Username := Username creds, cc_Password := Password creds, cc_Vhost := vhost\<rparr>)
            (method_frame serializeConnectionOpenOK))))))))"

section \<open>The channel maps: contract and invariant\<close>

text \<open>
  What the forwarding code needs of a client's channel table: a forward and a backward lookup
  that are inverse to each other, an insertion for a fresh pair and a removal.
\<close>

locale channel_table =
  fixes fwd :: "'s \<Rightarrow> u16 \<rightharpoonup> u16"
    and rev :: "'s \<Rightarrow> u16 \<rightharpoonup> u16"
    and add :: "'s \<Rightarrow> u16 \<Rightarrow> u16 \<Rightarrow> 's"
    and del :: "'s \<Rightarrow> u16 \<Rightarrow> 's"
    and inv :: "'s \<Rightarrow> bool"
  assumes rev_iff_fwd: "inv s \<Longrightarrow> rev s u = Some c \<longleftrightarrow> fwd s c = Some u"
    and fwd_add: "fwd (add s c u) = (fwd s)(c \<mapsto> u)"
    and fwd_del: "fwd (del s c) = (fwd s)(c := None)"
    and inv_add: "inv s \<Longrightarrow> fwd s c = None \<Longrightarrow> rev s u = None \<Longrightarrow> inv (add s c u)"
    and inv_del: "inv s \<Longrightarrow> inv (del s c)"
begin

lemma fwd_inj: "inv s \<Longrightarrow> fwd s c = Some u \<Longrightarrow> fwd s c' = Some u \<Longrightarrow> c = c'"
  using rev_iff_fwd by (metis option.inject)

lemma rev_inj: "inv s \<Longrightarrow> rev s u = Some c \<Longrightarrow> rev s u' = Some c \<Longrightarrow> u = u'"
  using rev_iff_fwd by (metis option.inject)

lemma roundtrip: "inv s \<Longrightarrow> fwd s c = Some u \<Longrightarrow> rev s u = Some c"
  by (simp add: rev_iff_fwd)

lemma rev_add: "inv s \<Longrightarrow> fwd s c = None \<Longrightarrow> rev s u = None \<Longrightarrow> rev (add s c u) = (rev s)(u \<mapsto> c)"
proof (rule ext, rule option_eqI)
  fix x d
  assume a: "inv s" "fwd s c = None" "rev s u = None"
  have "fwd s d \<noteq> Some u" using rev_iff_fwd [OF a(1), of u d] a(3) by simp
  with a show "rev (add s c u) x = Some d \<longleftrightarrow> ((rev s)(u \<mapsto> c)) x = Some d"
    by (auto simp: rev_iff_fwd inv_add fwd_add)
qed

lemma lookup_after_del: "inv s \<Longrightarrow> fwd s c = Some u \<Longrightarrow> rev (del s c) u = None"
proof (rule option_eqI)
  fix d
  assume "inv s" "fwd s c = Some u"
  then show "rev (del s c) u = Some d \<longleftrightarrow> None = Some d"
    using fwd_inj [of s c u d] by (auto simp: rev_iff_fwd [OF inv_del] fwd_del)
qed

lemma lookup_other_del:
  "inv s \<Longrightarrow> fwd s c = Some u \<Longrightarrow> c' \<noteq> c \<Longrightarrow> fwd s c' = Some u' \<Longrightarrow> rev (del s c) u' = Some c'"
  by (simp add: rev_iff_fwd [OF inv_del] fwd_del)

end

text \<open>
  The invariant of a client connection: the two maps are inverse, and every channel object
  belongs to a mapped channel and carries its two numbers. After the client has sent
  \<open>Channel.Close\<close> a mapping exists without a channel object.
\<close>

definition maps_ok :: "ClientConnection \<Rightarrow> bool" where
  "maps_ok cc \<longleftrightarrow>
     (\<forall>c u. ReverseMapping cc u = Some c \<longleftrightarrow> ChannelMapping cc c = Some u) \<and>
     (\<forall>c ch. ClientChannels cc c = Some ch \<longrightarrow>
        ID ch = c \<and> ChannelMapping cc c = Some (UpstreamID ch))"

lemma ChannelMapping_MapChannel [map_simps]:
  "ChannelMapping (MapChannel cc c u) = (ChannelMapping cc)(c \<mapsto> u)"
  by (simp add: MapChannel_def Let_def split: option.splits)

lemma ReverseMapping_MapChannel [map_simps]:
  "ReverseMapping (MapChannel cc c u) = (ReverseMapping cc)(u \<mapsto> c)"
  by (simp add: MapChannel_def Let_def split: option.splits)

lemma ClientChannels_MapChannel [map_simps]:
  "ClientChannels (MapChannel cc c u) = (ClientChannels cc)(c \<mapsto>
     (case ClientChannels cc c of
        Some ch \<Rightarrow> ch\<lparr>UpstreamID := u\<rparr>
      | None \<Rightarrow> \<lparr>ID = c, UpstreamID = u, Safe = True, Operations = {}\<rparr>))"
  by (simp add: MapChannel_def Let_def split: option.splits)

lemma ChannelMapping_UnmapChannel [map_simps]:
  "ChannelMapping (UnmapChannel cc c) = (ChannelMapping cc)(c := None)"
  by (auto simp: UnmapChannel_def split: option.splits)

lemma maps_ok_MapChannel:
  assumes "maps_ok cc" "ChannelMapping cc c = None" "ReverseMapping cc u = None"
  shows "maps_ok (MapChannel cc c u)"
proof -
  have "ClientChannels cc c = None"
    using assms(1,2) by (cases "ClientChannels cc c") (auto simp: maps_ok_def)
  moreover have "ChannelMapping cc c' \<noteq> Some u" for c'
    using assms(1,3) by (metis maps_ok_def option.distinct(1))
  moreover have "ReverseMapping cc u' \<noteq> Some c" for u'
    using assms(1,2) by (metis maps_ok_def option.distinct(1))
  ultimately show ?thesis
    using assms(1) by (simp add: maps_ok_def map_simps)
qed

lemma maps_ok_UnmapChannel:
  assumes ok: "maps_ok cc"
  shows "maps_ok (UnmapChannel cc c)"
proof (cases "ChannelMapping cc c")
  case None
  with ok show ?thesis by (simp add: UnmapChannel_def)
next
  case (Some u)
  from ok have inv: "ReverseMapping cc v = Some d \<longleftrightarrow> ChannelMapping cc d = Some v" for v d
    by (simp add: maps_ok_def)
  have "d = c" if "ChannelMapping cc d = Some u" for d
    using inv [of u d] inv [of u c] that Some by simp
  moreover have "ID ch = d \<and> ChannelMapping cc d = Some (UpstreamID ch)" if "ClientChannels cc d = Some ch" for d ch
    using ok that by (simp add: maps_ok_def)
  ultimately show ?thesis
    by (auto simp: maps_ok_def UnmapChannel_def Some inv)
qed

interpretation client_maps: channel_table ChannelMapping ReverseMapping MapChannel UnmapChannel maps_ok
proof
  fix s u c
  assume "maps_ok s"
  then show "ReverseMapping s u = Some c \<longleftrightarrow> ChannelMapping s c = Some u"
    by (simp add: maps_ok_def)
qed (simp_all add: map_simps maps_ok_MapChannel maps_ok_UnmapChannel)

lemma maps_ok_new: "maps_ok (NewClientConnection conn inp)"
  by (simp add: maps_ok_def NewClientConnection_def)

text \<open>The remaining operations leave the maps alone.\<close>

lemma maps_ok_RecordChannelOperation:
  "maps_ok cc \<Longrightarrow> maps_ok (RecordChannelOperation cc c op safe)"
  by (auto simp: maps_ok_def RecordChannelOperation_def Let_def split: option.splits)

lemma maps_ok_markChannelSafety: "maps_ok cc \<Longrightarrow> maps_ok (markChannelSafety f cc)"
  by (auto simp: maps_ok_def markChannelSafety_def split: option.splits)

lemma markChannelSafety_maps [simp]:
  "ChannelMapping (markChannelSafety f cc) = ChannelMapping cc"
  "ReverseMapping (markChannelSafety f cc) = ReverseMapping cc"
  "Writer (markChannelSafety f cc) = Writer cc"
  "Reader (markChannelSafety f cc) = Reader cc"
  "dom (ClientChannels (markChannelSafety f cc)) = dom (ClientChannels cc)"
  by (auto simp: markChannelSafety_def split: option.splits if_splits)

lemma DeliverFrame_maps [simp]:
  "ChannelMapping (snd (DeliverFrame cc f)) = ChannelMapping cc"
  "ReverseMapping (snd (DeliverFrame cc f)) = ReverseMapping cc"
  "ClientChannels (snd (DeliverFrame cc f)) = ClientChannels cc"
  "Reader (snd (DeliverFrame cc f)) = Reader cc"
  by (simp_all add: DeliverFrame_def split: prod.splits option.splits)

lemma Abort_maps [simp]:
  "ChannelMapping (Abort cc) = ChannelMapping cc" "ReverseMapping (Abort cc) = ReverseMapping cc"
  "ClientChannels (Abort cc) = ClientChannels cc" "Reader (Abort cc) = Reader cc"
  by (simp_all add: Abort_def)

section \<open>Delivery and handshake\<close>

lemma DeliverFrame_ok:
  assumes "DeliverFrame cc f = (None, cc')"
  shows "\<exists>w. cc' = cc\<lparr>Writer := w\<rparr> \<and> buf w = [] \<and> werr w = None \<and> frame_ok f \<and>
    sent (wr w) = accepted (Writer cc) @ frame_bytes f"
proof -
  from assms obtain w w' where "WriteFrame bufio_Write (Writer cc) f = (None, w)"
    "Flush w = (None, w')" "cc' = cc\<lparr>Writer := w'\<rparr>"
    by (auto simp: DeliverFrame_def split: prod.splits option.splits)
  then show ?thesis using buffered.WriteFrame_ok Flush_ok by fastforce
qed

lemma DeliverFrame_live:
  assumes "live_bufio (Writer cc)" "frame_ok f"
  shows "\<exists>w. DeliverFrame cc f = (None, cc\<lparr>Writer := w\<rparr>) \<and> live_bufio w"
proof -
  from live_buffered.WriteFrame_live [OF assms] obtain w where
    w: "WriteFrame bufio_Write (Writer cc) f = (None, w)" "live_bufio w" by blast
  from Flush_live [OF w(2)] w(1) show ?thesis by (auto simp: DeliverFrame_def)
qed

text \<open>Nothing more is delivered to a connection that has been closed.\<close>

lemma DeliverFrame_closed:
  assumes "closed (wr (Writer cc))"
  shows "wr (Writer (snd (DeliverFrame cc f))) = wr (Writer cc)"
proof -
  have wf: "wr (snd (WriteFrame bufio_Write b f)) = wr b" if "closed (wr b)" for b
  proof -
    have k: "bufio_Write c p = (e, d) \<Longrightarrow> wr c = wr b \<Longrightarrow> wr d = wr b" for c p e d
      using bufio_Write_closed [of c p] that by simp
    show ?thesis by (auto simp: WriteFrame_def Let_def split: prod.splits option.splits dest!: k)
  qed
  obtain e w where w: "WriteFrame bufio_Write (Writer cc) f = (e, w)" by fastforce
  then have "wr w = wr (Writer cc)" using wf [OF assms] by simp
  with w Flush_closed [of w] assms show ?thesis
    by (cases e) (auto simp: DeliverFrame_def split: prod.splits)
qed

lemma readMethod_ok:
  assumes "readMethod cc = (Inr (f, h), cc')"
  shows "\<exists>r. cc' = cc\<lparr>Reader := r\<rparr> \<and> ParseFrame (Reader cc) = (Inr f, r) \<and>
    ParseMethodHeader (Payload f) = Inr h"
  using assms by (auto simp: readMethod_def split: prod.splits sum.splits)

lemma readMethod_frame:
  "ParseFrame (Reader cc) = (Inr f, r) \<Longrightarrow> ParseMethodHeader (Payload f) = Inr h \<Longrightarrow>
   readMethod cc = (Inr (f, h), cc\<lparr>Reader := r\<rparr>)"
  by (simp add: readMethod_def)

lemma Handle_steps:
  assumes "Handle cc0 = (None, cc')"
  obtains cc1 f1 h1 cc2 creds cc3 f2 h2 cc4 f3 h3 cc5 vhost where
    "sendConnectionStart cc0 = (None, cc1)" "readMethod cc1 = (Inr (f1, h1), cc2)"
    "ClassID h1 = 10" "MethodID h1 = 11" "ParseConnectionStartOk (Payload f1) = Inr creds"
    "sendConnectionTune cc2 = (None, cc3)" "readMethod cc3 = (Inr (f2, h2), cc4)"
    "ClassID h2 = 10" "MethodID h2 = 31" "readMethod cc4 = (Inr (f3, h3), cc5)"
    "ParseConnectionOpen (Payload f3) = Inr vhost"
    "DeliverFrame (cc5\<lparr>cc_Username := Username creds, cc_Password := Password creds, cc_Vhost := vhost\<rparr>)
       (method_frame serializeConnectionOpenOK) = (None, cc')"
  using assms unfolding Handle_def
  by (auto split: prod.splits option.splits sum.splits if_splits)

lemma server_frames_ok [simp]:
  "frame_ok (method_frame serializeConnectionStart)"
  "frame_ok (method_frame serializeConnectionTunePayload)"
  "frame_ok (method_frame serializeConnectionOpenOK)"
  by (simp_all add: frame_ok_def MaxFrameSize_def serializeConnectionStart_def
      serializeConnectionTunePayload_def serializeConnectionOpenOK_def)

text \<open>What the proxy says to a client during a complete handshake.\<close>

definition server_script :: "Frame list" where
  "server_script = [method_frame serializeConnectionStart, method_frame serializeConnectionTunePayload,
     method_frame serializeConnectionOpenOK]"

text \<open>The other direction: the run of \<open>Handle\<close> on an acceptable client.\<close>

lemma StartOk_header: "ParseConnectionStartOk p = Inr c \<Longrightarrow>
    \<exists>h. ParseMethodHeader p = Inr h \<and> ClassID h = 10 \<and> MethodID h = 11"
  by (auto simp: ParseConnectionStartOk_def split: sum.splits if_splits)

lemma Open_header: "ParseConnectionOpen p = Inr v \<Longrightarrow>
    \<exists>h. ParseMethodHeader p = Inr h \<and> ClassID h = 10 \<and> MethodID h = 40"
  by (auto simp: ParseConnectionOpen_def split: sum.splits if_splits)

lemma Handle_run:
  assumes live: "live_bufio (Writer cc)"
    and inp: "rdata (Reader cc) = frame_bytes f1 @ frame_bytes f2 @ frame_bytes f3 @ rest"
    and ok: "list_all frame_ok [f1, f2, f3]"
    and c: "ParseConnectionStartOk (Payload f1) = Inr creds"
    and t: "ParseMethodHeader (Payload f2) = Inr \<lparr>ClassID = 10, MethodID = 31\<rparr>"
    and v: "ParseConnectionOpen (Payload f3) = Inr vhost"
  shows "\<exists>w. Handle cc = (None, cc\<lparr>Reader := \<lparr>rdata = rest, rend = rend (Reader cc)\<rparr>, Writer := w,
    cc_Username := Username creds, cc_Password := Password creds, cc_Vhost := vhost\<rparr>)"
proof -
  define rd where "rd bs = \<lparr>rdata = bs, rend = rend (Reader cc)\<rparr>" for bs
  define cn where "cn bs w = cc\<lparr>Reader := rd bs, Writer := w\<rparr>" for bs w
  have start: "cc\<lparr>Writer := w\<rparr> = cn (frame_bytes f1 @ frame_bytes f2 @ frame_bytes f3 @ rest) w" for w
    by (cases cc; cases "Reader cc") (use inp in \<open>simp add: cn_def rd_def\<close>)
  have rm: "readMethod (cn (frame_bytes f @ bs) w) = (Inr (f, h), cn bs w)"
    if "frame_ok f" "ParseMethodHeader (Payload f) = Inr h" for f bs w h
    using that by (simp add: readMethod_def cn_def rd_def wire_simps)
  have dl: "\<exists>w'. DeliverFrame (cn bs w) f = (None, cn bs w') \<and> live_bufio w'"
    if "live_bufio w" "frame_ok f" for bs w f
    using DeliverFrame_live [of "cn bs w" f] that by (simp add: cn_def)
  from StartOk_header [OF c] obtain h1 where h1: "ParseMethodHeader (Payload f1) = Inr h1" "ClassID h1 = 10" "MethodID h1 = 11"
    by blast
  from Open_header [OF v] obtain h3 where h3: "ParseMethodHeader (Payload f3) = Inr h3" "ClassID h3 = 10" "MethodID h3 = 40"
    by blast
  obtain w1 where w1: "sendConnectionStart cc = (None, cc\<lparr>Writer := w1\<rparr>)" "live_bufio w1"
    using DeliverFrame_live [OF live server_frames_ok(1)] by (auto simp: sendConnectionStart_def)
  obtain w2 where w2: "sendConnectionTune (cn (frame_bytes f2 @ frame_bytes f3 @ rest) w1) =
      (None, cn (frame_bytes f2 @ frame_bytes f3 @ rest) w2)" "live_bufio w2"
    using dl [OF w1(2) server_frames_ok(2)] by (auto simp: sendConnectionTune_def)
  obtain w3 where "DeliverFrame ((cn rest w2)\<lparr>cc_Username := Username creds, cc_Password := Password creds,
      cc_Vhost := vhost\<rparr>) (method_frame serializeConnectionOpenOK) =
      (None, (cn rest w2)\<lparr>cc_Username := Username creds, cc_Password := Password creds, cc_Vhost := vhost,
        Writer := w3\<rparr>)"
    using DeliverFrame_live [of "(cn rest w2)\<lparr>cc_Username := Username creds, cc_Password := Password creds,
      cc_Vhost := vhost\<rparr>", OF _ server_frames_ok(3)] w2(2) by (auto simp: cn_def)
  then have "Handle cc = (None, (cn rest w2)\<lparr>cc_Username := Username creds, cc_Password := Password creds,
      cc_Vhost := vhost, Writer := w3\<rparr>)"
    unfolding Handle_def w1(1) using ok h1 h3 c t v w2(1) by (simp add: start rm)
  then show ?thesis by (intro exI [of _ w3]) (cases cc, simp add: cn_def rd_def)
qed

lemma Handle_effects:
  assumes "Handle cc = (None, cc')"
  shows "\<exists>f1 f2 f3 h2.
    rdata (Reader cc) = frame_bytes f1 @ frame_bytes f2 @ frame_bytes f3 @ rdata (Reader cc') \<and>
    ParseConnectionStartOk (Payload f1) = Inr \<lparr>Username = cc_Username cc', Password = cc_Password cc'\<rparr> \<and>
    ParseMethodHeader (Payload f2) = Inr h2 \<and> ClassID h2 = 10 \<and> MethodID h2 = 31 \<and>
    ParseConnectionOpen (Payload f3) = Inr (cc_Vhost cc') \<and>
    sent (wr (Writer cc')) = accepted (Writer cc) @ concat (map frame_bytes server_script) \<and>
    ChannelMapping cc' = ChannelMapping cc \<and> ReverseMapping cc' = ReverseMapping cc \<and>
    ClientChannels cc' = ClientChannels cc"
proof -
  from assms obtain cc1 f1 h1 cc2 creds cc3 f2 h2 cc4 f3 h3 cc5 vhost where
    run: "sendConnectionStart cc = (None, cc1)" "readMethod cc1 = (Inr (f1, h1), cc2)"
    "ParseConnectionStartOk (Payload f1) = Inr creds"
    "sendConnectionTune cc2 = (None, cc3)" "readMethod cc3 = (Inr (f2, h2), cc4)"
    "ClassID h2 = 10" "MethodID h2 = 31" "readMethod cc4 = (Inr (f3, h3), cc5)"
    "ParseConnectionOpen (Payload f3) = Inr vhost"
    "DeliverFrame (cc5\<lparr>cc_Username := Username creds, cc_Password := Password creds, cc_Vhost := vhost\<rparr>)
       (method_frame serializeConnectionOpenOK) = (None, cc')"
    by (rule Handle_steps)
  show ?thesis
    by (rule exI [of _ f1], rule exI [of _ f2], rule exI [of _ f3], rule exI [of _ h2])
       (insert run, unfold sendConnectionStart_def sendConnectionTune_def,
        auto dest!: DeliverFrame_ok readMethod_ok simp: ParseFrame_ok_iff server_script_def accepted_def)
qed

text \<open>A client that opens the virtual host \<open>/\<close> as user \<open>u\<close> and has one byte more to say.\<close>

definition handshake_client :: ClientConnection where
  "handshake_client = NewClientConnection new_conn \<lparr>rdata =
     frame_bytes (method_frame (serializeConnectionStartOk ''PLAIN'' [0, 117, 0, 112])) @
     frame_bytes (method_frame (method_header 10 31)) @
     frame_bytes (method_frame (method_header 10 40 @ serializeShortString ''/'')) @ [7], rend = EOF\<rparr>"

lemma string_of_bytes [simp]: "string_of [117] = ''u''" "string_of [112] = ''p''"
  by code_simp+

lemma handshake_client_facts:
  "live_bufio (Writer handshake_client)"
  "rdata (Reader handshake_client) =
     frame_bytes (method_frame (serializeConnectionStartOk ''PLAIN'' [0, 117, 0, 112])) @
     frame_bytes (method_frame (method_header 10 31)) @
     frame_bytes (method_frame (method_header 10 40 @ serializeShortString ''/'')) @ [7]"
  "list_all frame_ok [method_frame (serializeConnectionStartOk ''PLAIN'' [0, 117, 0, 112]),
     method_frame (method_header 10 31), method_frame (method_header 10 40 @ serializeShortString ''/'')]"
  "ParseConnectionStartOk (Payload (method_frame (serializeConnectionStartOk ''PLAIN'' [0, 117, 0, 112]))) =
     Inr \<lparr>Username = ''u'', Password = ''p''\<rparr>"
  "ParseMethodHeader (Payload (method_frame (method_header 10 31))) = Inr \<lparr>ClassID = 10, MethodID = 31\<rparr>"
  "ParseConnectionOpen (Payload (method_frame (method_header 10 40 @ serializeShortString ''/''))) = Inr ''/''"
  using ParseMethodHeader_Serialize [of "\<lparr>ClassID = 10, MethodID = 31\<rparr>" "[]"]
    parseShortString_serialize [of "''/''" "[]"]
  by (simp_all add: handshake_client_def NewClientConnection_def live_bufio_def live_conn_def NewWriter_def
      new_conn_def frame_ok_def MaxFrameSize_def serializeConnectionStartOk_def ParseConnectionOpen_def)
     (simp add: ParseConnectionStartOk_serialize flip: serializeConnectionStartOk_def)

lemma handshake_client_ok: "\<exists>cc'. Handle handshake_client = (None, cc') \<and> rdata (Reader cc') = [7]"
  using Handle_run [OF handshake_client_facts] by fastforce

section \<open>Properties\<close>

text \<open>After \<open>MapChannel\<close> on a fresh pair both lookups find it and every other channel is
  looked up as before; \<open>UnmapChannel\<close> then restores both maps exactly.\<close>

theorem MapChannel_lookup:
  assumes "maps_ok cc" and "ChannelMapping cc c = None" and "ReverseMapping cc u = None"
  shows "ChannelMapping (MapChannel cc c u) = (ChannelMapping cc)(c \<mapsto> u) \<and>
    ReverseMapping (MapChannel cc c u) = (ReverseMapping cc)(u \<mapsto> c) \<and>
    ChannelMapping (UnmapChannel (MapChannel cc c u) c) = ChannelMapping cc \<and>
    ReverseMapping (UnmapChannel (MapChannel cc c u) c) = ReverseMapping cc \<and>
    ClientChannels (UnmapChannel (MapChannel cc c u) c) = ClientChannels cc"
proof -
  have "ClientChannels cc c = None"
    using assms(1,2) by (cases "ClientChannels cc c") (auto simp: maps_ok_def)
  with assms show ?thesis
    using client_maps.fwd_add client_maps.rev_add
    by (auto simp: UnmapChannel_def map_simps fun_upd_idem_iff)
qed

theorem MapChannel_lookup_witness:
  "ReverseMapping (MapChannel (NewClientConnection new_conn \<lparr>rdata = [], rend = EOF\<rparr>) 1 42) 42 = Some 1"
proof -
  let ?cc = "NewClientConnection new_conn \<lparr>rdata = [], rend = EOF\<rparr>"
  have "maps_ok ?cc" "ChannelMapping ?cc 1 = None" "ReverseMapping ?cc 42 = None"
    by (simp_all add: maps_ok_new) (simp_all add: NewClientConnection_def)
  with MapChannel_lookup [of ?cc 1 42] show ?thesis by simp
qed

text \<open>(C23) The handshake is sound: when \<open>Handle\<close> succeeds, the client sent exactly three frames,
  \<open>Connection.StartOk\<close> with the recorded credentials, \<open>Connection.TuneOk\<close> and
  \<open>Connection.Open\<close> for the recorded virtual host, it was sent \<open>Start\<close>, \<open>Tune\<close> and \<open>OpenOk\<close> and
  nothing else, no channel was mapped, and the next frame is left unread.\<close>

theorem Handle_sound:
  assumes "Handle cc = (None, cc')"
  shows "\<exists>f1 f2 f3 h2.
    rdata (Reader cc) = frame_bytes f1 @ frame_bytes f2 @ frame_bytes f3 @ rdata (Reader cc') \<and>
    ParseConnectionStartOk (Payload f1) = Inr \<lparr>Username = cc_Username cc', Password = cc_Password cc'\<rparr> \<and>
    ParseMethodHeader (Payload f2) = Inr h2 \<and> ClassID h2 = 10 \<and> MethodID h2 = 31 \<and>
    ParseConnectionOpen (Payload f3) = Inr (cc_Vhost cc') \<and>
    sent (wr (Writer cc')) = accepted (Writer cc) @ concat (map frame_bytes server_script) \<and>
    ChannelMapping cc' = ChannelMapping cc \<and> ReverseMapping cc' = ReverseMapping cc \<and>
    ClientChannels cc' = ClientChannels cc"
  using assms by (rule Handle_effects)

theorem Handle_sound_witness:
  "\<exists>cc'. Handle handshake_client = (None, cc') \<and>
    sent (wr (Writer cc')) = concat (map frame_bytes server_script) \<and> rdata (Reader cc') = [7]"
proof -
  obtain cc' where cc': "Handle handshake_client = (None, cc')" "rdata (Reader cc') = [7]"
    using handshake_client_ok by blast
  from Handle_sound [OF cc'(1)] have
    "sent (wr (Writer cc')) = accepted (Writer handshake_client) @ concat (map frame_bytes server_script)"
    by blast
  moreover have "accepted (Writer handshake_client) = []"
    by (simp add: handshake_client_def NewClientConnection_def accepted_def NewWriter_def new_conn_def)
  ultimately show ?thesis using cc' by auto
qed

text \<open>(C24) The handshake is complete: a client that sends an acceptable \<open>StartOk\<close>, a \<open>TuneOk\<close> and an
  \<open>Open\<close> on a working connection is admitted, with the credentials and the virtual host it sent.\<close>

theorem Handle_complete:
  assumes "live_bufio (Writer cc)"
    and "rdata (Reader cc) = frame_bytes f1 @ frame_bytes f2 @ frame_bytes f3 @ rest"
    and "list_all frame_ok [f1, f2, f3]"
    and "ParseConnectionStartOk (Payload f1) = Inr creds"
    and "ParseMethodHeader (Payload f2) = Inr \<lparr>ClassID = 10, MethodID = 31\<rparr>"
    and "ParseConnectionOpen (Payload f3) = Inr vhost"
  shows "\<exists>w. Handle cc = (None, cc\<lparr>Reader := \<lparr>rdata = rest, rend = rend (Reader cc)\<rparr>, Writer := w,
    cc_Username := Username creds, cc_Password := Password creds, cc_Vhost := vhost\<rparr>)"
  using Handle_run [OF assms] by blast

theorem Handle_complete_witness:
  "\<exists>w. Handle handshake_client = (None, handshake_client\<lparr>Reader := \<lparr>rdata = [7], rend = EOF\<rparr>, Writer := w,
    cc_Username := ''u'', cc_Password := ''p'', cc_Vhost := ''/''\<rparr>)"
  using Handle_complete [OF handshake_client_facts] by (simp add: handshake_client_def NewClientConnection_def)

end
