(* ===== verification/Frame_Proxy.thy ===== *)
theory Frame_Proxy
  imports Client_Connection
begin

text \<open>
  \<open>proxy/frame_proxy.go\<close>: a \<open>FrameProxy\<close> rewrites the channel number of a frame with the maps
  of one client and writes it to one of two writers, either of which may be absent. Its
  correctness is proved against the contract \<open>channel_table\<close> of the maps and \<open>io_writer\<close> of
  the writers.
\<close>

record 'w FrameProxy =
  ClientConn :: ClientConnection
  UpstreamWriter :: "'w option"
  ClientWriter :: "'w option"

definition NewFrameProxy :: "ClientConnection \<Rightarrow> 'w option \<Rightarrow> 'w option \<Rightarrow> 'w FrameProxy" where
  "NewFrameProxy cc up cl = \<lparr>ClientConn = cc, UpstreamWriter = up, ClientWriter = cl\<rparr>"

definition ProxyClientToUpstream ::
    "('w \<Rightarrow> byte list \<Rightarrow> go_error option \<times> 'w) \<Rightarrow> 'w FrameProxy \<Rightarrow> Frame \<Rightarrow> go_error option \<times> 'w FrameProxy" where
  "ProxyClientToUpstream Wr fp frame =
     (case UpstreamWriter fp of
        None \<Rightarrow> (None, fp)
      | Some w \<Rightarrow>
          let remapped = (case ChannelMapping (ClientConn fp) (Channel frame) of
                            Some upstreamID \<Rightarrow> frame\<lparr>Channel := upstreamID\<rparr>
                          | None \<Rightarrow> frame)
          in case WriteFrame Wr w remapped of (err, w') \<Rightarrow> (err, fp\<lparr>UpstreamWriter := Some w'\<rparr>))"

definition ProxyUpstreamToClient ::
    "('w \<Rightarrow> byte list \<Rightarrow> go_error option \<times> 'w) \<Rightarrow> 'w FrameProxy \<Rightarrow> Frame \<Rightarrow> go_error option \<times> 'w FrameProxy" where
  "ProxyUpstreamToClient Wr fp frame =
     (case ClientWriter fp of
        None \<Rightarrow> (None, fp)
      | Some w \<Rightarrow>
          if Channel frame = 0
          then (case WriteFrame Wr w frame of (err, w') \<Rightarrow> (err, fp\<lparr>ClientWriter := Some w'\<rparr>))
          else (case ReverseMapping (ClientConn fp) (Channel frame) of
                  None \<Rightarrow> (None, fp)
                | Some clientID \<Rightarrow>
                    (case WriteFrame Wr w (frame\<lparr>Channel := clientID\<rparr>) of
                       (err, w') \<Rightarrow> (err, fp\<lparr>ClientWriter := Some w'\<rparr>))))"

section \<open>Lemmas\<close>

lemma Frame_Channel_id [simp]: "f\<lparr>Channel := Channel f\<rparr> = f"
  by simp

lemma frame_ok_Channel [simp]: "frame_ok (f\<lparr>Channel := c\<rparr>) = frame_ok f"
  by (simp add: frame_ok_def)

context io_writer
begin

lemma ProxyClientToUpstream_content:
  assumes "UpstreamWriter fp = Some w" "ProxyClientToUpstream Write fp f = (None, fp')"
  shows "\<exists>w'. fp' = fp\<lparr>UpstreamWriter := Some w'\<rparr> \<and>
    content w' = content w @ frame_bytes (case ChannelMapping (ClientConn fp) (Channel f) of
      Some u \<Rightarrow> f\<lparr>Channel := u\<rparr> | None \<Rightarrow> f)"
  using assms by (auto simp: ProxyClientToUpstream_def Let_def dest: WriteFrame_ok split: prod.splits)

lemma ProxyUpstreamToClient_content:
  assumes "ClientWriter fp = Some w" "ProxyUpstreamToClient Write fp f = (None, fp')"
  shows "\<exists>w'. fp' = fp\<lparr>ClientWriter := Some w'\<rparr> \<and>
    content w' = content w @
      (if Channel f = 0 then frame_bytes f
       else case ReverseMapping (ClientConn fp) (Channel f) of
         Some c \<Rightarrow> frame_bytes (f\<lparr>Channel := c\<rparr>) | None \<Rightarrow> [])"
  using assms
  by (auto simp: ProxyUpstreamToClient_def dest: WriteFrame_ok split: prod.splits option.splits if_splits
      intro: exI [of _ w])

end

section \<open>Properties\<close>

text \<open>Round trip through the proxy: a frame the client sends on a mapped channel reaches the
  upstream with the upstream channel number, and a frame of the same contents that the upstream
  answers on that number reaches the client on the channel it used.\<close>

theorem FrameProxy_roundtrip:
  assumes "maps_ok (ClientConn fp)" and "ChannelMapping (ClientConn fp) (Channel f) = Some u" and "u \<noteq> 0"
    and "UpstreamWriter fp = Some wu" and "ClientWriter fp = Some wc"
    and "ProxyClientToUpstream bufio_Write fp f = (None, fp1)"
    and "ProxyUpstreamToClient bufio_Write fp1 (f\<lparr>Channel := u\<rparr>) = (None, fp2)"
  shows "\<exists>wu' wc'. UpstreamWriter fp2 = Some wu' \<and> accepted wu' = accepted wu @ frame_bytes (f\<lparr>Channel := u\<rparr>) \<and>
    ClientWriter fp2 = Some wc' \<and> accepted wc' = accepted wc @ frame_bytes f"
proof -
  from buffered.ProxyClientToUpstream_content [OF assms(4,6)] assms(2) obtain wu' where
    1: "fp1 = fp\<lparr>UpstreamWriter := Some wu'\<rparr>" "accepted wu' = accepted wu @ frame_bytes (f\<lparr>Channel := u\<rparr>)"
    by auto
  from 1(1) assms(5) have "ClientWriter fp1 = Some wc" by simp
  from buffered.ProxyUpstreamToClient_content [OF this assms(7)] 1(1) assms(3)
    client_maps.roundtrip [OF assms(1,2)] obtain wc' where
    2: "fp2 = fp1\<lparr>ClientWriter := Some wc'\<rparr>" "accepted wc' = accepted wc @ frame_bytes f"
    by auto
  from 1 2 show ?thesis by simp
qed

theorem FrameProxy_roundtrip_witness:
  "let cc = MapChannel (NewClientConnection new_conn \<lparr>rdata = [], rend = EOF\<rparr>) 1 42;
       fp = NewFrameProxy cc (Some (NewWriter new_conn)) (Some (NewWriter new_conn));
       f = \<lparr>Type = 3, Channel = 1, Payload = [65]\<rparr>;
       fp1 = snd (ProxyClientToUpstream bufio_Write fp f);
       fp2 = snd (ProxyUpstreamToClient bufio_Write fp1 (f\<lparr>Channel := 42\<rparr>))
   in \<exists>wu' wc'. UpstreamWriter fp2 = Some wu' \<and> accepted wu' = frame_bytes (f\<lparr>Channel := 42\<rparr>) \<and>
        ClientWriter fp2 = Some wc' \<and> accepted wc' = frame_bytes f"
proof -
  define cc where "cc = MapChannel (NewClientConnection new_conn \<lparr>rdata = [], rend = EOF\<rparr>) 1 42"
  define fp where "fp = NewFrameProxy cc (Some (NewWriter new_conn)) (Some (NewWriter new_conn))"
  define f where "f = \<lparr>Type = 3, Channel = 1, Payload = [65]\<rparr>"
  have cc: "maps_ok cc" unfolding cc_def
    by (rule maps_ok_MapChannel) (simp_all add: maps_ok_new, simp_all add: NewClientConnection_def)
  have m: "ChannelMapping cc 1 = Some 42" "ReverseMapping cc 42 = Some 1"
    by (simp_all add: cc_def map_simps)
  have live: "live_bufio (NewWriter new_conn)"
    by (simp add: live_bufio_def live_conn_def NewWriter_def new_conn_def)
  have ok: "frame_ok (f\<lparr>Channel := c\<rparr>)" for c by (simp add: f_def frame_ok_def MaxFrameSize_def)
  obtain w1 where w1: "WriteFrame bufio_Write (NewWriter new_conn) (f\<lparr>Channel := 42\<rparr>) = (None, w1)"
    using live_buffered.WriteFrame_live [OF live ok] by blast
  obtain w2 where w2: "WriteFrame bufio_Write (NewWriter new_conn) (f\<lparr>Channel := 1\<rparr>) = (None, w2)"
    using live_buffered.WriteFrame_live [OF live ok] by blast
  have s1: "ProxyClientToUpstream bufio_Write fp f = (None, fp\<lparr>UpstreamWriter := Some w1\<rparr>)"
    using w1 m by (simp add: ProxyClientToUpstream_def fp_def NewFrameProxy_def f_def)
  have s2: "ProxyUpstreamToClient bufio_Write (fp\<lparr>UpstreamWriter := Some w1\<rparr>) (f\<lparr>Channel := 42\<rparr>) =
      (None, fp\<lparr>UpstreamWriter := Some w1, ClientWriter := Some w2\<rparr>)"
    using w2 m by (simp add: ProxyUpstreamToClient_def fp_def NewFrameProxy_def f_def)
  from FrameProxy_roundtrip [OF _ _ _ _ _ s1 s2, of "NewWriter new_conn" "NewWriter new_conn"] cc m
  show ?thesis unfolding cc_def [symmetric] Let_def fp_def [symmetric] f_def [symmetric]
    by (simp add: s1 s2) (simp add: fp_def NewFrameProxy_def f_def accepted_def NewWriter_def new_conn_def)
qed

text \<open>Upstream to client on every branch: with no client writer nothing happens; a frame on
  channel 0 is passed on unchanged; a frame on a channel this client has not mapped is dropped
  without touching the writer; no other state changes.\<close>

theorem ProxyUpstreamToClient_branches:
  "(ClientWriter fp = None \<longrightarrow> ProxyUpstreamToClient Wr fp f = (None, fp)) \<and>
   (Channel f \<noteq> 0 \<and> ReverseMapping (ClientConn fp) (Channel f) = None \<longrightarrow>
      ProxyUpstreamToClient Wr fp f = (None, fp)) \<and>
   (ClientWriter fp = Some w \<and> Channel f = 0 \<longrightarrow>
      ProxyUpstreamToClient Wr fp f =
        (fst (WriteFrame Wr w f), fp\<lparr>ClientWriter := Some (snd (WriteFrame Wr w f))\<rparr>)) \<and>
   ClientConn (snd (ProxyUpstreamToClient Wr fp f)) = ClientConn fp \<and>
   UpstreamWriter (snd (ProxyUpstreamToClient Wr fp f)) = UpstreamWriter fp"
  by (auto simp: ProxyUpstreamToClient_def split: option.splits prod.splits if_splits)

theorem ProxyUpstreamToClient_branches_witness:
  "ProxyUpstreamToClient bufio_Write
     (NewFrameProxy (NewClientConnection new_conn \<lparr>rdata = [], rend = EOF\<rparr>) None (Some (NewWriter new_conn)))
     \<lparr>Type = 3, Channel = 9, Payload = [65]\<rparr> =
   (None, NewFrameProxy (NewClientConnection new_conn \<lparr>rdata = [], rend = EOF\<rparr>) None (Some (NewWriter new_conn)))"
  using ProxyUpstreamToClient_branches [of "NewFrameProxy (NewClientConnection new_conn
      \<lparr>rdata = [], rend = EOF\<rparr>) None (Some (NewWriter new_conn))" bufio_Write
      "\<lparr>Type = 3, Channel = 9, Payload = [65]\<rparr>" "NewWriter new_conn"]
  by (simp add: NewFrameProxy_def NewClientConnection_def)

end
