(* ===== verification/Channel_Scan.thy ===== *)
theory Channel_Scan
  imports Prelude
begin

text \<open>
  The two search loops of \<open>AllocateChannel\<close> (\<open>proxy/managed_upstream.go\<close>) over \<open>uint16\<close> channel
  numbers, at their width. The first loop, \<open>for id := hint; id <= max; id++\<close>, compares with
  \<open>\<le>\<close>: when \<open>max\<close> is 65535 the comparison is always true, \<open>id++\<close> wraps to 0, and the loop ends
  only by finding a free number. It is therefore a partial function, and whether it returns is
  part of what is proved. The second loop, \<open>for id := 1; id < hint; id++\<close>, always ends.
\<close>

partial_function (option) scan_up :: "(u16 \<Rightarrow> bool) \<Rightarrow> u16 \<Rightarrow> u16 \<Rightarrow> u16 option option" where
  "scan_up free i mx =
     (if i \<le> mx then (if free i then Some (Some i) else scan_up free (i + 1) mx)
      else Some None)"

function scan_below :: "(u16 \<Rightarrow> bool) \<Rightarrow> u16 \<Rightarrow> u16 \<Rightarrow> u16 option" where
  "scan_below free i hint =
     (if i < hint then (if free i then Some i else scan_below free (i + 1) hint) else None)"
  by pat_completeness auto
termination
proof (relation "measure (\<lambda>(free, i, hint). unat hint - unat i)", goal_cases)
  case (2 free i hint)
  then have "unat i < unat hint" by (simp add: word_less_nat_alt)
  moreover from 2 have "unat (i + 1) = unat i + 1"
    by unat_arith
  ultimately show ?case by simp
qed simp

declare scan_below.simps [simp del]

section \<open>Distances on the ring of channel numbers\<close>

lemma dist_pred:
  assumes "(j :: u16) \<noteq> i"
  shows "unat (j - (i + 1)) = unat (j - i) - 1"
proof -
  from assms have "unat (j - i - 1) = unat (j - i) - 1" by (metis right_minus_eq unat_minus_one)
  then show ?thesis by (simp add: diff_diff_eq)
qed

lemma dist_between:
  assumes "(s :: u16) \<le> j" and "unat (k - s) \<le> unat (j - s)"
  shows "s \<le> k \<and> k \<le> j"
proof -
  have d: "unat (j - s) = unat j - unat s" using assms(1) by (rule unat_sub)
  have "unat s \<le> unat j" using assms(1) by (simp add: word_le_nat_alt)
  with assms(2) d have sum: "unat s + unat (k - s) \<le> unat j" by simp
  then have "unat s + unat (k - s) < 2 ^ LENGTH(16)"
    using unsigned_less [of j, where ?'a = nat] by simp
  then have "unat (s + (k - s)) = unat s + unat (k - s)" by (simp only: unat_add_lem)
  with sum show ?thesis by (simp add: word_le_nat_alt)
qed

lemma wrap_distance:
  assumes "k < s" "unat (k - s) \<le> unat (0 - s)"
  shows "k = (0 :: u16)"
proof -
  have k: "unat k < unat s" using assms(1) by (simp add: word_less_nat_alt)
  then have "unat (k - s) = unat k + 65536 - unat s" "unat (0 - s) = 65536 - unat s"
    by (simp_all only: unat_sub_if_size word_size) simp_all
  moreover have "unat s < 65536" using unsigned_less [of s, where ?'a = nat] by simp
  ultimately have "unat k = 0" using assms(2) k by simp
  then show ?thesis by (simp add: unat_eq_zero)
qed
section \<open>The first loop\<close>

text \<open>
  A free number that lies ahead, or anywhere on the ring when the bound is 65535, is found, and
  what is returned is the first free number in the order the loop visits them.
\<close>

lemma scan_up_found:
  assumes "free j" "mx = - 1 \<or> (s \<le> j \<and> j \<le> mx)"
  shows "\<exists>k. scan_up free s mx = Some (Some k) \<and> free k \<and> unat (k - s) \<le> unat (j - s) \<and>
    (\<forall>i. unat (i - s) < unat (k - s) \<longrightarrow> \<not> free i)"
  using assms
proof (induction "unat (j - s)" arbitrary: s)
  case 0
  then have "j = s" by (simp add: unat_eq_zero)
  with 0 have "scan_up free s mx = Some (Some s)" by (auto simp: scan_up.simps)
  with \<open>j = s\<close> 0 show ?case by auto
next
  case (Suc n)
  have le: "s \<le> mx" using Suc.prems(2) by auto
  show ?case
  proof (cases "free s")
    case True
    then have "scan_up free s mx = Some (Some s)" using le by (auto simp: scan_up.simps)
    with True show ?thesis by auto
  next
    case False
    then have ne: "j \<noteq> s" using Suc.prems by auto
    have n: "n = unat (j - (s + 1))" using dist_pred [OF ne] Suc.hyps(2) by simp
    have "mx = - 1 \<or> (s + 1 \<le> j \<and> j \<le> mx)" using Suc.prems(2) ne by (auto simp: inc_le)
    from Suc.hyps(1) [OF n Suc.prems(1) this] obtain k where
      k: "scan_up free (s + 1) mx = Some (Some k)" "free k" "unat (k - (s + 1)) \<le> unat (j - (s + 1))"
      "\<And>i. unat (i - (s + 1)) < unat (k - (s + 1)) \<Longrightarrow> \<not> free i" by blast
    from k(2) False have kne: "k \<noteq> s" by auto
    have "scan_up free s mx = Some (Some k)" using le False k(1) by (subst scan_up.simps) simp
    moreover have "unat (k - s) \<le> unat (j - s)"
      using k(3) dist_pred [OF ne] dist_pred [OF kne] Suc.hyps(2) by linarith
    moreover have "\<not> free i" if "unat (i - s) < unat (k - s)" for i
    proof (cases "i = s")
      case True
      with False show ?thesis by simp
    next
      case ine: False
      have "0 < unat (i - s)" using ine by (simp add: unat_gt_0)
      with that have "unat (i - (s + 1)) < unat (k - (s + 1))"
        using dist_pred [OF ine] dist_pred [OF kne] by linarith
      then show ?thesis by (rule k(4))
    qed
    ultimately show ?thesis using k(2) by blast
  qed
qed

lemma scan_up_none:
  assumes "mx \<noteq> - 1" "\<And>i. s \<le> i \<Longrightarrow> i \<le> mx \<Longrightarrow> \<not> free i"
  shows "scan_up free s mx = Some None"
proof (cases "s \<le> mx")
  case False
  then show ?thesis by (simp add: scan_up.simps)
next
  case True
  then show ?thesis using assms
  proof (induction "unat (mx - s)" arbitrary: s)
    case 0
    then have "s = mx" by (simp add: unat_eq_zero)
    moreover have "\<not> mx + 1 \<le> mx" using 0(3) by (simp add: inc_less_eq_self_iff_eq)
    ultimately show ?case using 0(4) [of mx] by (simp add: scan_up.simps [of free mx] scan_up.simps [of free "mx + 1"])
  next
    case (Suc n)
    then have ne: "mx \<noteq> s" by auto
    with Suc.prems(1) have "s + 1 \<le> mx" by (simp add: inc_le)
    moreover have "n = unat (mx - (s + 1))" using dist_pred [OF ne] Suc.hyps(2) by simp
    moreover have "\<not> free i" if "s + 1 \<le> i" "i \<le> mx" for i
    proof -
      have "s \<noteq> - 1" using Suc.prems(1) ne by (metis order_antisym word_order.extremum)
      with that(1) have "s \<le> i" by (simp add: inc_less_eq_iff)
      with that(2) Suc.prems(3) show ?thesis by blast
    qed
    ultimately have "scan_up free (s + 1) mx = Some None"
      using Suc.hyps(1) Suc.prems(2) by blast
    with Suc.prems(1,3) show ?case by (subst scan_up.simps) auto
  qed
qed

text \<open>With the bound 65535 and every number taken, 0 included, the loop does not return.\<close>

lemma scan_up_returns:
  assumes "scan_up free s mx = Some r"
  shows "(\<exists>k. r = Some k \<and> free k \<and> k \<le> mx \<and> (mx \<noteq> - 1 \<longrightarrow> s \<le> k)) \<or> r = None \<and> mx \<noteq> - 1"
proof (rule scan_up.raw_induct [where P = "\<lambda>free s mx r.
    (\<exists>k. r = Some k \<and> free k \<and> k \<le> mx \<and> (mx \<noteq> - 1 \<longrightarrow> s \<le> k)) \<or> r = None \<and> mx \<noteq> - 1", OF _ assms])
  fix f :: "(u16 \<Rightarrow> bool) \<Rightarrow> u16 \<Rightarrow> u16 \<Rightarrow> u16 option option" and free s mx r
  assume IH: "\<And>free s mx r. f free s mx = Some r \<Longrightarrow>
      (\<exists>k. r = Some k \<and> free k \<and> k \<le> mx \<and> (mx \<noteq> - 1 \<longrightarrow> s \<le> k)) \<or> r = None \<and> mx \<noteq> - 1"
    and eq: "(if s \<le> mx then if free s then Some (Some s) else f free (s + 1) mx else Some None) = Some r"
  have "s \<le> k" if "s \<le> mx" "mx \<noteq> - 1" "s + 1 \<le> k" for k
  proof -
    from that(1,2) have "s \<noteq> - 1" by (metis order_antisym word_order.extremum)
    with that(3) show ?thesis by (simp add: inc_less_eq_iff)
  qed
  with eq show "(\<exists>k. r = Some k \<and> free k \<and> k \<le> mx \<and> (mx \<noteq> - 1 \<longrightarrow> s \<le> k)) \<or> r = None \<and> mx \<noteq> - 1"
    using IH [of free "s + 1" mx r] by (auto split: if_splits)
qed

lemma scan_up_diverges: "(\<And>i. \<not> free i) \<Longrightarrow> scan_up free s (- 1) = None"
  using scan_up_returns [of free s "- 1"] by (cases "scan_up free s (- 1)") auto

section \<open>The second loop\<close>

lemma scan_below_Some:
  "scan_below free i hint = Some k \<Longrightarrow> free k \<and> i \<le> k \<and> k < hint"
proof (induction free i hint rule: scan_below.induct)
  case (1 free i hint)
  show ?case
  proof (cases "i < hint \<and> \<not> free i")
    case True
    with 1 have "free k \<and> i + 1 \<le> k \<and> k < hint" by (simp add: scan_below.simps [of free i hint])
    moreover have "i \<noteq> - 1" using True by auto
    ultimately show ?thesis by (auto simp: inc_less_eq_iff)
  next
    case False
    with "1.prems" show ?thesis by (auto simp: scan_below.simps [of free i hint] split: if_splits)
  qed
qed

lemma scan_below_None:
  "scan_below free i hint = None \<Longrightarrow> i \<le> k \<Longrightarrow> k < hint \<Longrightarrow> \<not> free k"
proof (induction free i hint rule: scan_below.induct)
  case (1 free i hint)
  from 1(3,4) have lt: "i < hint" by (rule order_le_less_trans)
  with "1.prems"(1) have nf: "\<not> free i" "scan_below free (i + 1) hint = None"
    by (auto simp: scan_below.simps [of free i hint] split: if_splits)
  show ?case
  proof (cases "k = i")
    case True
    with nf show ?thesis by simp
  next
    case False
    with "1.prems"(2) have "i + 1 \<le> k" by (simp add: inc_le)
    with "1.IH" [OF lt nf] "1.prems"(3) show ?thesis by blast
  qed
qed

lemma scan_below_first:
  "scan_below free i hint = Some k \<Longrightarrow> i \<le> j \<Longrightarrow> j < k \<Longrightarrow> \<not> free j"
proof (induction free i hint rule: scan_below.induct)
  case (1 free i hint)
  show ?case
  proof (cases "i < hint \<and> \<not> free i")
    case True
    with "1.prems"(1) have "scan_below free (i + 1) hint = Some k" by (simp add: scan_below.simps [of free i hint])
    with 1 True show ?thesis by (cases "j = i") (auto simp: inc_le)
  next
    case False
    with "1.prems" show ?thesis by (auto simp: scan_below.simps [of free i hint] split: if_splits)
  qed
qed

lemma scan_up_first:
  assumes "scan_up free s mx = Some (Some k)" "mx \<noteq> - 1" "s \<le> i" "i < k"
  shows "\<not> free i"
proof
  assume "free i"
  have "k \<le> mx" using scan_up_returns [OF assms(1)] by auto
  with assms(4) have "i \<le> mx" by simp
  from scan_up_found [of free i mx s] \<open>free i\<close> assms(1,3) \<open>i \<le> mx\<close>
  have "unat (k - s) \<le> unat (i - s)" by auto
  with dist_between [OF assms(3)] have "k \<le> i" by blast
  with assms(4) show False by simp
qed

lemma scan_up_exhausted:
  assumes "scan_up free s mx = Some None" "s \<le> i" "i \<le> mx"
  shows "\<not> free i"
  using scan_up_found [of free i mx s] assms by auto

section \<open>Both loops as searches in a list\<close>

lemma find_append: "find P (xs @ ys) = (case find P xs of Some x \<Rightarrow> Some x | None \<Rightarrow> find P ys)"
  by (induction xs) auto

lemma upt_word:
  assumes "(i :: u16) < j"
  shows "map of_nat [unat i..<unat j] = i # map of_nat [unat (i + 1)..<unat j]"
proof -
  have "unat i < unat j" using assms by (simp add: word_less_nat_alt)
  moreover have "unat (i + 1) = unat i + 1" using assms by unat_arith
  ultimately show ?thesis by (simp add: upt_conv_Cons)
qed

lemma scan_below_find: "scan_below free i hint = find free (map of_nat [unat i..<unat hint])"
proof (induction free i hint rule: scan_below.induct)
  case (1 free i hint)
  show ?case
  proof (cases "i < hint")
    case True
    with 1 show ?thesis by (simp add: scan_below.simps [of free i hint] upt_word)
  next
    case False
    then have "unat hint \<le> unat i" by (simp add: word_less_nat_alt)
    with False show ?thesis by (simp add: scan_below.simps [of free i hint])
  qed
qed

lemma scan_up_find:
  assumes "mx \<noteq> - 1"
  shows "scan_up free s mx = Some (find free (map of_nat [unat s..<unat mx + 1]))"
proof (induction "unat mx + 1 - unat s" arbitrary: s)
  case 0
  then have "\<not> s \<le> mx" by (simp add: word_le_nat_alt)
  with 0 show ?case by (subst scan_up.simps) simp
next
  case (Suc n)
  then have le: "s \<le> mx" by (simp add: word_le_nat_alt)
  then have "s \<noteq> - 1" using assms by (metis order_antisym word_order.extremum)
  then have "s + 1 \<noteq> 0" by (simp add: add_eq_0_iff2)
  then have u: "unat (s + 1) = unat s + 1" by unat_arith
  have "[unat s..<unat mx + 1] = unat s # [unat (s + 1)..<unat mx + 1]"
    using le unfolding u by (simp add: word_le_nat_alt upt_conv_Cons)
  moreover have "scan_up free (s + 1) mx = Some (find free (map of_nat [unat (s + 1)..<unat mx + 1]))"
    using Suc.hyps(2) u by (intro Suc.hyps(1)) simp
  ultimately show ?case using le by (subst scan_up.simps) simp
qed

section \<open>Counting channel numbers\<close>

lemma card_channel_numbers: "card {1..mx :: u16} = unat mx"
proof -
  have "unat ` {1..mx} = {1..unat mx}"
  proof (intro subset_antisym subsetI)
    fix n
    assume "n \<in> unat ` {1..mx}"
    then show "n \<in> {1..unat mx}" by (auto simp: word_le_nat_alt)
  next
    fix n
    assume n: "n \<in> {1..unat mx}"
    then have "n < 2 ^ LENGTH(16)" using unsigned_less [of mx, where ?'a = nat] by auto
    then have u: "unat (of_nat n :: u16) = n" by (simp add: unat_of_nat)
    with n have "(of_nat n :: u16) \<in> {1..mx}" by (simp add: word_le_nat_alt)
    with u show "n \<in> unat ` {1..mx}" by force
  qed
  moreover have "inj_on unat {1..mx}" by (rule inj_onI) (simp add: word_unat_eq_iff)
  ultimately show ?thesis using card_image [of unat "{1..mx}"] by simp
qed

end
