(* ===== verification/Upstream_Handshake.thy ===== *)
theory Upstream_Handshake
  imports Client_Connection
begin

text \<open>
  \<open>proxy/upstream.go\<close>: the client side of the AMQP handshake that the proxy performs on every
  connection it dials to the broker, and the connection object it yields.
\<close>

record UpstreamConn =
  uc_Reader :: reader
  uc_Writer :: bufio_writer

definition serializeConnectionTuneOk :: "byte list \<Rightarrow> byte list" where
  "serializeConnectionTuneOk tunePayload =
     (let header = method_header 10 31
      in if length tunePayload \<ge> 12 then header @ subslice tunePayload 4 12
         else header @ drop 4 serializeConnectionTunePayload)"

definition serializeConnectionOpen :: "string \<Rightarrow> byte list" where
  "serializeConnectionOpen vhost =
     method_header 10 40 @ serializeShortString vhost @ serializeShortString '''' @ [0]"

text \<open>Each of the three reads: a frame, its method header, the method that must come next.\<close>

definition expectMethod ::
    "string \<Rightarrow> string \<Rightarrow> u16 \<Rightarrow> u16 \<Rightarrow> UpstreamConn \<Rightarrow> Frame result \<times> UpstreamConn" where
  "expectMethod readMsg expMsg cls mth u =
     (case ParseFrame (uc_Reader u) of
        (Inl err, r) \<Rightarrow> (Inl (Wrapf readMsg [] err), u\<lparr>uc_Reader := r\<rparr>)
      | (Inr frame, r) \<Rightarrow>
          (case ParseMethodHeader (Payload frame) of
             Inl err \<Rightarrow> (Inl err, u\<lparr>uc_Reader := r\<rparr>)
           | Inr header \<Rightarrow>
               if ClassID header \<noteq> cls \<or> MethodID header \<noteq> mth
               then (Inl (Errorf expMsg [unat (ClassID header), unat (MethodID header)] []), u\<lparr>uc_Reader := r\<rparr>)
               else (Inr frame, u\<lparr>uc_Reader := r\<rparr>)))"

definition writeUp :: "string \<Rightarrow> Frame \<Rightarrow> UpstreamConn \<Rightarrow> go_error option \<times> UpstreamConn" where
  "writeUp msg f u =
     (case WriteFrame bufio_Write (uc_Writer u) f of
        (Some err, w) \<Rightarrow> (Some (Wrapf msg [] err), u\<lparr>uc_Writer := w\<rparr>)
      | (None, w) \<Rightarrow> (None, u\<lparr>uc_Writer := w\<rparr>))"

definition flushUp :: "UpstreamConn \<Rightarrow> go_error option \<times> UpstreamConn" where
  "flushUp u = (case Flush (uc_Writer u) of (err, w) \<Rightarrow> (err, u\<lparr>uc_Writer := w\<rparr>))"

text \<open>
  \<open>performUpstreamHandshake\<close> on a dialled connection \<open>conn\<close> whose peer sends \<open>inp\<close>: an error, or
  nothing when the handshake succeeded, and the reader and writer as they are afterwards (the
  returned \<open>UpstreamConn\<close> when it succeeded).
\<close>

definition performUpstreamHandshake ::
    "net_conn \<Rightarrow> reader \<Rightarrow> string \<Rightarrow> string \<Rightarrow> string \<Rightarrow> go_error option \<times> UpstreamConn" where
  "performUpstreamHandshake conn inp username password vhost =
     (let u = \<lparr>uc_Reader = inp, uc_Writer = NewWriter conn\<rparr>
      in case bufio_Write (uc_Writer u) ProtocolHeader of
        (Some err, w) \<Rightarrow> (Some (Wrapf ''failed to send protocol header: %w'' [] err), u\<lparr>uc_Writer := w\<rparr>)
      | (None, w) \<Rightarrow>
     (case flushUp (u\<lparr>uc_Writer := w\<rparr>) of
        (Some err, u) \<Rightarrow> (Some err, u)
      | (None, u) \<Rightarrow>
     (case expectMethod ''failed to read Connection.Start: %w''
             ''expected Connection.Start (10,10), got (%d,%d)'' 10 10 u of
        (Inl err, u) \<Rightarrow> (Some err, u)
      | (Inr frame, u) \<Rightarrow>
     (case writeUp ''failed to send Connection.StartOk: %w''
             (method_frame (serializeConnectionStartOk ''PLAIN''
                (serializeConnectionStartOkResponse username password))) u of
        (Some err, u) \<Rightarrow> (Some err, u)
      | (None, u) \<Rightarrow>
     (case flushUp u of
        (Some err, u) \<Rightarrow> (Some err, u)
      | (None, u) \<Rightarrow>
     (case expectMethod ''failed to read Connection.Tune: %w''
             ''expected Connection.Tune (10,30), got (%d,%d)'' 10 30 u of
        (Inl err, u) \<Rightarrow> (Some err, u)
      | (Inr frame, u) \<Rightarrow>
     (case writeUp ''failed to send Connection.TuneOk: %w''
             (method_frame (serializeConnectionTuneOk (Payload frame))) u of
        (Some err, u) \<Rightarrow> (Some err, u)
      | (None, u) \<Rightarrow>
     (case writeUp ''failed to send Connection.Open: %w''
             (method_frame (serializeConnectionOpen vhost)) u of
        (Some err, u) \<Rightarrow> (Some err, u)
      | (None, u) \<Rightarrow>
     (case flushUp u of
        (Some err, u) \<Rightarrow> (Some err, u)
      | (None, u) \<Rightarrow>
     (case expectMethod ''failed to read Connection.OpenOK: %w''
             ''expected Connection.OpenOK (10,41), got (%d,%d)'' 10 41 u of
        (Inl err, u) \<Rightarrow> (Some err, u)
      | (Inr frame, u) \<Rightarrow> (None, u)))))))))))"

section \<open>Lemmas\<close>

lemma expectMethod_ok:
  "expectMethod m1 m2 cls mth u = (Inr f, u') \<longleftrightarrow>
     (\<exists>r. ParseFrame (uc_Reader u) = (Inr f, r) \<and> u' = u\<lparr>uc_Reader := r\<rparr> \<and>
          ParseMethodHeader (Payload f) = Inr \<lparr>ClassID = cls, MethodID = mth\<rparr>)"
  by (auto simp: expectMethod_def split: prod.splits sum.splits if_splits)

lemma writeUp_ok:
  "writeUp msg f u = (None, u') \<Longrightarrow>
   \<exists>w. u' = u\<lparr>uc_Writer := w\<rparr> \<and> frame_ok f \<and> accepted w = accepted (uc_Writer u) @ frame_bytes f"
  using buffered.WriteFrame_ok by (auto simp: writeUp_def split: prod.splits option.splits)

lemma flushUp_ok:
  "flushUp u = (None, u') \<Longrightarrow>
   \<exists>w. u' = u\<lparr>uc_Writer := w\<rparr> \<and> buf w = [] \<and> sent (wr w) = accepted (uc_Writer u) \<and>
       accepted w = accepted (uc_Writer u)"
  using Flush_ok by (fastforce simp: flushUp_def accepted_def split: prod.splits)

lemma parse_serializeConnectionOpen:
  assumes "length vhost < 256"
  shows "ParseConnectionOpen (serializeConnectionOpen vhost) = Inr vhost"
proof -
  have "ParseMethodHeader (serializeConnectionOpen vhost) = Inr \<lparr>ClassID = 10, MethodID = 40\<rparr>"
    unfolding serializeConnectionOpen_def by (rule ParseMethodHeader_Serialize)
  moreover have "drop 4 (serializeConnectionOpen vhost) =
      serializeShortString vhost @ serializeShortString '''' @ [0]"
    by (simp add: serializeConnectionOpen_def)
  moreover have "length (serializeConnectionOpen vhost) \<ge> 5" by (simp add: serializeConnectionOpen_def)
  ultimately show ?thesis
    using assms by (simp add: ParseConnectionOpen_def)
qed

lemma serializeConnectionTuneOk_header:
  "\<exists>body. serializeConnectionTuneOk p = method_header 10 31 @ body \<and> length body = 8"
  by (simp add: serializeConnectionTuneOk_def Let_def subslice_def serializeConnectionTunePayload_def)

text \<open>What a client of the broker says, given the broker's \<open>Tune\<close> payload.\<close>

definition client_script :: "string \<Rightarrow> string \<Rightarrow> string \<Rightarrow> byte list \<Rightarrow> Frame list" where
  "client_script username password vhost tune =
     [method_frame (serializeConnectionStartOk ''PLAIN'' (serializeConnectionStartOkResponse username password)),
      method_frame (serializeConnectionTuneOk tune), method_frame (serializeConnectionOpen vhost)]"

lemma handshake_steps:
  assumes "performUpstreamHandshake conn inp username password vhost = (None, u)"
  obtains w u1 f1 u2 u3 u4 f2 u5 u6 u7 u8 f3 where
    "bufio_Write (NewWriter conn) ProtocolHeader = (None, w)"
    "flushUp \<lparr>uc_Reader = inp, uc_Writer = w\<rparr> = (None, u1)"
    "expectMethod ''failed to read Connection.Start: %w''
       ''expected Connection.Start (10,10), got (%d,%d)'' 10 10 u1 = (Inr f1, u2)"
    "writeUp ''failed to send Connection.StartOk: %w'' (method_frame (serializeConnectionStartOk ''PLAIN''
       (serializeConnectionStartOkResponse username password))) u2 = (None, u3)"
    "flushUp u3 = (None, u4)"
    "expectMethod ''failed to read Connection.Tune: %w''
       ''expected Connection.Tune (10,30), got (%d,%d)'' 10 30 u4 = (Inr f2, u5)"
    "writeUp ''failed to send Connection.TuneOk: %w''
       (method_frame (serializeConnectionTuneOk (Payload f2))) u5 = (None, u6)"
    "writeUp ''failed to send Connection.Open: %w'' (method_frame (serializeConnectionOpen vhost)) u6 = (None, u7)"
    "flushUp u7 = (None, u8)"
    "expectMethod ''failed to read Connection.OpenOK: %w''
       ''expected Connection.OpenOK (10,41), got (%d,%d)'' 10 41 u8 = (Inr f3, u)"
  using assms unfolding performUpstreamHandshake_def
  by (auto simp: Let_def split: prod.splits option.splits sum.splits)

lemma handshake_effects:
  assumes "performUpstreamHandshake conn inp username password vhost = (None, u)"
  shows "\<exists>f1 f2 f3.
    rdata inp = frame_bytes f1 @ frame_bytes f2 @ frame_bytes f3 @ rdata (uc_Reader u) \<and>
    ParseMethodHeader (Payload f1) = Inr \<lparr>ClassID = 10, MethodID = 10\<rparr> \<and>
    ParseMethodHeader (Payload f2) = Inr \<lparr>ClassID = 10, MethodID = 30\<rparr> \<and>
    ParseMethodHeader (Payload f3) = Inr \<lparr>ClassID = 10, MethodID = 41\<rparr> \<and>
    sent (wr (uc_Writer u)) = sent conn @ ProtocolHeader @
      concat (map frame_bytes (client_script username password vhost (Payload f2)))"
proof -
  from assms obtain w u1 f1 u2 u3 u4 f2 u5 u6 u7 u8 f3 where
    w: "bufio_Write (NewWriter conn) ProtocolHeader = (None, w)" and
    run: "flushUp \<lparr>uc_Reader = inp, uc_Writer = w\<rparr> = (None, u1)"
    "expectMethod ''failed to read Connection.Start: %w''
       ''expected Connection.Start (10,10), got (%d,%d)'' 10 10 u1 = (Inr f1, u2)"
    "writeUp ''failed to send Connection.StartOk: %w'' (method_frame (serializeConnectionStartOk ''PLAIN''
       (serializeConnectionStartOkResponse username password))) u2 = (None, u3)"
    "flushUp u3 = (None, u4)"
    "expectMethod ''failed to read Connection.Tune: %w''
       ''expected Connection.Tune (10,30), got (%d,%d)'' 10 30 u4 = (Inr f2, u5)"
    "writeUp ''failed to send Connection.TuneOk: %w''
       (method_frame (serializeConnectionTuneOk (Payload f2))) u5 = (None, u6)"
    "writeUp ''failed to send Connection.Open: %w'' (method_frame (serializeConnectionOpen vhost)) u6 = (None, u7)"
    "flushUp u7 = (None, u8)"
    "expectMethod ''failed to read Connection.OpenOK: %w''
       ''expected Connection.OpenOK (10,41), got (%d,%d)'' 10 41 u8 = (Inr f3, u)"
    by (rule handshake_steps)
  have "accepted w = sent conn @ ProtocolHeader"
    using buffered.Write_ok [OF w] by (simp add: accepted_def NewWriter_def)
  with run show ?thesis
    by (intro exI [of _ f1] exI [of _ f2] exI [of _ f3])
       (auto dest!: flushUp_ok writeUp_ok simp: expectMethod_ok ParseFrame_ok_iff client_script_def)
qed

text \<open>The run of the handshake against a well-behaved broker.\<close>

lemma writeUp_live:
  "live_bufio (uc_Writer u) \<Longrightarrow> frame_ok f \<Longrightarrow>
   \<exists>w. writeUp msg f u = (None, u\<lparr>uc_Writer := w\<rparr>) \<and> live_bufio w"
  using live_buffered.WriteFrame_live [of "uc_Writer u" f] by (auto simp: writeUp_def)

lemma flushUp_live:
  "live_bufio (uc_Writer u) \<Longrightarrow> \<exists>w. flushUp u = (None, u\<lparr>uc_Writer := w\<rparr>) \<and> live_bufio w"
  using Flush_live [of "uc_Writer u"] by (auto simp: flushUp_def)

lemma expectMethod_frame:
  "frame_ok f \<Longrightarrow> ParseMethodHeader (Payload f) = Inr \<lparr>ClassID = c, MethodID = m\<rparr> \<Longrightarrow>
   expectMethod m1 m2 c m \<lparr>uc_Reader = \<lparr>rdata = frame_bytes f @ rest, rend = e\<rparr>, uc_Writer = w\<rparr> =
     (Inr f, \<lparr>uc_Reader = \<lparr>rdata = rest, rend = e\<rparr>, uc_Writer = w\<rparr>)"
  by (simp add: expectMethod_def wire_simps)

lemma server_script_headers:
  "ParseMethodHeader serializeConnectionStart = Inr \<lparr>ClassID = 10, MethodID = 10\<rparr>"
  "ParseMethodHeader serializeConnectionTunePayload = Inr \<lparr>ClassID = 10, MethodID = 30\<rparr>"
  "ParseMethodHeader serializeConnectionOpenOK = Inr \<lparr>ClassID = 10, MethodID = 41\<rparr>"
  unfolding serializeConnectionStart_def serializeConnectionTunePayload_def serializeConnectionOpenOK_def
  by (rule ParseMethodHeader_Serialize)+

lemma handshake_run:
  assumes live: "live_conn conn" and ok: "list_all frame_ok (client_script username password vhost
    serializeConnectionTunePayload)"
  shows "\<exists>w. performUpstreamHandshake conn \<lparr>rdata = concat (map frame_bytes server_script) @ rest, rend = e\<rparr>
    username password vhost = (None, \<lparr>uc_Reader = \<lparr>rdata = rest, rend = e\<rparr>, uc_Writer = w\<rparr>)"
proof -
  define u where "u bs w = \<lparr>uc_Reader = \<lparr>rdata = bs, rend = e\<rparr>, uc_Writer = w\<rparr>" for bs w
  define b2 where "b2 = frame_bytes (method_frame serializeConnectionOpenOK) @ rest"
  define b1 where "b1 = frame_bytes (method_frame serializeConnectionTunePayload) @ b2"
  define b0 where "b0 = frame_bytes (method_frame serializeConnectionStart) @ b1"
  from ok have oks: "frame_ok (method_frame (serializeConnectionStartOk ''PLAIN''
      (serializeConnectionStartOkResponse username password)))"
    "frame_ok (method_frame (serializeConnectionTuneOk serializeConnectionTunePayload))"
    "frame_ok (method_frame (serializeConnectionOpen vhost))"
    by (simp_all add: client_script_def)
  have wu: "\<exists>w'. writeUp m f (u bs w) = (None, u bs w') \<and> live_bufio w'" if "live_bufio w" "frame_ok f" for m f bs w
    using writeUp_live [of "u bs w" f m] that by (simp add: u_def)
  have fu: "\<exists>w'. flushUp (u bs w) = (None, u bs w') \<and> live_bufio w'" if "live_bufio w" for bs w
    using flushUp_live [of "u bs w"] that by (simp add: u_def)
  have em: "expectMethod m1 m2 10 10 (u b0 w) = (Inr (method_frame serializeConnectionStart), u b1 w)"
    "expectMethod m1 m2 10 30 (u b1 w) = (Inr (method_frame serializeConnectionTunePayload), u b2 w)"
    "expectMethod m1 m2 10 41 (u b2 w) = (Inr (method_frame serializeConnectionOpenOK), u rest w)" for m1 m2 w
    by (simp_all add: u_def b0_def b1_def b2_def expectMethod_frame server_script_headers)
  have "live_bufio (NewWriter conn)" using live by (simp add: live_bufio_def NewWriter_def)
  then obtain w0 where w0: "bufio_Write (NewWriter conn) ProtocolHeader = (None, w0)" "live_bufio w0"
    using live_buffered.Write_live by blast
  obtain w1 where w1: "flushUp (u b0 w0) = (None, u b0 w1)" "live_bufio w1" using fu [OF w0(2)] by blast
  obtain w2 where w2: "writeUp ''failed to send Connection.StartOk: %w'' (method_frame (serializeConnectionStartOk ''PLAIN''
      (serializeConnectionStartOkResponse username password))) (u b1 w1) = (None, u b1 w2)" "live_bufio w2"
    using wu [OF w1(2) oks(1)] by blast
  obtain w3 where w3: "flushUp (u b1 w2) = (None, u b1 w3)" "live_bufio w3" using fu [OF w2(2)] by blast
  obtain w4 where w4: "writeUp ''failed to send Connection.TuneOk: %w''
      (method_frame (serializeConnectionTuneOk serializeConnectionTunePayload)) (u b2 w3) = (None, u b2 w4)" "live_bufio w4"
    using wu [OF w3(2) oks(2)] by blast
  obtain w5 where w5: "writeUp ''failed to send Connection.Open: %w''
      (method_frame (serializeConnectionOpen vhost)) (u b2 w4) = (None, u b2 w5)" "live_bufio w5"
    using wu [OF w4(2) oks(3)] by blast
  obtain w6 where w6: "flushUp (u b2 w5) = (None, u b2 w6)" using fu [OF w5(2)] by blast
  have inp: "concat (map frame_bytes server_script) @ rest = b0"
    by (simp add: server_script_def b0_def b1_def b2_def)
  have "\<lparr>uc_Reader = \<lparr>rdata = b0, rend = e\<rparr>, uc_Writer = w\<rparr> = u b0 w"
    "uc_Writer (u b0 w) = w" "(u b0 w)\<lparr>uc_Writer := w'\<rparr> = u b0 w'" for w w' by (simp_all add: u_def)
  then have "performUpstreamHandshake conn \<lparr>rdata = b0, rend = e\<rparr> username password vhost = (None, u rest w6)"
    using w0(1) w1(1) w2(1) w3(1) w4(1) w5(1) w6
    by (simp add: performUpstreamHandshake_def em Let_def)
  then show ?thesis by (auto simp: inp u_def)
qed

text \<open>What the proxy says as a client of the broker is accepted by its own server side.\<close>

lemma client_script_ok:
  assumes "length username + length password \<le> 1000000" "length vhost < 256"
  shows "list_all frame_ok (client_script username password vhost tune)"
proof -
  obtain body where "serializeConnectionTuneOk tune = method_header 10 31 @ body" "length body = 8"
    using serializeConnectionTuneOk_header by blast
  with assms show ?thesis
    by (simp add: client_script_def frame_ok_def MaxFrameSize_def serializeConnectionStartOk_def
        serializeConnectionStartOkResponse_def serializeConnectionOpen_def)
qed

lemma Handle_client_script:
  assumes "0 \<notin> set (bytes_of username)" "0 \<notin> set (bytes_of password)"
    and "length username + length password \<le> 1000000" "length vhost < 256" "live_bufio (Writer cc)"
    and "rdata (Reader cc) = concat (map frame_bytes (client_script username password vhost tune)) @ rest"
  shows "\<exists>cc'. Handle cc = (None, cc') \<and> cc_Username cc' = username \<and> cc_Password cc' = password \<and>
    cc_Vhost cc' = vhost \<and> rdata (Reader cc') = rest"
proof -
  obtain body where tune: "serializeConnectionTuneOk tune = method_header 10 31 @ body" "length body = 8"
    using serializeConnectionTuneOk_header by blast
  note ok = client_script_ok [OF assms(3,4), of tune, unfolded client_script_def]
  have "\<exists>w. Handle cc = (None, cc\<lparr>Reader := \<lparr>rdata = rest, rend = rend (Reader cc)\<rparr>, Writer := w,
      cc_Username := username, cc_Password := password, cc_Vhost := vhost\<rparr>)"
    using Handle_run [OF assms(5) _ ok, of rest "\<lparr>Username = username, Password = password\<rparr>" vhost]
      assms(3,4,6) StartOk_plain [OF assms(1,2)] parse_serializeConnectionOpen tune(1)
    by (simp add: client_script_def)
  then show ?thesis by auto
qed

section \<open>Properties\<close>

text \<open>(C25) The upstream handshake is sound: when it succeeds, the broker sent \<open>Start\<close>, \<open>Tune\<close> and
  \<open>OpenOk\<close> and nothing of the rest of its stream was consumed; the proxy sent the protocol header,
  \<open>StartOk\<close> with the given credentials, \<open>TuneOk\<close> and \<open>Open\<close> with the given virtual host, all
  flushed, in that order.\<close>

theorem performUpstreamHandshake_sound:
  assumes "performUpstreamHandshake conn inp username password vhost = (None, u)"
  shows "\<exists>f1 f2 f3.
    rdata inp = frame_bytes f1 @ frame_bytes f2 @ frame_bytes f3 @ rdata (uc_Reader u) \<and>
    ParseMethodHeader (Payload f1) = Inr \<lparr>ClassID = 10, MethodID = 10\<rparr> \<and>
    ParseMethodHeader (Payload f2) = Inr \<lparr>ClassID = 10, MethodID = 30\<rparr> \<and>
    ParseMethodHeader (Payload f3) = Inr \<lparr>ClassID = 10, MethodID = 41\<rparr> \<and>
    sent (wr (uc_Writer u)) = sent conn @ ProtocolHeader @
      concat (map frame_bytes (client_script username password vhost (Payload f2)))"
  using assms by (rule handshake_effects)

theorem performUpstreamHandshake_sound_witness:
  "\<exists>u tune. performUpstreamHandshake new_conn \<lparr>rdata = concat (map frame_bytes server_script), rend = EOF\<rparr>
      ''u'' ''p'' ''/'' = (None, u) \<and>
    sent (wr (uc_Writer u)) = ProtocolHeader @
      concat (map frame_bytes (client_script ''u'' ''p'' ''/'' tune))"
proof -
  obtain u where u: "performUpstreamHandshake new_conn
      \<lparr>rdata = concat (map frame_bytes server_script), rend = EOF\<rparr> ''u'' ''p'' ''/'' = (None, u)"
    using handshake_run [of new_conn "''u''" "''p''" "''/''" "[]" EOF]
    by (auto simp: live_conn_def new_conn_def client_script_def frame_ok_def MaxFrameSize_def
        serializeConnectionStartOk_def serializeConnectionStartOkResponse_def serializeConnectionOpen_def
        serializeConnectionTuneOk_def serializeConnectionTunePayload_def subslice_def)
  from performUpstreamHandshake_sound [OF u] obtain tune where
    "sent (wr (uc_Writer u)) = sent new_conn @ ProtocolHeader @
      concat (map frame_bytes (client_script ''u'' ''p'' ''/'' tune))" by blast
  moreover have "sent new_conn = []" by (simp add: new_conn_def)
  ultimately show ?thesis using u by auto
qed



end
