(* ===== verification/Managed_Upstream.thy ===== *)
theory Managed_Upstream
  imports Channel_Scan Upstream_Handshake
begin

text \<open>
  \<open>proxy/managed_upstream.go\<close>, the shared state: a \<open>ManagedUpstream\<close> owns one connection to the
  broker, used by many clients, and the table of its channel numbers. This theory has the
  state, the channel table operations (\<open>AllocateChannel\<close>, \<open>ReleaseChannel\<close>, the two scheduling
  operations, the release on \<open>Channel.CloseOk\<close>), the list of clients with the idle clock, and
  the abstract slot machine they implement. The loops are in \<open>Read_Loop\<close> and \<open>Reconnect\<close>.

  Conventions. A client is its identity, a \<open>nat\<close> (the pointer that Go compares), and so is a
  connection to the broker (an address in a store of connections) and a \<open>done\<close> channel. A Go
  \<open>map[uint16]bool\<close> that only ever holds \<open>true\<close> is a set. Times and durations are \<open>int\<close>
  nanoseconds, the zero \<open>time.Time\<close> is \<open>None\<close>, and the current time is a parameter. Log calls
  have no effect on the state.
\<close>

section \<open>State\<close>

record channelEntry =
  owner :: nat
  clientChanID :: u16

record ManagedUpstream =
  mu_username :: string
  mu_password :: string
  mu_vhost :: string
  maxChannels :: u16
  reconnectBase :: int
  conn :: "nat option"
  usedChannels :: "u16 set"
  channelOwners :: "u16 \<rightharpoonup> channelEntry"
  pendingClose :: "u16 set"
  nextHint :: u16
  clients :: "nat list"
  lastEmptyTime :: "int option"
  writeCh :: "Frame list"
  writeDone :: nat
  doneClosed :: "nat set"
  stopped :: bool
  reconnecting :: bool
  reconnectTotal :: int

text \<open>The literal of \<open>getOrCreateManagedUpstream\<close>, before \<open>Start\<close>.\<close>

definition newManagedUpstream :: "string \<Rightarrow> string \<Rightarrow> string \<Rightarrow> u16 \<Rightarrow> ManagedUpstream" where
  "newManagedUpstream username password vhost mx =
     \<lparr>mu_username = username, mu_password = password, mu_vhost = vhost, maxChannels = mx,
      reconnectBase = 0, conn = None, usedChannels = {}, channelOwners = Map.empty,
      pendingClose = {}, nextHint = 1, clients = [], lastEmptyTime = None, writeCh = [],
      writeDone = 0, doneClosed = {}, stopped = False, reconnecting = False, reconnectTotal = 0\<rparr>"

section \<open>Channel table\<close>

text \<open>The four statements both search loops run on the number they found.\<close>

definition claimChannel :: "ManagedUpstream \<Rightarrow> u16 \<Rightarrow> u16 \<Rightarrow> nat \<Rightarrow> ManagedUpstream" where
  "claimChannel m i chan cw =
     m\<lparr>usedChannels := insert i (usedChannels m),
       channelOwners := (channelOwners m)(i \<mapsto> \<lparr>owner = cw, clientChanID = chan\<rparr>),
       nextHint := (if i + 1 = 0 then 1 else i + 1)\<rparr>"

text \<open>
  \<open>AllocateChannel\<close> tests the atomic \<open>reconnecting\<close> first and then runs the search under the
  lock; the two parts are separate because other goroutines may act in between.
\<close>

definition allocateLocked ::
    "ManagedUpstream \<Rightarrow> u16 \<Rightarrow> nat \<Rightarrow> (u16 result \<times> ManagedUpstream) option" where
  "allocateLocked m chan cw =
     (let m = (if nextHint m = 0 then m\<lparr>nextHint := 1\<rparr> else m);
          free = (\<lambda>i. i \<notin> usedChannels m \<and> i \<notin> pendingClose m)
      in case scan_up free (nextHint m) (maxChannels m) of
           None \<Rightarrow> None
         | Some (Some i) \<Rightarrow> Some (Inr i, claimChannel m i chan cw)
         | Some None \<Rightarrow>
             (case scan_below free 1 (nextHint m) of
                Some i \<Rightarrow> Some (Inr i, claimChannel m i chan cw)
              | None \<Rightarrow> Some (Inl (New ''no free upstream channel available''), m)))"

definition AllocateChannel ::
    "ManagedUpstream \<Rightarrow> u16 \<Rightarrow> nat \<Rightarrow> (u16 result \<times> ManagedUpstream) option" where
  "AllocateChannel m chan cw =
     (if reconnecting m then Some (Inl (New ''upstream reconnecting''), m)
      else allocateLocked m chan cw)"

definition ReleaseChannel :: "ManagedUpstream \<Rightarrow> u16 \<Rightarrow> ManagedUpstream" where
  "ReleaseChannel m u =
     m\<lparr>usedChannels := usedChannels m - {u},
       channelOwners := (channelOwners m)(u := None),
       nextHint := (if u < nextHint m then u else nextHint m)\<rparr>"

definition ScheduleChannelClose :: "ManagedUpstream \<Rightarrow> u16 \<Rightarrow> ManagedUpstream" where
  "ScheduleChannelClose m u =
     m\<lparr>pendingClose := insert u (pendingClose m), channelOwners := (channelOwners m)(u := None)\<rparr>"

definition ScheduleChannelCloseIfOwnedBy :: "ManagedUpstream \<Rightarrow> u16 \<Rightarrow> nat \<Rightarrow> bool \<times> ManagedUpstream" where
  "ScheduleChannelCloseIfOwnedBy m u cw =
     (case channelOwners m u of
        Some entry \<Rightarrow>
          if owner entry = cw
          then (True, m\<lparr>pendingClose := insert u (pendingClose m),
                       channelOwners := (channelOwners m)(u := None)\<rparr>)
          else (False, m)
      | None \<Rightarrow> (False, m))"

text \<open>
  The locked section of \<open>readLoop\<close> for a \<open>Channel.CloseOk\<close> on channel \<open>u\<close>: a close the proxy
  started frees the slot and yields nothing; otherwise the entry of the owner, if any, is
  removed and handed to the delivery that follows.
\<close>

definition closeOkReceived :: "ManagedUpstream \<Rightarrow> u16 \<Rightarrow> channelEntry option \<times> ManagedUpstream" where
  "closeOkReceived m u =
     (if u \<in> pendingClose m
      then (None, m\<lparr>pendingClose := pendingClose m - {u}, usedChannels := usedChannels m - {u}\<rparr>)
      else case channelOwners m u of
        Some entry \<Rightarrow>
          (Some entry, m\<lparr>channelOwners := (channelOwners m)(u := None),
                        usedChannels := usedChannels m - {u}\<rparr>)
      | None \<Rightarrow> (None, m))"

definition HasCapacity :: "ManagedUpstream \<Rightarrow> bool" where
  "HasCapacity m =
     (if reconnecting m then False else (of_nat (card (usedChannels m)) :: u16) < maxChannels m)"

section \<open>Clients and the idle clock\<close>

definition Register :: "ManagedUpstream \<Rightarrow> nat \<Rightarrow> ManagedUpstream" where
  "Register m cw = m\<lparr>clients := clients m @ [cw], lastEmptyTime := None\<rparr>"

definition Deregister :: "ManagedUpstream \<Rightarrow> nat \<Rightarrow> int \<Rightarrow> ManagedUpstream" where
  "Deregister m cw now =
     (let found = cw \<in> set (clients m);
          m = m\<lparr>clients := remove1 cw (clients m)\<rparr>
      in if found \<and> length (clients m) = 0 then m\<lparr>lastEmptyTime := Some now\<rparr> else m)"

definition AbortAllClients ::
    "ManagedUpstream \<Rightarrow> (nat \<Rightarrow> ClientConnection) \<Rightarrow> (nat \<Rightarrow> ClientConnection)" where
  "AbortAllClients m cs = foldl (\<lambda>cs cw. cs(cw := Abort (cs cw))) cs (clients m)"

definition stopWritePump :: "ManagedUpstream \<Rightarrow> ManagedUpstream" where
  "stopWritePump m =
     (if writeDone m \<in> doneClosed m then m else m\<lparr>doneClosed := insert (writeDone m) (doneClosed m)\<rparr>)"

text \<open>Closing a connection of the store.\<close>

definition closeUpstream :: "(nat \<Rightarrow> UpstreamConn) \<Rightarrow> nat option \<Rightarrow> (nat \<Rightarrow> UpstreamConn)" where
  "closeUpstream h c =
     (case c of
        None \<Rightarrow> h
      | Some a \<Rightarrow> h(a := (h a)\<lparr>uc_Writer := (uc_Writer (h a))\<lparr>wr := Conn_Close (wr (uc_Writer (h a)))\<rparr>\<rparr>))"

definition markStoppedIfIdle ::
    "ManagedUpstream \<Rightarrow> (nat \<Rightarrow> UpstreamConn) \<Rightarrow> int \<Rightarrow> int \<Rightarrow> bool \<times> ManagedUpstream \<times> (nat \<Rightarrow> UpstreamConn)" where
  "markStoppedIfIdle m h timeout now =
     (case lastEmptyTime m of
        None \<Rightarrow> (False, m, h)
      | Some t \<Rightarrow>
          if clients m \<noteq> [] \<or> usedChannels m \<noteq> {} then (False, m, h)
          else if now - t < timeout then (False, m, h)
          else let m1 = stopWritePump (m\<lparr>stopped := True\<rparr>)
               in (True, m1\<lparr>conn := None\<rparr>, closeUpstream h (conn m1)))"

section \<open>The abstract slot table\<close>

text \<open>
  A channel number is free, held by a channel of a client, or closing (the proxy asked the
  broker to close it and waits for \<open>CloseOk\<close>).
\<close>

datatype slot = Free | Owned nat u16 | Closing

definition slot_of :: "ManagedUpstream \<Rightarrow> u16 \<Rightarrow> slot" where
  "slot_of m u =
     (case channelOwners m u of
        Some e \<Rightarrow> Owned (owner e) (clientChanID e)
      | None \<Rightarrow> if u \<in> pendingClose m then Closing else Free)"

text \<open>The permitted moves of one slot.\<close>

inductive slot_next :: "slot \<Rightarrow> slot \<Rightarrow> bool" where
  stay: "slot_next s s"
| open_slot: "slot_next Free (Owned cw c)"
| close_slot: "slot_next (Owned cw c) Closing"
| closed_by_client: "slot_next (Owned cw c) Free"
| closed_by_proxy: "slot_next Closing Free"

inductive_simps slot_next_iff: "slot_next s t"
inductive_cases slot_next_to_Owned: "slot_next s (Owned cw c)"

text \<open>
  The accounting invariant: a number is in use exactly when a client owns it or it is closing,
  never both. The bound: numbers in use lie between 1 and the limit, and the
  search starts at most one above it.
\<close>

definition slots_ok :: "ManagedUpstream \<Rightarrow> bool" where
  "slots_ok m \<longleftrightarrow>
     usedChannels m = dom (channelOwners m) \<union> pendingClose m \<and>
     dom (channelOwners m) \<inter> pendingClose m = {}"

definition chans_bounded :: "ManagedUpstream \<Rightarrow> bool" where
  "chans_bounded m \<longleftrightarrow>
     (\<forall>u \<in> usedChannels m. 1 \<le> u \<and> u \<le> maxChannels m) \<and>
     unat (nextHint m) \<le> unat (maxChannels m) + 1"

lemma slot_of_Free: "slots_ok m \<Longrightarrow> slot_of m u = Free \<longleftrightarrow> u \<notin> usedChannels m"
  by (auto simp: slots_ok_def slot_of_def split: option.splits)

lemma slot_of_Closing: "slots_ok m \<Longrightarrow> slot_of m u = Closing \<longleftrightarrow> u \<in> pendingClose m"
  by (auto simp: slots_ok_def slot_of_def split: option.splits)

lemma slot_of_Owned: "slot_of m u = Owned cw c \<longleftrightarrow> channelOwners m u = Some \<lparr>owner = cw, clientChanID = c\<rparr>"
  by (auto simp: slot_of_def split: option.splits)

lemma owned_used: "slots_ok m \<Longrightarrow> slot_of m u = Owned cw c \<Longrightarrow> u \<in> usedChannels m"
  by (auto simp: slots_ok_def slot_of_Owned)

section \<open>Effect of the operations on the slots\<close>

text \<open>Allocation, from the point of view of its caller.\<close>

definition hint_of :: "ManagedUpstream \<Rightarrow> u16" where
  "hint_of m = (if nextHint m = 0 then 1 else nextHint m)"

definition free_chan :: "ManagedUpstream \<Rightarrow> u16 \<Rightarrow> bool" where
  "free_chan m i \<longleftrightarrow> i \<notin> usedChannels m \<and> i \<notin> pendingClose m"

text \<open>The order in which the two loops visit the numbers.\<close>

definition search_order :: "ManagedUpstream \<Rightarrow> u16 list" where
  "search_order m = map of_nat ([unat (hint_of m)..<unat (maxChannels m) + 1] @ [1..<unat (hint_of m)])"

lemma hint_ge_1: "1 \<le> hint_of m"
  by (simp add: hint_of_def) (metis inc_le word_gt_0 add_0)

lemma claimChannel_nextHint [simp]: "claimChannel (m\<lparr>nextHint := n\<rparr>) i c cw = claimChannel m i c cw"
  by (simp add: claimChannel_def)

lemma allocateLocked_scan:
  "allocateLocked m c cw =
    (case scan_up (free_chan m) (hint_of m) (maxChannels m) of
       None \<Rightarrow> None
     | Some (Some i) \<Rightarrow> Some (Inr i, claimChannel m i c cw)
     | Some None \<Rightarrow>
         (case scan_below (free_chan m) 1 (hint_of m) of
            Some i \<Rightarrow> Some (Inr i, claimChannel m i c cw)
          | None \<Rightarrow> Some (Inl (New ''no free upstream channel available''), m\<lparr>nextHint := hint_of m\<rparr>)))"
proof -
  have "free_chan m = (\<lambda>i. i \<notin> usedChannels m \<and> i \<notin> pendingClose m)"
    by (rule ext) (simp add: free_chan_def)
  then show ?thesis
    by (simp add: allocateLocked_def Let_def hint_of_def split: option.splits)
qed

lemma allocateLocked_Inr:
  assumes "allocateLocked m c cw = Some (Inr u, m')"
  shows "free_chan m u \<and> m' = claimChannel m u c cw"
    and "maxChannels m \<noteq> - 1 \<Longrightarrow> chans_bounded m \<Longrightarrow> 1 \<le> u \<and> u \<le> maxChannels m"
proof -
  from assms consider
      (up) "scan_up (free_chan m) (hint_of m) (maxChannels m) = Some (Some u)" "m' = claimChannel m u c cw"
    | (below) "scan_below (free_chan m) 1 (hint_of m) = Some u" "m' = claimChannel m u c cw"
    by (auto simp: allocateLocked_scan split: option.splits)
  then have "free_chan m u \<and> m' = claimChannel m u c cw \<and>
    (maxChannels m \<noteq> - 1 \<longrightarrow> chans_bounded m \<longrightarrow> 1 \<le> u \<and> u \<le> maxChannels m)"
  proof cases
    case up
    with scan_up_returns [OF up(1)] hint_ge_1 [of m] show ?thesis by (auto intro: order_trans)
  next
    case below
    from scan_below_Some [OF below(1)] have u: "free_chan m u" "1 \<le> u" "u < hint_of m" by auto
    have "u \<le> maxChannels m" if "chans_bounded m"
    proof -
      from u(2,3) have "nextHint m \<noteq> 0" by (auto simp: hint_of_def)
      with u(3) have "unat u < unat (nextHint m)" by (simp add: hint_of_def word_less_nat_alt)
      with that show ?thesis by (simp add: chans_bounded_def word_le_nat_alt)
    qed
    with u below(2) show ?thesis by blast
  qed
  then show "free_chan m u \<and> m' = claimChannel m u c cw"
    and "maxChannels m \<noteq> - 1 \<Longrightarrow> chans_bounded m \<Longrightarrow> 1 \<le> u \<and> u \<le> maxChannels m"
    by auto
qed

text \<open>Below the largest \<open>uint16\<close> the search always returns, and it fails only when nothing is free.\<close>

lemma allocateLocked_succeeds:
  assumes "maxChannels m \<noteq> - 1" "free_chan m j" "1 \<le> j" "j \<le> maxChannels m"
  shows "\<exists>u. allocateLocked m c cw = Some (Inr u, claimChannel m u c cw)"
proof (cases "\<exists>i. hint_of m \<le> i \<and> i \<le> maxChannels m \<and> free_chan m i")
  case True
  then obtain i where "free_chan m i" "hint_of m \<le> i" "i \<le> maxChannels m" by blast
  with scan_up_found [of "free_chan m" i "maxChannels m" "hint_of m"] show ?thesis
    by (auto simp: allocateLocked_scan)
next
  case False
  then have up: "scan_up (free_chan m) (hint_of m) (maxChannels m) = Some None"
    using assms(1) by (intro scan_up_none) auto
  from False assms(2,4) have "j < hint_of m" by (metis linorder_not_le)
  with scan_below_None [of "free_chan m" 1 "hint_of m" j] assms(2,3) obtain u where
    "scan_below (free_chan m) 1 (hint_of m) = Some u" by (cases "scan_below (free_chan m) 1 (hint_of m)") auto
  with up show ?thesis by (auto simp: allocateLocked_scan)
qed

lemma allocateLocked_full:
  assumes "maxChannels m \<noteq> - 1" "chans_bounded m"
    "\<And>j. 1 \<le> j \<Longrightarrow> j \<le> maxChannels m \<Longrightarrow> \<not> free_chan m j"
  shows "allocateLocked m c cw =
    Some (Inl (New ''no free upstream channel available''), m\<lparr>nextHint := hint_of m\<rparr>)"
proof -
  have "scan_up (free_chan m) (hint_of m) (maxChannels m) = Some None"
    using assms(1,3) hint_ge_1 [of m] by (intro scan_up_none) (auto intro: order_trans)
  moreover have "scan_below (free_chan m) 1 (hint_of m) = None"
  proof (cases "scan_below (free_chan m) 1 (hint_of m)")
    case (Some u)
    have "allocateLocked m c cw = Some (Inr u, claimChannel m u c cw)"
      using Some calculation by (simp add: allocateLocked_scan)
    from allocateLocked_Inr [OF this] assms show ?thesis by blast
  qed
  ultimately show ?thesis by (simp add: allocateLocked_scan)
qed

lemma allocateLocked_Inl:
  assumes "allocateLocked m c cw = Some (Inl e, m')"
  shows "m' = m \<or> m' = m\<lparr>nextHint := 1\<rparr>"
  using assms by (auto simp: allocateLocked_def Let_def split: option.splits if_splits)

lemma slot_of_claim [slot_simps]:
  "slot_of (claimChannel m u c cw) = (slot_of m)(u := Owned cw c)"
  by (rule ext) (simp add: slot_of_def claimChannel_def)

lemma slot_of_nextHint [slot_simps]: "slot_of (m\<lparr>nextHint := n\<rparr>) = slot_of m"
  by (rule ext) (simp add: slot_of_def)

lemma slot_of_schedule [slot_simps]:
  "slot_of (ScheduleChannelClose m u) = (slot_of m)(u := Closing)"
  by (rule ext) (simp add: slot_of_def ScheduleChannelClose_def)

lemma ScheduleChannelCloseIfOwnedBy_slots [slot_simps]:
  "ScheduleChannelCloseIfOwnedBy m u cw =
     (if \<exists>c. slot_of m u = Owned cw c then (True, ScheduleChannelClose m u) else (False, m))"
  by (auto simp: ScheduleChannelCloseIfOwnedBy_def ScheduleChannelClose_def slot_of_def split: option.splits)

lemma slot_of_release [slot_simps]:
  "u \<notin> pendingClose m \<Longrightarrow> slot_of (ReleaseChannel m u) = (slot_of m)(u := Free)"
  by (rule ext) (simp add: slot_of_def ReleaseChannel_def)

lemma closing_no_owner: "slots_ok m \<Longrightarrow> u \<in> pendingClose m \<Longrightarrow> channelOwners m u = None"
  by (auto simp: slots_ok_def)

lemma slot_of_closeOk [slot_simps]:
  assumes "slots_ok m"
  shows "slot_of (snd (closeOkReceived m u)) = (slot_of m)(u := Free)"
proof (rule ext)
  fix x
  show "slot_of (snd (closeOkReceived m u)) x = ((slot_of m)(u := Free)) x"
    using closing_no_owner [OF assms, of u]
    by (cases "u \<in> pendingClose m"; cases "channelOwners m u")
       (simp_all add: slot_of_def closeOkReceived_def)
qed

lemma fst_closeOk [slot_simps]:
  "slots_ok m \<Longrightarrow> fst (closeOkReceived m u) =
     (case slot_of m u of Owned cw c \<Rightarrow> Some \<lparr>owner = cw, clientChanID = c\<rparr> | _ \<Rightarrow> None)"
  using closing_no_owner [of m u]
  by (cases "u \<in> pendingClose m"; cases "channelOwners m u")
     (simp_all add: slot_of_def closeOkReceived_def)

section \<open>Preservation of the accounting invariant\<close>

lemma slots_ok_new: "slots_ok (newManagedUpstream u p v mx)"
  by (simp add: slots_ok_def newManagedUpstream_def)

lemma slots_ok_nextHint [simp]: "slots_ok (m\<lparr>nextHint := n\<rparr>) = slots_ok m"
  by (simp add: slots_ok_def)

lemma slots_ok_claim: "slots_ok m \<Longrightarrow> u \<notin> usedChannels m \<Longrightarrow> slots_ok (claimChannel m u c cw)"
  by (auto simp: slots_ok_def claimChannel_def)

lemma slots_ok_allocate: "slots_ok m \<Longrightarrow> allocateLocked m c cw = Some (r, m') \<Longrightarrow> slots_ok m'"
  using allocateLocked_Inr(1) [of m c cw _ m'] allocateLocked_Inl [of m c cw _ m']
  by (cases r) (auto simp: slots_ok_claim free_chan_def)

lemma slots_ok_release: "slots_ok m \<Longrightarrow> u \<notin> pendingClose m \<Longrightarrow> slots_ok (ReleaseChannel m u)"
  by (auto simp: slots_ok_def ReleaseChannel_def)

lemma slots_ok_schedule: "slots_ok m \<Longrightarrow> u \<in> usedChannels m \<Longrightarrow> slots_ok (ScheduleChannelClose m u)"
  by (auto simp: slots_ok_def ScheduleChannelClose_def)

lemma slots_ok_schedule_owned: "slots_ok m \<Longrightarrow> slots_ok (snd (ScheduleChannelCloseIfOwnedBy m u cw))"
  by (auto simp: slots_ok_def ScheduleChannelCloseIfOwnedBy_def split: option.splits)

lemma slots_ok_closeOk: "slots_ok m \<Longrightarrow> slots_ok (snd (closeOkReceived m u))"
  by (auto simp: slots_ok_def closeOkReceived_def split: option.splits)

lemma slots_ok_clients [simp]:
  "slots_ok (Register m cw) = slots_ok m" "slots_ok (Deregister m cw now) = slots_ok m"
  "slots_ok (stopWritePump m) = slots_ok m"
  by (auto simp: slots_ok_def Register_def Deregister_def stopWritePump_def Let_def)

lemma slot_of_clients [simp]:
  "slot_of (Register m cw) = slot_of m" "slot_of (Deregister m cw now) = slot_of m"
  "slot_of (stopWritePump m) = slot_of m"
  by (auto simp: slot_of_def Register_def Deregister_def stopWritePump_def Let_def)

text \<open>Updates of fields that the slots do not depend on, and the fields that a search leaves alone.\<close>

lemma slot_of_misc [simp]:
  "slot_of (m\<lparr>reconnecting := b\<rparr>) = slot_of m" "slot_of (m\<lparr>reconnectTotal := t\<rparr>) = slot_of m"
  "slot_of (m\<lparr>writeDone := d\<rparr>) = slot_of m" "slot_of (m\<lparr>doneClosed := D\<rparr>) = slot_of m"
  "slot_of (m\<lparr>stopped := b\<rparr>) = slot_of m" "slot_of (m\<lparr>conn := c\<rparr>) = slot_of m"
  by (auto simp: slot_of_def fun_eq_iff)

lemma slots_ok_misc [simp]:
  "slots_ok (m\<lparr>reconnecting := b\<rparr>) = slots_ok m" "slots_ok (m\<lparr>reconnectTotal := t\<rparr>) = slots_ok m"
  "slots_ok (m\<lparr>writeDone := d\<rparr>) = slots_ok m" "slots_ok (m\<lparr>doneClosed := D\<rparr>) = slots_ok m"
  "slots_ok (m\<lparr>stopped := b\<rparr>) = slots_ok m" "slots_ok (m\<lparr>conn := c\<rparr>) = slots_ok m"
  by (simp_all add: slots_ok_def)

lemma allocateLocked_frame:
  assumes "allocateLocked m c x = Some (r, m')"
  shows "reconnecting m' = reconnecting m" "writeDone m' = writeDone m" "doneClosed m' = doneClosed m"
    "stopped m' = stopped m" "maxChannels m' = maxChannels m" "writeCh m' = writeCh m" "clients m' = clients m"
proof -
  have "m' = m \<or> m' = m\<lparr>nextHint := 1\<rparr> \<or> (\<exists>u. m' = claimChannel m u c x)"
    using allocateLocked_Inl [of m c x _ m'] allocateLocked_Inr(1) [of m c x _ m'] assms by (cases r) auto
  then show "reconnecting m' = reconnecting m" "writeDone m' = writeDone m" "doneClosed m' = doneClosed m"
    "stopped m' = stopped m" "maxChannels m' = maxChannels m" "writeCh m' = writeCh m" "clients m' = clients m"
    by (auto simp: claimChannel_def)
qed

lemma closeOk_frame [simp]:
  "reconnecting (snd (closeOkReceived m u)) = reconnecting m"
  "writeDone (snd (closeOkReceived m u)) = writeDone m" "doneClosed (snd (closeOkReceived m u)) = doneClosed m"
  "stopped (snd (closeOkReceived m u)) = stopped m" "maxChannels (snd (closeOkReceived m u)) = maxChannels m"
  "writeCh (snd (closeOkReceived m u)) = writeCh m" "conn (snd (closeOkReceived m u)) = conn m"
  by (simp_all add: closeOkReceived_def split: option.splits)

section \<open>Bounds and capacity\<close>

lemma chans_bounded_new: "chans_bounded (newManagedUpstream u p v mx)"
  by (simp add: chans_bounded_def newManagedUpstream_def)

lemma chans_bounded_claim:
  assumes "chans_bounded m" "1 \<le> u" "u \<le> maxChannels m" "maxChannels m \<noteq> - 1"
  shows "chans_bounded (claimChannel m u c cw)"
proof -
  have "u \<noteq> - 1" using assms(3,4) by (metis order_antisym word_order.extremum)
  then have "u + 1 \<noteq> 0" by (simp add: add_eq_0_iff2)
  then have "unat (u + 1) = unat u + 1" by unat_arith
  with assms \<open>u + 1 \<noteq> 0\<close> show ?thesis by (auto simp: chans_bounded_def claimChannel_def word_le_nat_alt)
qed

lemma chans_bounded_allocate:
  assumes "chans_bounded m" "maxChannels m \<noteq> - 1" "allocateLocked m c cw = Some (r, m')"
  shows "chans_bounded m'"
proof (cases r)
  case (Inl e)
  with allocateLocked_Inl [of m c cw e m'] assms show ?thesis by (auto simp: chans_bounded_def)
next
  case (Inr u)
  with allocateLocked_Inr [of m c cw u m'] assms chans_bounded_claim show ?thesis by auto
qed

lemma chans_bounded_release: "chans_bounded m \<Longrightarrow> chans_bounded (ReleaseChannel m u)"
  by (auto simp: chans_bounded_def ReleaseChannel_def word_less_nat_alt)

lemma chans_bounded_schedule_owned:
  "chans_bounded (snd (ScheduleChannelCloseIfOwnedBy m u cw)) = chans_bounded m"
  by (auto simp: chans_bounded_def ScheduleChannelCloseIfOwnedBy_def split: option.splits)

lemma chans_bounded_closeOk: "chans_bounded m \<Longrightarrow> chans_bounded (snd (closeOkReceived m u))"
  by (auto simp: chans_bounded_def closeOkReceived_def split: option.splits)

lemma free_chan_slot: "slots_ok m \<Longrightarrow> free_chan m u \<longleftrightarrow> slot_of m u = Free"
  by (auto simp: free_chan_def slot_of_Free slots_ok_def)

text \<open>The count that \<open>HasCapacity\<close> compares says whether some number is free.\<close>

lemma HasCapacity_iff_free:
  assumes "chans_bounded m" "maxChannels m \<noteq> - 1"
  shows "HasCapacity m \<longleftrightarrow> \<not> reconnecting m \<and> (\<exists>j. 1 \<le> j \<and> j \<le> maxChannels m \<and> j \<notin> usedChannels m)"
proof -
  have sub: "usedChannels m \<subseteq> {1..maxChannels m}" using assms(1) by (auto simp: chans_bounded_def)
  have le: "card (usedChannels m) \<le> unat (maxChannels m)"
    using card_mono [OF _ sub] by (simp add: card_channel_numbers)
  then have "unat (of_nat (card (usedChannels m)) :: u16) = card (usedChannels m)"
    using unsigned_less [of "maxChannels m", where ?'a = nat] by (simp add: unat_of_nat)
  then have "(of_nat (card (usedChannels m)) :: u16) < maxChannels m \<longleftrightarrow>
      card (usedChannels m) < card {1..maxChannels m}"
    by (simp add: word_less_nat_alt card_channel_numbers)
  also have "\<dots> \<longleftrightarrow> usedChannels m \<noteq> {1..maxChannels m}"
    using sub card_subset_eq [OF _ sub] psubset_card_mono [of "{1..maxChannels m}" "usedChannels m"] by auto
  also have "\<dots> \<longleftrightarrow> (\<exists>j. 1 \<le> j \<and> j \<le> maxChannels m \<and> j \<notin> usedChannels m)"
    using sub by auto
  finally show ?thesis by (simp add: HasCapacity_def)
qed

section \<open>The contract of a slot table\<close>

text \<open>
  What the rest of the proxy relies on: allocation takes a free slot for the caller, scheduling
  acts for the owner only, and a \<open>CloseOk\<close> frees the slot and names the owner it had.
\<close>

locale slot_table =
  fixes slot :: "'s \<Rightarrow> u16 \<Rightarrow> slot"
    and inv :: "'s \<Rightarrow> bool"
    and alloc :: "'s \<Rightarrow> u16 \<Rightarrow> nat \<Rightarrow> (u16 result \<times> 's) option"
    and sched :: "'s \<Rightarrow> u16 \<Rightarrow> nat \<Rightarrow> bool \<times> 's"
    and closed :: "'s \<Rightarrow> u16 \<Rightarrow> channelEntry option \<times> 's"
  assumes alloc_Inr: "inv s \<Longrightarrow> alloc s c cw = Some (Inr u, s') \<Longrightarrow>
      inv s' \<and> slot s u = Free \<and> slot s' = (slot s)(u := Owned cw c)"
    and alloc_Inl: "inv s \<Longrightarrow> alloc s c cw = Some (Inl e, s') \<Longrightarrow> inv s' \<and> slot s' = slot s"
    and sched_inv: "inv s \<Longrightarrow> inv (snd (sched s u cw))"
    and sched_slot: "inv s \<Longrightarrow> slot (snd (sched s u cw)) =
      (if \<exists>c. slot s u = Owned cw c then (slot s)(u := Closing) else slot s)"
    and sched_result: "inv s \<Longrightarrow> fst (sched s u cw) \<longleftrightarrow> (\<exists>c. slot s u = Owned cw c)"
    and closed_inv: "inv s \<Longrightarrow> inv (snd (closed s u))"
    and closed_slot: "inv s \<Longrightarrow> slot (snd (closed s u)) = (slot s)(u := Free)"
    and closed_entry: "inv s \<Longrightarrow> fst (closed s u) =
      (case slot s u of Owned cw c \<Rightarrow> Some \<lparr>owner = cw, clientChanID = c\<rparr> | _ \<Rightarrow> None)"
begin

lemma alloc_next: "inv s \<Longrightarrow> alloc s c cw = Some (r, s') \<Longrightarrow> slot_next (slot s u) (slot s' u)"
  using alloc_Inr [of s c cw _ s'] alloc_Inl [of s c cw _ s']
  by (cases r) (auto simp: slot_next_iff)

lemma sched_next: "inv s \<Longrightarrow> slot_next (slot s v) (slot (snd (sched s u cw)) v)"
  by (auto simp: sched_slot slot_next_iff)

lemma closed_next: "inv s \<Longrightarrow> slot_next (slot s v) (slot (snd (closed s u)) v)"
  by (cases "slot s u") (auto simp: closed_slot slot_next_iff)

lemma alloc_keeps:
  "inv s \<Longrightarrow> alloc s c cw = Some (r, s') \<Longrightarrow> slot s u \<noteq> Free \<Longrightarrow> r \<noteq> Inr u \<and> slot s' u = slot s u"
  using alloc_Inr [of s c cw _ s'] alloc_Inl [of s c cw _ s'] by (cases r) auto

lemma sched_keeps: "inv s \<Longrightarrow> slot s v = Owned cw c \<Longrightarrow> cw' \<noteq> cw \<Longrightarrow> slot (snd (sched s u cw')) v = Owned cw c"
  by (auto simp: sched_slot)

lemma sched_closing: "inv s \<Longrightarrow> slot s v = Closing \<Longrightarrow> slot (snd (sched s u cw)) v = Closing"
  by (auto simp: sched_slot)

lemma open_close_cycle:
  assumes "inv s" "alloc s c cw = Some (Inr u, s1)"
  shows "slot (snd (closed (snd (sched s1 u cw)) u)) = slot s"
  using alloc_Inr [OF assms] by (auto simp: closed_slot sched_inv sched_slot)

end

interpretation upstream_slots:
  slot_table slot_of slots_ok allocateLocked ScheduleChannelCloseIfOwnedBy closeOkReceived
proof
  fix s c cw u s'
  assume "slots_ok s" "allocateLocked s c cw = Some (Inr u, s')"
  then show "slots_ok s' \<and> slot_of s u = Free \<and> slot_of s' = (slot_of s)(u := Owned cw c)"
    using allocateLocked_Inr(1) [of s c cw u s'] slots_ok_allocate
    by (auto simp: slot_simps free_chan_slot)
next
  fix s c cw e s'
  assume "slots_ok s" "allocateLocked s c cw = Some (Inl e, s')"
  then show "slots_ok s' \<and> slot_of s' = slot_of s"
    using allocateLocked_Inl [of s c cw e s'] by (auto simp: slot_simps)
qed (auto simp: slot_simps slots_ok_closeOk intro: slots_ok_schedule owned_used)

section \<open>Properties\<close>

text \<open>
  (C3) Allocation, for every limit below 65535. On a table that satisfies the accounting
  invariant, \<open>AllocateChannel\<close> returns, keeps the invariant and the bounds, and
  succeeds exactly when \<open>HasCapacity\<close> holds. On success the number lies between 1 and the limit,
  was free, and is now the caller's, with every other slot unchanged; on failure no slot changes.
\<close>

theorem AllocateChannel_correct:
  assumes "slots_ok m" "chans_bounded m" "maxChannels m \<noteq> - 1"
  shows "\<exists>r m'. AllocateChannel m c cw = Some (r, m') \<and> slots_ok m' \<and> chans_bounded m' \<and>
    (case r of
       Inr u \<Rightarrow> HasCapacity m \<and> 1 \<le> u \<and> u \<le> maxChannels m \<and> slot_of m u = Free \<and>
               slot_of m' = (slot_of m)(u := Owned cw c)
     | Inl e \<Rightarrow> \<not> HasCapacity m \<and> slot_of m' = slot_of m)"
proof (cases "HasCapacity m")
  case True
  with assms obtain j where "\<not> reconnecting m" "1 \<le> j" "j \<le> maxChannels m" "free_chan m j"
    by (auto simp: HasCapacity_iff_free free_chan_slot slot_of_Free)
  with allocateLocked_succeeds [of m j c cw] assms obtain u m' where
    a: "allocateLocked m c cw = Some (Inr u, m')" "AllocateChannel m c cw = Some (Inr u, m')"
    by (auto simp: AllocateChannel_def)
  show ?thesis
    using a True assms upstream_slots.alloc_Inr [OF assms(1) a(1)] allocateLocked_Inr(2) [OF a(1)]
      chans_bounded_allocate [OF assms(2,3) a(1)] by auto
next
  case False
  show ?thesis
  proof (cases "reconnecting m")
    case True
    with False assms show ?thesis by (simp add: AllocateChannel_def)
  next
    case nr: False
    have nf: "\<not> free_chan m j" if "1 \<le> j" "j \<le> maxChannels m" for j
      using that False nr assms by (auto simp: HasCapacity_iff_free free_chan_slot slot_of_Free)
    obtain e m' where a: "allocateLocked m c cw = Some (Inl e, m')"
      using allocateLocked_full [OF assms(3,2), of c cw] nf by blast
    with nr False upstream_slots.alloc_Inl [OF assms(1) a] chans_bounded_allocate [OF assms(2,3) a]
    show ?thesis by (simp add: AllocateChannel_def)
  qed
qed

definition mu_ex :: "u16 \<Rightarrow> ManagedUpstream" where
  "mu_ex mx = newManagedUpstream ''guest'' ''guest'' ''/'' mx"

lemma mu_ex_ok: "slots_ok (mu_ex mx)" "chans_bounded (mu_ex mx)" "maxChannels (mu_ex mx) = mx"
  unfolding mu_ex_def by (rule slots_ok_new, rule chans_bounded_new) (simp add: newManagedUpstream_def)

theorem AllocateChannel_correct_witness:
  "slots_ok (mu_ex 100) \<and> (\<exists>r m'. AllocateChannel (mu_ex 100) 7 1 = Some (r, m') \<and> slots_ok m')"
proof -
  have "maxChannels (mu_ex 100) \<noteq> - 1" by (simp add: mu_ex_ok)
  from AllocateChannel_correct [OF mu_ex_ok(1,2) this, of 7 1] show ?thesis
    using mu_ex_ok(1) by blast
qed

text \<open>
  (C14) The search as a specification would state it: of the numbers in the order from the hint
  to the limit and then from 1 to the hint, the first that is free. For every limit below
  65535 \<open>AllocateChannel\<close>, with its two wrapping loops, its early returns and its errors, is this
  function. The number is in particular not the lowest free one, unless the hint is 1.
\<close>

theorem AllocateChannel_ring:
  assumes "maxChannels m \<noteq> - 1"
  shows "AllocateChannel m c cw =
    Some (if reconnecting m then (Inl (New ''upstream reconnecting''), m)
          else case find (free_chan m) (search_order m) of
            Some u \<Rightarrow> (Inr u, claimChannel m u c cw)
          | None \<Rightarrow> (Inl (New ''no free upstream channel available''), m\<lparr>nextHint := hint_of m\<rparr>))"
  by (simp add: AllocateChannel_def allocateLocked_scan search_order_def find_append scan_up_find [OF assms]
      scan_below_find split: option.splits)

theorem AllocateChannel_ring_witness:
  "let m = (mu_ex 4)\<lparr>nextHint := 3, usedChannels := {3, 4},
        channelOwners := [3 \<mapsto> \<lparr>owner = 1, clientChanID = 1\<rparr>, 4 \<mapsto> \<lparr>owner = 1, clientChanID = 2\<rparr>]\<rparr>
   in AllocateChannel m 5 9 = Some (Inr 1, claimChannel m 1 5 9)"
proof -
  define m where "m = (mu_ex 4)\<lparr>nextHint := 3, usedChannels := {3, 4},
        channelOwners := [3 \<mapsto> \<lparr>owner = 1, clientChanID = 1\<rparr>, 4 \<mapsto> \<lparr>owner = 1, clientChanID = 2\<rparr>]\<rparr>"
  have m: "maxChannels m = 4" "nextHint m = 3" "\<not> reconnecting m" "usedChannels m = {3, 4}" "pendingClose m = {}"
    by (simp_all add: m_def mu_ex_def newManagedUpstream_def)
  have "[3..<Suc 4] = [3, 4]" "[1..<3] = [1, 2 :: nat]" by (simp_all add: upt_rec)
  then have "search_order m = [3, 4, 1, 2]" by (simp add: search_order_def hint_of_def m)
  then have "find (free_chan m) (search_order m) = Some 1" by (simp add: free_chan_def m)
  with AllocateChannel_ring [of m 5 9] m(1,3) have "AllocateChannel m 5 9 = Some (Inr 1, claimChannel m 1 5 9)" by simp
  then show ?thesis unfolding m_def Let_def .
qed

text \<open>
  The order of the search. The number returned is the first free one from the hint upwards,
  and if there is none up to the limit, the first free one from 1. It is in particular not the
  lowest free number unless the hint is 1: the next theorem has an example.
\<close>

theorem AllocateChannel_next_fit:
  assumes "AllocateChannel m c cw = Some (Inr u, m')" "maxChannels m \<noteq> - 1"
  shows "free_chan m u \<and>
    (hint_of m \<le> u \<and> (\<forall>i. hint_of m \<le> i \<and> i < u \<longrightarrow> \<not> free_chan m i) \<or>
     u < hint_of m \<and> (\<forall>i. hint_of m \<le> i \<and> i \<le> maxChannels m \<longrightarrow> \<not> free_chan m i) \<and>
       (\<forall>i. 1 \<le> i \<and> i < u \<longrightarrow> \<not> free_chan m i))"
proof -
  have a: "allocateLocked m c cw = Some (Inr u, m')" using assms(1) by (auto simp: AllocateChannel_def split: if_splits)
  then consider (up) "scan_up (free_chan m) (hint_of m) (maxChannels m) = Some (Some u)"
    | (below) "scan_up (free_chan m) (hint_of m) (maxChannels m) = Some None"
        "scan_below (free_chan m) 1 (hint_of m) = Some u"
    by (auto simp: allocateLocked_scan split: option.splits)
  then show ?thesis
  proof cases
    case up
    with scan_up_returns [OF up] scan_up_first [OF up] assms(2) show ?thesis by auto
  next
    case below
    with scan_up_exhausted [OF below(1)] scan_below_Some [OF below(2)] scan_below_first [OF below(2)]
    show ?thesis by auto
  qed
qed

lemma scan_up_here: "i \<le> mx \<Longrightarrow> free i \<Longrightarrow> scan_up free i mx = Some (Some i)"
  by (simp add: scan_up.simps)

theorem AllocateChannel_next_fit_witness:
  "let m = (mu_ex 100)\<lparr>nextHint := 3, usedChannels := {2},
        channelOwners := [2 \<mapsto> \<lparr>owner = 1, clientChanID = 1\<rparr>]\<rparr>
   in (\<exists>m'. AllocateChannel m 5 9 = Some (Inr 3, m')) \<and> free_chan m 1 \<and> free_chan m 3"
proof -
  let ?m = "(mu_ex 100)\<lparr>nextHint := 3, usedChannels := {2},
        channelOwners := [2 \<mapsto> \<lparr>owner = 1, clientChanID = 1\<rparr>]\<rparr>"
  have a: "AllocateChannel ?m 5 9 = Some (Inr 3, claimChannel ?m 3 5 9)"
    by (simp add: AllocateChannel_def allocateLocked_scan hint_of_def mu_ex_def newManagedUpstream_def
        scan_up_here free_chan_def)
  have "free_chan ?m 3"
    using AllocateChannel_next_fit [OF a] by (simp add: mu_ex_def newManagedUpstream_def)
  with a show ?thesis by (simp add: Let_def free_chan_def mu_ex_def newManagedUpstream_def)
qed

text \<open>The limit 65535: the first loop runs past 65535 to channel 0, and without end when 0 is taken.\<close>

lemma allocateLocked_zero:
  assumes "maxChannels m = - 1" "\<And>i. hint_of m \<le> i \<Longrightarrow> \<not> free_chan m i" "free_chan m 0"
  shows "allocateLocked m c cw = Some (Inr 0, claimChannel m 0 c cw)"
proof -
  from scan_up_found [of "free_chan m" 0 "- 1" "hint_of m"] assms(3) obtain k where
    k: "scan_up (free_chan m) (hint_of m) (- 1) = Some (Some k)" "free_chan m k"
      "unat (k - hint_of m) \<le> unat (0 - hint_of m)" by auto
  from k(2) assms(2) have "k < hint_of m" by (metis linorder_not_le)
  then have "k = 0" using k(3) by (rule wrap_distance)
  with k(1) assms(1) show ?thesis by (simp add: allocateLocked_scan)
qed

text \<open>
  With the limit 65535, the default of the configuration, \<open>AllocateChannel\<close> hands out channel
  0, which AMQP reserves for the connection, whenever every number from the hint to 65535 is taken
  and 0 is not; and when 0 is taken as well, with no number free, it never returns (it loops with
  the lock held).
\<close>

theorem AllocateChannel_65535:
  assumes "maxChannels m = - 1" "\<not> reconnecting m" "\<forall>i. hint_of m \<le> i \<longrightarrow> \<not> free_chan m i"
  shows "(free_chan m 0 \<longrightarrow> AllocateChannel m c cw = Some (Inr 0, claimChannel m 0 c cw)) \<and>
    ((\<forall>i. \<not> free_chan m i) \<longrightarrow> AllocateChannel m c cw = None)"
proof -
  have "allocateLocked m c cw = None" if "\<forall>i. \<not> free_chan m i"
    using scan_up_diverges [of "free_chan m"] that assms(1) by (simp add: allocateLocked_scan)
  with allocateLocked_zero [of m c cw] assms show ?thesis by (simp add: AllocateChannel_def)
qed

theorem AllocateChannel_65535_witness:
  "let m = (mu_ex (- 1))\<lparr>nextHint := - 1, usedChannels := {- 1},
        channelOwners := [- 1 \<mapsto> \<lparr>owner = 1, clientChanID = 1\<rparr>]\<rparr>
   in AllocateChannel m 5 9 = Some (Inr 0, claimChannel m 0 5 9)"
proof -
  let ?m = "(mu_ex (- 1))\<lparr>nextHint := - 1, usedChannels := {- 1},
        channelOwners := [- 1 \<mapsto> \<lparr>owner = 1, clientChanID = 1\<rparr>]\<rparr>"
  have "\<forall>i. hint_of ?m \<le> i \<longrightarrow> \<not> free_chan ?m i" "free_chan ?m 0" "maxChannels ?m = - 1" "\<not> reconnecting ?m"
    by (simp_all add: hint_of_def free_chan_def mu_ex_def newManagedUpstream_def word_order.extremum_unique)
  with AllocateChannel_65535 [of ?m 5 9] show ?thesis by (simp only: Let_def simp_thms)
qed

end
