(* ===== verification/Read_Loop.thy ===== *)
theory Read_Loop
  imports Managed_Upstream Frame_Proxy
begin

text \<open>
  \<open>proxy/managed_upstream.go\<close>, the goroutine \<open>readLoop\<close> that reads the broker's frames and routes
  them to the clients, with the two operations it calls: \<open>writeFrameToUpstream\<close>, which queues a
  frame for the write pump, and \<open>handleUpstreamFailure\<close>.

  A \<open>world\<close> is what these operations share: the upstream, the store of broker connections that
  its field \<open>conn\<close> points into, and the store of client connections that \<open>clients\<close> and
  \<open>channelOwners\<close> point into. An operation whose \<open>select\<close> may take several branches returns the
  list of its possible outcomes; the empty list means that it blocks in this state.
\<close>

record world =
  mu :: ManagedUpstream
  conns :: "nat \<Rightarrow> UpstreamConn"
  ccs :: "nat \<Rightarrow> ClientConnection"

section \<open>Queueing a frame\<close>

definition writeCh_cap :: nat where
  "writeCh_cap = 256"

definition writeFrameToUpstream :: "ManagedUpstream \<Rightarrow> Frame \<Rightarrow> ManagedUpstream list" where
  "writeFrameToUpstream m frame =
     (if stopped m \<or> reconnecting m then [m]
      else (if length (writeCh m) < writeCh_cap then [m\<lparr>writeCh := writeCh m @ [frame]\<rparr>] else []) @
           (if writeDone m \<in> doneClosed m then [m] else []))"

section \<open>Failure\<close>

text \<open>
  The \<open>CompareAndSwap\<close> lets one caller pass: it closes the connection, aborts the clients and
  launches \<open>reconnectLoop\<close>. The result says whether it was launched.
\<close>

definition handleUpstreamFailure :: "world \<Rightarrow> bool \<times> world" where
  "handleUpstreamFailure w =
     (if reconnecting (mu w) then (False, w)
      else (True, w\<lparr>mu := (mu w)\<lparr>reconnecting := True\<rparr>,
                    conns := closeUpstream (conns w) (conn (mu w)),
                    ccs := AbortAllClients (mu w) (ccs w)\<rparr>))"

section \<open>The loop\<close>

definition deliver :: "(nat \<Rightarrow> ClientConnection) \<Rightarrow> nat \<Rightarrow> Frame \<Rightarrow> (nat \<Rightarrow> ClientConnection)" where
  "deliver cs cw frame = cs(cw := snd (DeliverFrame (cs cw) frame))"

text \<open>The body of the loop over all clients for a frame on channel 0.\<close>

definition deliverAbort :: "Frame \<Rightarrow> (nat \<Rightarrow> ClientConnection) \<Rightarrow> nat \<Rightarrow> (nat \<Rightarrow> ClientConnection)" where
  "deliverAbort frame cs cw = (let cs = deliver cs cw frame in cs(cw := Abort (cs cw)))"

definition heartbeat :: Frame where
  "heartbeat = \<lparr>Type = FrameTypeHeartbeat, Channel = 0, Payload = []\<rparr>"

text \<open>The \<open>switch\<close> on a frame that has been read.\<close>

definition readLoop_dispatch :: "world \<Rightarrow> Frame \<Rightarrow> world list" where
  "readLoop_dispatch w frame =
     (if Type frame = FrameTypeHeartbeat
      then map (\<lambda>m. w\<lparr>mu := m\<rparr>) (writeFrameToUpstream (mu w) heartbeat)
      else if Channel frame = 0
      then [w\<lparr>ccs := foldl (deliverAbort frame) (ccs w) (clients (mu w))\<rparr>]
      else if isChannelCloseOk frame
      then (case closeOkReceived (mu w) (Channel frame) of
              (None, m) \<Rightarrow> [w\<lparr>mu := m\<rparr>]
            | (Some entry, m) \<Rightarrow>
                let cs = deliver (ccs w) (owner entry) (frame\<lparr>Channel := clientChanID entry\<rparr>)
                in [w\<lparr>mu := m,
                      ccs := cs(owner entry := OnChannelClosed (cs (owner entry)) (clientChanID entry))\<rparr>])
      else (case channelOwners (mu w) (Channel frame) of
              None \<Rightarrow> [w]
            | Some entry \<Rightarrow>
                [w\<lparr>ccs := deliver (ccs w) (owner entry) (frame\<lparr>Channel := clientChanID entry\<rparr>)\<rparr>]))"

text \<open>One turn: go on, or return, with or without a reconnect launched.\<close>

datatype turn = Again world | Return world bool

definition readLoop_turn :: "world \<Rightarrow> turn list" where
  "readLoop_turn w =
     (case conn (mu w) of
        None \<Rightarrow> [Return w False]
      | Some a \<Rightarrow>
          (case ParseFrame (uc_Reader (conns w a)) of
             (Inl err, r) \<Rightarrow>
               let w = w\<lparr>conns := (conns w)(a := (conns w a)\<lparr>uc_Reader := r\<rparr>)\<rparr>
               in if \<not> stopped (mu w)
                  then (case handleUpstreamFailure w of (b, w) \<Rightarrow> [Return w b])
                  else [Return w False]
           | (Inr frame, r) \<Rightarrow>
               map Again (readLoop_dispatch (w\<lparr>conns := (conns w)(a := (conns w a)\<lparr>uc_Reader := r\<rparr>)\<rparr>) frame)))"

inductive readLoop :: "world \<Rightarrow> world \<Rightarrow> bool \<Rightarrow> bool" where
  return: "Return w' b \<in> set (readLoop_turn w) \<Longrightarrow> readLoop w w' b"
| again: "Again w1 \<in> set (readLoop_turn w) \<Longrightarrow> readLoop w1 w' b \<Longrightarrow> readLoop w w' b"

section \<open>Lemmas\<close>

lemma deliver_other [simp]: "x \<noteq> cw \<Longrightarrow> deliver cs cw f x = cs x"
  by (simp add: deliver_def)

lemma deliver_owner [simp]: "deliver cs cw f cw = snd (DeliverFrame (cs cw) f)"
  by (simp add: deliver_def)

lemma AbortAllClients_apply:
  "AbortAllClients m cs x = (if x \<in> set (clients m) then Abort (cs x) else cs x)"
proof -
  have "foldl (\<lambda>cs cw. cs(cw := Abort (cs cw))) cs xs x =
      (if x \<in> set xs then Abort (cs x) else cs x)" for xs cs
    by (induction xs arbitrary: cs) (auto simp: Abort_def Conn_Close_def)
  then show ?thesis by (simp add: AbortAllClients_def)
qed

lemma deliverAbort_apply:
  "deliverAbort f cs cw x = (if x = cw then Abort (snd (DeliverFrame (cs x) f)) else cs x)"
  by (simp add: deliverAbort_def Let_def)

lemma broadcast_other: "x \<notin> set xs \<Longrightarrow> foldl (deliverAbort f) cs xs x = cs x"
  by (induction xs arbitrary: cs) (auto simp: deliverAbort_apply)

lemma broadcast_member:
  "distinct xs \<Longrightarrow> x \<in> set xs \<Longrightarrow> foldl (deliverAbort f) cs xs x = Abort (snd (DeliverFrame (cs x) f))"
  by (induction xs arbitrary: cs) (auto simp: deliverAbort_apply broadcast_other)

lemma closed_Abort [simp]: "closed (wr (Writer (Abort cc)))"
  by (simp add: Abort_def Conn_Close_def)

lemma sent_Abort [simp]: "sent (wr (Writer (Abort cc))) = sent (wr (Writer cc))"
  by (simp add: Abort_def Conn_Close_def)

lemma Writer_OnChannelClosed [simp]: "Writer (OnChannelClosed cc c) = Writer cc"
  by (simp add: OnChannelClosed_def UnmapChannel_def split: option.splits)

lemma writeFrameToUpstream_cases:
  "m' \<in> set (writeFrameToUpstream m f) \<Longrightarrow>
     m' = m \<or> m' = m\<lparr>writeCh := writeCh m @ [f]\<rparr> \<and> \<not> stopped m \<and> \<not> reconnecting m"
  by (auto simp: writeFrameToUpstream_def split: if_splits)

lemma slot_of_writeCh [simp]: "slot_of (m\<lparr>writeCh := q\<rparr>) = slot_of m"
  by (rule ext) (simp add: slot_of_def)

lemma slots_ok_writeCh [simp]: "slots_ok (m\<lparr>writeCh := q\<rparr>) = slots_ok m"
  by (simp add: slots_ok_def)

text \<open>Delivery to a client whose connection works.\<close>

lemma DeliverFrame_sent:
  assumes "live_bufio (Writer cc)" "frame_ok f"
  shows "live_bufio (Writer (snd (DeliverFrame cc f))) \<and> buf (Writer (snd (DeliverFrame cc f))) = [] \<and>
    sent (wr (Writer (snd (DeliverFrame cc f)))) = accepted (Writer cc) @ frame_bytes f"
proof -
  from DeliverFrame_live [OF assms] obtain cc' where
    cc': "DeliverFrame cc f = (None, cc')" "live_bufio (Writer cc')" by fastforce
  with DeliverFrame_ok [OF cc'(1)] show ?thesis by auto
qed

lemma accepted_Abort [simp]: "accepted (Writer (Abort cc)) = accepted (Writer cc)"
  by (simp add: Abort_def Conn_Close_def accepted_def)

section \<open>Effect of a frame\<close>

text \<open>Only the answer to a heartbeat can block; everything else has one outcome.\<close>

lemma dispatch_single:
  assumes "Type f \<noteq> FrameTypeHeartbeat"
  shows "\<exists>w'. readLoop_dispatch w f = [w']"
proof -
  obtain e m where e: "closeOkReceived (mu w) (Channel f) = (e, m)" by fastforce
  with assms show ?thesis
    by (cases e; cases "channelOwners (mu w) (Channel f)") (simp_all add: readLoop_dispatch_def Let_def)
qed

lemma dispatch_effects:
  assumes "w' \<in> set (readLoop_dispatch w f)" "slots_ok (mu w)"
  shows "(\<forall>x. ccs w' x \<noteq> ccs w x \<longrightarrow> Type f \<noteq> FrameTypeHeartbeat \<and>
      (if Channel f = 0 then x \<in> set (clients (mu w)) else \<exists>c. slot_of (mu w) (Channel f) = Owned x c)) \<and>
    slots_ok (mu w') \<and> conns w' = conns w \<and> clients (mu w') = clients (mu w) \<and>
    slot_of (mu w') = (if Type f \<noteq> FrameTypeHeartbeat \<and> Channel f \<noteq> 0 \<and> isChannelCloseOk f
                       then (slot_of (mu w))(Channel f := Free) else slot_of (mu w))"
proof -
  consider (hb) "Type f = FrameTypeHeartbeat" | (zero) "Type f \<noteq> FrameTypeHeartbeat" "Channel f = 0"
    | (closeOk) "Type f \<noteq> FrameTypeHeartbeat" "Channel f \<noteq> 0" "isChannelCloseOk f"
    | (other) "Type f \<noteq> FrameTypeHeartbeat" "Channel f \<noteq> 0" "\<not> isChannelCloseOk f" by blast
  then show ?thesis
  proof cases
    case hb
    with assms show ?thesis by (auto simp: readLoop_dispatch_def dest!: writeFrameToUpstream_cases)
  next
    case zero
    with assms show ?thesis by (auto simp: readLoop_dispatch_def) (metis broadcast_other)
  next
    case closeOk
    obtain e m where e: "closeOkReceived (mu w) (Channel f) = (e, m)" by (cases "closeOkReceived (mu w) (Channel f)")
    have "slots_ok m" "slot_of m = (slot_of (mu w))(Channel f := Free)" "clients m = clients (mu w)"
      "e = (case slot_of (mu w) (Channel f) of Owned x c \<Rightarrow> Some \<lparr>owner = x, clientChanID = c\<rparr> | _ \<Rightarrow> None)"
      using upstream_slots.closed_inv [OF assms(2), of "Channel f"]
        upstream_slots.closed_slot [OF assms(2), of "Channel f"]
        upstream_slots.closed_entry [OF assms(2), of "Channel f"] e
      by (auto simp: closeOkReceived_def split: option.splits if_splits)
    with closeOk assms(1) e show ?thesis
      by (auto simp: readLoop_dispatch_def Let_def deliver_def split: slot.splits if_splits)
  next
    case other
    with assms show ?thesis
      by (auto simp: readLoop_dispatch_def slot_of_def deliver_def split: option.splits if_splits)
  qed
qed

lemma dispatch_owned:
  assumes "slots_ok (mu w)" "slot_of (mu w) (Channel f) = Owned x c"
    and "Type f \<noteq> FrameTypeHeartbeat" "Channel f \<noteq> 0" "frame_ok f" "live_bufio (Writer (ccs w x))"
  shows "\<exists>w'. readLoop_dispatch w f = [w'] \<and> live_bufio (Writer (ccs w' x)) \<and>
    buf (Writer (ccs w' x)) = [] \<and>
    sent (wr (Writer (ccs w' x))) = accepted (Writer (ccs w x)) @ frame_bytes (f\<lparr>Channel := c\<rparr>) \<and>
    ChannelMapping (ccs w' x) = (if isChannelCloseOk f then (ChannelMapping (ccs w x))(c := None)
                                 else ChannelMapping (ccs w x))"
proof -
  note d = DeliverFrame_sent [OF assms(6), of "f\<lparr>Channel := c\<rparr>"]
  show ?thesis
  proof (cases "isChannelCloseOk f")
    case True
    obtain m where "closeOkReceived (mu w) (Channel f) = (Some \<lparr>owner = x, clientChanID = c\<rparr>, m)"
      using upstream_slots.closed_entry [OF assms(1), of "Channel f"] assms(2)
      by (cases "closeOkReceived (mu w) (Channel f)") auto
    with True assms d show ?thesis
      by (simp add: readLoop_dispatch_def Let_def) (simp add: OnChannelClosed_def map_simps)
  next
    case False
    with assms d show ?thesis by (simp add: readLoop_dispatch_def slot_of_Owned)
  qed
qed

section \<open>A stream of frames\<close>

text \<open>
  What client \<open>x\<close> is to see of the broker's frames, given the slots and whether \<open>x\<close> is registered:
  no heartbeat; of its own channels every frame, under its own number, a slot being free after its
  \<open>Channel.CloseOk\<close>; and a frame on channel 0 as the last one, if it is registered.
\<close>

fun delivered :: "bool \<Rightarrow> (u16 \<Rightarrow> slot) \<Rightarrow> nat \<Rightarrow> Frame list \<Rightarrow> Frame list" where
  "delivered reg sl x [] = []"
| "delivered reg sl x (f # fs) =
     (if Type f = FrameTypeHeartbeat then delivered reg sl x fs
      else if Channel f = 0 then (if reg then [f] else delivered reg sl x fs)
      else (case sl (Channel f) of Owned y c \<Rightarrow> if y = x then [f\<lparr>Channel := c\<rparr>] else [] | _ \<Rightarrow> []) @
           delivered reg (if isChannelCloseOk f then sl(Channel f := Free) else sl) x fs)"

definition heartbeats :: "Frame list \<Rightarrow> nat" where
  "heartbeats fs = length (filter (\<lambda>f. Type f = FrameTypeHeartbeat) fs)"

text \<open>A client whose connection works and that has been sent everything so far.\<close>

definition ready_client :: "ClientConnection \<Rightarrow> bool" where
  "ready_client cc \<longleftrightarrow> live_bufio (Writer cc) \<and> buf (Writer cc) = []"

definition sent_to :: "world \<Rightarrow> nat \<Rightarrow> byte list" where
  "sent_to w x = sent (wr (Writer (ccs w x)))"

definition shut :: "world \<Rightarrow> nat \<Rightarrow> bool" where
  "shut w x \<longleftrightarrow> closed (wr (Writer (ccs w x)))"

lemma broadcast_closed:
  "closed (wr (Writer (cs x))) \<Longrightarrow>
     closed (wr (Writer (foldl (deliverAbort f) cs xs x))) \<and>
     sent (wr (Writer (foldl (deliverAbort f) cs xs x))) = sent (wr (Writer (cs x)))"
  by (induction xs arbitrary: cs) (auto simp: deliverAbort_apply DeliverFrame_closed)

lemma broadcast_ready:
  assumes "x \<in> set xs" "ready_client (cs x)" "frame_ok f"
  shows "closed (wr (Writer (foldl (deliverAbort f) cs xs x))) \<and>
    sent (wr (Writer (foldl (deliverAbort f) cs xs x))) = sent (wr (Writer (cs x))) @ frame_bytes f"
  using assms(1,2)
proof (induction xs arbitrary: cs)
  case (Cons y ys)
  show ?case
  proof (cases "y = x")
    case True
    have "closed (wr (Writer (deliverAbort f cs x x))) \<and>
        sent (wr (Writer (deliverAbort f cs x x))) = sent (wr (Writer (cs x))) @ frame_bytes f"
      using DeliverFrame_sent [of "cs x" f] Cons.prems assms(3)
      by (simp add: deliverAbort_apply ready_client_def accepted_def)
    with True broadcast_closed [of "deliverAbort f cs x" x f ys] show ?thesis by simp
  next
    case False
    then have "deliverAbort f cs y x = cs x" by (simp add: deliverAbort_apply)
    with False Cons.IH [of "deliverAbort f cs y"] Cons.prems show ?thesis by simp
  qed
qed simp

lemma dispatch_flags:
  assumes "w' \<in> set (readLoop_dispatch w f)"
  shows "conn (mu w') = conn (mu w) \<and> stopped (mu w') = stopped (mu w) \<and>
    reconnecting (mu w') = reconnecting (mu w) \<and>
    length (writeCh (mu w')) \<le> length (writeCh (mu w)) + (if Type f = FrameTypeHeartbeat then 1 else 0)"
  using assms
  by (auto simp: readLoop_dispatch_def closeOkReceived_def Let_def dest!: writeFrameToUpstream_cases
      split: if_splits option.splits)

lemma dispatch_shut:
  assumes "w' \<in> set (readLoop_dispatch w f)" "slots_ok (mu w)" "shut w x"
  shows "shut w' x \<and> sent_to w' x = sent_to w x"
proof (cases "ccs w' x = ccs w x")
  case False
  note e = dispatch_effects [OF assms(1,2), THEN conjunct1, rule_format, OF False]
  show ?thesis
  proof (cases "Channel f = 0")
    case True
    with e assms broadcast_closed [of "ccs w" x f] show ?thesis
      by (simp add: readLoop_dispatch_def shut_def sent_to_def)
  next
    case zero: False
    obtain en m where em: "closeOkReceived (mu w) (Channel f) = (en, m)" by fastforce
    from zero e obtain c where c: "slot_of (mu w) (Channel f) = Owned x c" by auto
    then have "channelOwners (mu w) (Channel f) = Some \<lparr>owner = x, clientChanID = c\<rparr>" by (simp add: slot_of_Owned)
    moreover have "en = Some \<lparr>owner = x, clientChanID = c\<rparr>"
      using upstream_slots.closed_entry [OF assms(2), of "Channel f"] em c by simp
    ultimately show ?thesis using zero e em assms(1,3)
      by (auto simp: readLoop_dispatch_def Let_def DeliverFrame_closed shut_def sent_to_def split: if_splits)
  qed
qed (use assms(3) in \<open>simp add: shut_def sent_to_def\<close>)

lemma dispatch_ready:
  assumes "w' \<in> set (readLoop_dispatch w f)" "slots_ok (mu w)" "ready_client (ccs w x)" "frame_ok f"
  shows "sent_to w' x =
      sent_to w x @ concat (map frame_bytes (delivered (x \<in> set (clients (mu w))) (slot_of (mu w)) x [f])) \<and>
    (if Type f \<noteq> FrameTypeHeartbeat \<and> Channel f = 0 \<and> x \<in> set (clients (mu w)) then shut w' x else ready_client (ccs w' x))"
proof -
  consider (hb) "Type f = FrameTypeHeartbeat" | (zero) "Type f \<noteq> FrameTypeHeartbeat" "Channel f = 0"
    | (own) c where "Type f \<noteq> FrameTypeHeartbeat" "Channel f \<noteq> 0" "slot_of (mu w) (Channel f) = Owned x c"
    | (other) "Type f \<noteq> FrameTypeHeartbeat" "Channel f \<noteq> 0" "\<nexists>c. slot_of (mu w) (Channel f) = Owned x c"
    by blast
  then show ?thesis
  proof cases
    case hb
    then have "ccs w' x = ccs w x" using dispatch_effects [OF assms(1,2)] by blast
    with hb assms(3) show ?thesis by (simp add: sent_to_def)
  next
    case zero
    with assms broadcast_ready [of x _ "ccs w" f] broadcast_other [of x _ f "ccs w"] show ?thesis
      by (simp add: readLoop_dispatch_def sent_to_def shut_def)
  next
    case own
    have "live_bufio (Writer (ccs w x))" using assms(3) by (simp add: ready_client_def)
    from dispatch_owned [OF assms(2) own(3,1,2) assms(4) this] own assms(1,3) show ?thesis
      by (auto simp: sent_to_def ready_client_def accepted_def)
  next
    case other
    then have "ccs w' x = ccs w x" using dispatch_effects [OF assms(1,2)] by auto
    with other assms(3) show ?thesis by (cases "slot_of (mu w) (Channel f)") (auto simp: sent_to_def)
  qed
qed

text \<open>The turns of the loop while the broker's bytes are the encodings of \<open>fs\<close>.\<close>

definition reading :: "world \<Rightarrow> nat \<Rightarrow> Frame list \<Rightarrow> go_error \<Rightarrow> bool" where
  "reading w a fs e \<longleftrightarrow>
     conn (mu w) = Some a \<and> \<not> stopped (mu w) \<and> \<not> reconnecting (mu w) \<and> slots_ok (mu w) \<and>
     list_all frame_ok fs \<and> uc_Reader (conns w a) = \<lparr>rdata = concat (map frame_bytes fs), rend = e\<rparr>"

lemma reading_turn_Nil:
  assumes "reading w a [] e"
  shows "\<exists>w'. readLoop_turn w = [Return w' True] \<and> reconnecting (mu w') \<and> (\<forall>x. sent_to w' x = sent_to w x)"
  using assms
  by (simp add: reading_def readLoop_turn_def handleUpstreamFailure_def AbortAllClients_apply sent_to_def)

lemma reading_turn_Cons:
  assumes "reading w a (f # fs) e"
  shows "\<exists>v. readLoop_turn w = map Again (readLoop_dispatch v f) \<and> mu v = mu w \<and> ccs v = ccs w \<and>
    (\<forall>w1 \<in> set (readLoop_dispatch v f). reading w1 a fs e)"
proof -
  define v where "v = w\<lparr>conns := (conns w)(a := (conns w a)\<lparr>uc_Reader := \<lparr>rdata = concat (map frame_bytes fs), rend = e\<rparr>\<rparr>)\<rparr>"
  have "readLoop_turn w = map Again (readLoop_dispatch v f)"
    using assms by (simp add: reading_def readLoop_turn_def v_def wire_simps)
  moreover have "reading w1 a fs e" if "w1 \<in> set (readLoop_dispatch v f)" for w1
    using dispatch_flags [OF that] dispatch_effects [OF that] assms by (simp add: reading_def v_def)
  ultimately show ?thesis by (auto simp: v_def)
qed

lemma readLoop_exists:
  assumes "reading w a fs e" "length (writeCh (mu w)) + heartbeats fs \<le> writeCh_cap"
  shows "\<exists>w' b. readLoop w w' b"
  using assms
proof (induction fs arbitrary: w)
  case Nil
  then obtain w' where "Return w' True \<in> set (readLoop_turn w)" using reading_turn_Nil [of w a e] by auto
  then show ?case by (blast intro: readLoop.return)
next
  case (Cons f fs)
  from reading_turn_Cons [OF Cons.prems(1)] obtain v where
    v: "readLoop_turn w = map Again (readLoop_dispatch v f)" "mu v = mu w"
      "\<And>w1. w1 \<in> set (readLoop_dispatch v f) \<Longrightarrow> reading w1 a fs e" by blast
  have "readLoop_dispatch v f \<noteq> []"
    using dispatch_single [of f v] Cons.prems v(2)
    by (cases "Type f = FrameTypeHeartbeat")
       (auto simp: readLoop_dispatch_def writeFrameToUpstream_def heartbeats_def)
  then obtain w1 where w1: "w1 \<in> set (readLoop_dispatch v f)" by (meson last_in_set)
  then have "length (writeCh (mu w1)) + heartbeats fs \<le> writeCh_cap"
    using dispatch_flags [OF w1] v(2) Cons.prems(2) by (simp add: heartbeats_def split: if_splits)
  with Cons.IH [OF v(3) [OF w1]] obtain w' b where "readLoop w1 w' b" by blast
  moreover have "Again w1 \<in> set (readLoop_turn w)" using w1 v(1) by simp
  ultimately show ?case by (blast intro: readLoop.again)
qed

inductive_cases readLoopE: "readLoop w w' b"

lemma readLoop_first:
  "readLoop w w' b \<Longrightarrow>
     Return w' b \<in> set (readLoop_turn w) \<or> (\<exists>w1. Again w1 \<in> set (readLoop_turn w) \<and> readLoop w1 w' b)"
  by (erule readLoopE) blast+

lemma readLoop_shut:
  assumes "readLoop w w' b" "reading w a fs e" "shut w x"
  shows "b \<and> reconnecting (mu w') \<and> sent_to w' x = sent_to w x"
  using assms
proof (induction fs arbitrary: w)
  case Nil
  from reading_turn_Nil [OF Nil(2)] readLoop_first [OF Nil(1)] show ?case by auto
next
  case (Cons f fs)
  from reading_turn_Cons [OF Cons.prems(2)] obtain v where
    v: "readLoop_turn w = map Again (readLoop_dispatch v f)" "mu v = mu w" "ccs v = ccs w"
      "\<And>w1. w1 \<in> set (readLoop_dispatch v f) \<Longrightarrow> reading w1 a fs e" by blast
  from readLoop_first [OF Cons.prems(1)] v(1) obtain w1 where w1: "w1 \<in> set (readLoop_dispatch v f)" "readLoop w1 w' b"
    by auto
  have "slots_ok (mu v)" "shut v x" "sent_to v x = sent_to w x"
    using Cons.prems v by (simp_all add: reading_def shut_def sent_to_def)
  with dispatch_shut [OF w1(1)] Cons.IH [OF w1(2) v(4) [OF w1(1)]] show ?case by simp
qed

lemma readLoop_ready:
  assumes "readLoop w w' b" "reading w a fs e" "ready_client (ccs w x)"
  shows "b \<and> reconnecting (mu w') \<and> sent_to w' x = sent_to w x @
    concat (map frame_bytes (delivered (x \<in> set (clients (mu w))) (slot_of (mu w)) x fs))"
  using assms
proof (induction fs arbitrary: w)
  case Nil
  from reading_turn_Nil [OF Nil(2)] readLoop_first [OF Nil(1)] show ?case by auto
next
  case (Cons f fs)
  from reading_turn_Cons [OF Cons.prems(2)] obtain v where
    v: "readLoop_turn w = map Again (readLoop_dispatch v f)" "mu v = mu w" "ccs v = ccs w"
      "\<And>w1. w1 \<in> set (readLoop_dispatch v f) \<Longrightarrow> reading w1 a fs e" by blast
  from readLoop_first [OF Cons.prems(1)] v(1) obtain w1 where w1: "w1 \<in> set (readLoop_dispatch v f)" "readLoop w1 w' b"
    by auto
  have sv: "slots_ok (mu v)" "ready_client (ccs v x)" "sent_to v x = sent_to w x" "frame_ok f"
    using Cons.prems v by (simp_all add: reading_def sent_to_def)
  note d = dispatch_ready [OF w1(1) sv(1,2,4), unfolded v(2) sv(3)]
  note s = dispatch_effects [OF w1(1) sv(1), unfolded v(2)]
  show ?case
  proof (cases "Type f \<noteq> FrameTypeHeartbeat \<and> Channel f = 0 \<and> x \<in> set (clients (mu w))")
    case True
    with d readLoop_shut [OF w1(2) v(4) [OF w1(1)], of x] show ?thesis by simp
  next
    case False
    with d have "ready_client (ccs w1 x)" by simp
    from Cons.IH [OF w1(2) v(4) [OF w1(1)] this] d s False show ?thesis
      by (auto split: slot.splits)
  qed
qed

text \<open>
  An upstream with two clients: 1 owns channel 5 as its channel 2, and 7 owns channel 6, as its
  channel 2 too.
\<close>

definition world_ex :: "byte list \<Rightarrow> world" where
  "world_ex inp =
     \<lparr>mu = (mu_ex 100)\<lparr>conn := Some 0, usedChannels := {5, 6},
        channelOwners := [5 \<mapsto> \<lparr>owner = 1, clientChanID = 2\<rparr>, 6 \<mapsto> \<lparr>owner = 7, clientChanID = 2\<rparr>],
        nextHint := 7, clients := [1, 7]\<rparr>,
      conns = (\<lambda>a. \<lparr>uc_Reader = \<lparr>rdata = inp, rend = EOF\<rparr>, uc_Writer = NewWriter new_conn\<rparr>),
      ccs = (\<lambda>x. let cc = NewClientConnection new_conn \<lparr>rdata = [], rend = EOF\<rparr>
                 in if x = 1 then MapChannel cc 2 5 else if x = 7 then MapChannel cc 2 6 else cc)\<rparr>"

lemma world_ex_simps [simp]:
  "slot_of (mu (world_ex inp)) 5 = Owned 1 2" "slot_of (mu (world_ex inp)) 6 = Owned 7 2"
  "slots_ok (mu (world_ex inp))" "clients (mu (world_ex inp)) = [1, 7]" "conn (mu (world_ex inp)) = Some 0"
  "stopped (mu (world_ex inp)) = False" "reconnecting (mu (world_ex inp)) = False"
  "writeCh (mu (world_ex inp)) = []"
  "channelOwners (mu (world_ex inp)) 5 = Some \<lparr>owner = 1, clientChanID = 2\<rparr>"
  "channelOwners (mu (world_ex inp)) 6 = Some \<lparr>owner = 7, clientChanID = 2\<rparr>"
  by (auto simp: world_ex_def slot_of_def slots_ok_def mu_ex_def newManagedUpstream_def split: if_splits)

lemma world_ex_conns [simp]: "uc_Reader (conns (world_ex inp) a) = \<lparr>rdata = inp, rend = EOF\<rparr>"
  by (simp add: world_ex_def)

lemma world_ex_live [simp]:
  "live_bufio (Writer (ccs (world_ex inp) x))" "accepted (Writer (ccs (world_ex inp) x)) = []"
  by (simp_all add: world_ex_def MapChannel_def NewClientConnection_def NewWriter_def live_bufio_def
      live_conn_def new_conn_def accepted_def Let_def)

section \<open>Properties\<close>

text \<open>
  (C4) Isolation of clients. A frame of the broker changes the connection of a client only if the
  client owns the channel the frame is on, or the frame is on channel 0 and the client is
  registered. A heartbeat reaches no client, and no frame changes any slot, except that a
  \<open>Channel.CloseOk\<close> frees the slot of its own channel.
\<close>

theorem readLoop_isolation:
  assumes "w' \<in> set (readLoop_dispatch w f)" "slots_ok (mu w)"
  shows "(\<forall>x. ccs w' x \<noteq> ccs w x \<longrightarrow> Type f \<noteq> FrameTypeHeartbeat \<and>
      (if Channel f = 0 then x \<in> set (clients (mu w)) else \<exists>c. slot_of (mu w) (Channel f) = Owned x c)) \<and>
    slots_ok (mu w') \<and> conns w' = conns w \<and> clients (mu w') = clients (mu w) \<and>
    slot_of (mu w') = (if Type f \<noteq> FrameTypeHeartbeat \<and> Channel f \<noteq> 0 \<and> isChannelCloseOk f
                       then (slot_of (mu w))(Channel f := Free) else slot_of (mu w))"
  using assms by (rule dispatch_effects)

theorem readLoop_isolation_witness:
  "\<exists>w'. readLoop_dispatch (world_ex []) \<lparr>Type = 1, Channel = 5, Payload = [0, 60, 0, 60]\<rparr> = [w'] \<and>
     ccs w' 7 = ccs (world_ex []) 7"
proof -
  let ?f = "\<lparr>Type = 1, Channel = 5, Payload = [0, 60, 0, 60]\<rparr> :: Frame"
  obtain w' where w': "readLoop_dispatch (world_ex []) ?f = [w']"
    by (simp add: readLoop_dispatch_def isChannelCloseOk_def)
  then have "w' \<in> set (readLoop_dispatch (world_ex []) ?f)" by simp
  from readLoop_isolation [OF this] have "ccs w' 7 = ccs (world_ex []) 7" by auto
  with w' show ?thesis by blast
qed

text \<open>
  Routing. A frame on a channel that a client owns is delivered to this client, under the
  number the client uses and otherwise unchanged, and is sent to it at once (the client's
  connection being up). A \<open>Channel.CloseOk\<close> also removes the client's mapping, so that the channel
  is not closed a second time; any other frame leaves the client's maps as they are.
\<close>

theorem readLoop_routes:
  assumes "slots_ok (mu w)" "slot_of (mu w) (Channel f) = Owned x c"
    and "Type f \<noteq> FrameTypeHeartbeat" "Channel f \<noteq> 0" "frame_ok f" "live_bufio (Writer (ccs w x))"
  shows "\<exists>w'. readLoop_dispatch w f = [w'] \<and> live_bufio (Writer (ccs w' x)) \<and>
    buf (Writer (ccs w' x)) = [] \<and>
    sent (wr (Writer (ccs w' x))) = accepted (Writer (ccs w x)) @ frame_bytes (f\<lparr>Channel := c\<rparr>) \<and>
    ChannelMapping (ccs w' x) = (if isChannelCloseOk f then (ChannelMapping (ccs w x))(c := None)
                                 else ChannelMapping (ccs w x))"
  using assms by (rule dispatch_owned)

theorem readLoop_routes_witness:
  "\<exists>w'. readLoop_dispatch (world_ex []) \<lparr>Type = 1, Channel = 6, Payload = [0, 60, 0, 60]\<rparr> = [w'] \<and>
     sent (wr (Writer (ccs w' 7))) = frame_bytes \<lparr>Type = 1, Channel = 2, Payload = [0, 60, 0, 60]\<rparr>"
  using readLoop_routes [of "world_ex []" "\<lparr>Type = 1, Channel = 6, Payload = [0, 60, 0, 60]\<rparr>" 7 2]
  by (auto simp: frame_ok_def MaxFrameSize_def)

text \<open>
  Frames the proxy keeps to itself. A frame on a channel that nobody owns reaches no client: on a
  closing channel a \<open>CloseOk\<close> frees the slot and everything else is dropped, and on a free channel
  it is dropped. A heartbeat is answered with a heartbeat at the end of the write queue, unless
  the upstream is stopped, reconnecting or its queue is full.
\<close>

theorem readLoop_consumes:
  assumes "slots_ok (mu w)"
  shows "(Type f \<noteq> FrameTypeHeartbeat \<and> Channel f \<noteq> 0 \<and> (\<forall>x c. slot_of (mu w) (Channel f) \<noteq> Owned x c) \<longrightarrow>
      (\<exists>m. readLoop_dispatch w f = [w\<lparr>mu := m\<rparr>] \<and>
         slot_of m = (if isChannelCloseOk f then (slot_of (mu w))(Channel f := Free) else slot_of (mu w)))) \<and>
    (Type f = FrameTypeHeartbeat \<and> \<not> stopped (mu w) \<and> \<not> reconnecting (mu w) \<and>
      length (writeCh (mu w)) < writeCh_cap \<and> writeDone (mu w) \<notin> doneClosed (mu w) \<longrightarrow>
      readLoop_dispatch w f = [w\<lparr>mu := (mu w)\<lparr>writeCh := writeCh (mu w) @ [heartbeat]\<rparr>\<rparr>])"
proof (intro conjI impI)
  assume a: "Type f \<noteq> FrameTypeHeartbeat \<and> Channel f \<noteq> 0 \<and> (\<forall>x c. slot_of (mu w) (Channel f) \<noteq> Owned x c)"
  obtain e m where e: "closeOkReceived (mu w) (Channel f) = (e, m)" by (cases "closeOkReceived (mu w) (Channel f)")
  have "e = None" "slot_of m = (slot_of (mu w))(Channel f := Free)"
    using e a upstream_slots.closed_entry [OF assms, of "Channel f"]
      upstream_slots.closed_slot [OF assms, of "Channel f"] by (auto split: slot.splits)
  moreover have "channelOwners (mu w) (Channel f) = None"
    using a by (cases "channelOwners (mu w) (Channel f)") (auto simp: slot_of_def)
  moreover have "w\<lparr>mu := mu w\<rparr> = w" by simp
  ultimately show "\<exists>m. readLoop_dispatch w f = [w\<lparr>mu := m\<rparr>] \<and>
      slot_of m = (if isChannelCloseOk f then (slot_of (mu w))(Channel f := Free) else slot_of (mu w))"
    using a e by (cases "isChannelCloseOk f") (force simp: readLoop_dispatch_def)+
qed (simp add: readLoop_dispatch_def writeFrameToUpstream_def)

theorem readLoop_consumes_witness:
  "readLoop_dispatch (world_ex []) heartbeat =
     [(world_ex [])\<lparr>mu := (mu (world_ex []))\<lparr>writeCh := [heartbeat]\<rparr>\<rparr>]"
proof -
  have "writeDone (mu (world_ex [])) \<notin> doneClosed (mu (world_ex []))"
    by (simp add: world_ex_def mu_ex_def newManagedUpstream_def)
  with readLoop_consumes [of "world_ex []" heartbeat] show ?thesis by (simp add: heartbeat_def writeCh_cap_def)
qed

text \<open>
  A frame on channel 0 (the broker closes the connection, say) is sent to every
  registered client whose connection is up, and every registered client is disconnected;
  nobody else is touched.
\<close>

theorem readLoop_broadcast:
  assumes "Type f \<noteq> FrameTypeHeartbeat" "Channel f = 0" "distinct (clients (mu w))" "frame_ok f"
  shows "\<exists>w'. readLoop_dispatch w f = [w'] \<and> mu w' = mu w \<and>
    (\<forall>x. if x \<in> set (clients (mu w))
         then closed (wr (Writer (ccs w' x))) \<and>
           (live_bufio (Writer (ccs w x)) \<longrightarrow>
            sent (wr (Writer (ccs w' x))) = accepted (Writer (ccs w x)) @ frame_bytes f)
         else ccs w' x = ccs w x)"
  using assms DeliverFrame_sent [OF _ assms(4)]
  by (simp add: readLoop_dispatch_def broadcast_member broadcast_other)

theorem readLoop_broadcast_witness:
  "\<exists>w'. readLoop_dispatch (world_ex []) (method_frame (serializeConnectionClose 320 ''bye'')) = [w'] \<and>
     closed (wr (Writer (ccs w' 7)))"
  using readLoop_broadcast [of "method_frame (serializeConnectionClose 320 ''bye'')" "world_ex []"]
  by (force simp: frame_ok_def MaxFrameSize_def serializeConnectionClose_def serializeShortString_def)

text \<open>
  The end of the connection. When reading fails on an upstream that is neither stopped nor
  reconnecting already, \<open>readLoop\<close> returns, and exactly this call launches the reconnect: the flag
  is set, the broker connection closed and every registered client disconnected. When another
  goroutine has set the flag before, it returns and changes nothing but its own reader.
\<close>

theorem readLoop_failure:
  assumes "conn (mu w) = Some a" "ParseFrame (uc_Reader (conns w a)) = (Inl e, r)" "\<not> stopped (mu w)"
  shows "\<exists>w'. readLoop_turn w = [Return w' (\<not> reconnecting (mu w))] \<and> reconnecting (mu w') \<and>
    (if reconnecting (mu w) then mu w' = mu w \<and> ccs w' = ccs w
     else closed (wr (uc_Writer (conns w' a))) \<and>
       (\<forall>x. ccs w' x = (if x \<in> set (clients (mu w)) then Abort (ccs w x) else ccs w x)) \<and>
       (\<forall>u. slot_of (mu w') u = slot_of (mu w) u))"
proof -
  have "slot_of ((mu w)\<lparr>reconnecting := True\<rparr>) u = slot_of (mu w) u" for u by (simp add: slot_of_def)
  with assms show ?thesis
    by (simp add: readLoop_turn_def Let_def handleUpstreamFailure_def AbortAllClients_apply
        closeUpstream_def Conn_Close_def)
qed

theorem readLoop_failure_witness:
  "\<exists>w'. readLoop_turn (world_ex []) = [Return w' True] \<and> reconnecting (mu w') \<and>
     closed (wr (uc_Writer (conns w' 0)))"
  using readLoop_failure [of "world_ex []" 0 EOF "\<lparr>rdata = [], rend = EOF\<rparr>"] by auto

text \<open>
  (C12) A whole connection. The broker sends any frames that fit the frame size (heartbeats, frames
  on channel 0, \<open>Channel.CloseOk\<close>s and frames on owned, closing or free channels, in any order) and
  then its stream ends; the upstream is neither stopped nor reconnecting at the start, and its write
  queue has room for one answer to each heartbeat. Then \<open>readLoop\<close> can run to its end, and every
  run of it ends with the reconnect launched and has sent to every client \<open>x\<close> whose connection works
  exactly the frames of \<open>delivered\<close>: those of the channels it owns, under its own numbers and in
  the broker's order, up to the \<open>Channel.CloseOk\<close> of each, and, if it is registered, the first frame
  on channel 0, after which it gets nothing more. No other operation comes between the turns here.
\<close>

theorem readLoop_stream:
  assumes "conn (mu w) = Some a" "\<not> stopped (mu w)" "\<not> reconnecting (mu w)" "slots_ok (mu w)"
    and "list_all frame_ok fs"
    and "uc_Reader (conns w a) = \<lparr>rdata = concat (map frame_bytes fs), rend = e\<rparr>"
    and "length (writeCh (mu w)) + heartbeats fs \<le> writeCh_cap"
    and "live_bufio (Writer (ccs w x))" "buf (Writer (ccs w x)) = []"
  shows "(\<exists>w' b. readLoop w w' b) \<and>
    (\<forall>w' b. readLoop w w' b \<longrightarrow> b \<and> reconnecting (mu w') \<and>
       sent (wr (Writer (ccs w' x))) = sent (wr (Writer (ccs w x))) @
         concat (map frame_bytes (delivered (x \<in> set (clients (mu w))) (slot_of (mu w)) x fs)))"
proof -
  have r: "reading w a fs e" "ready_client (ccs w x)" using assms by (simp_all add: reading_def ready_client_def)
  from readLoop_exists [OF r(1) assms(7)] readLoop_ready [OF _ r] show ?thesis unfolding sent_to_def by blast
qed

theorem readLoop_stream_witness:
  "let ok = \<lparr>Type = 1, Channel = 5, Payload = [0, 20, 0, 41]\<rparr>;
       fs = [\<lparr>Type = 3, Channel = 5, Payload = [1]\<rparr>, heartbeat, \<lparr>Type = 3, Channel = 6, Payload = [2]\<rparr>, ok,
             \<lparr>Type = 3, Channel = 5, Payload = [3]\<rparr>, \<lparr>Type = 1, Channel = 0, Payload = [0, 10, 0, 50]\<rparr>,
             \<lparr>Type = 3, Channel = 6, Payload = [4]\<rparr>]
   in \<exists>w'. readLoop (world_ex (concat (map frame_bytes fs))) w' True \<and>
        sent (wr (Writer (ccs w' 1))) =
          frame_bytes \<lparr>Type = 3, Channel = 2, Payload = [1]\<rparr> @
          frame_bytes (ok\<lparr>Channel := 2\<rparr>) @ frame_bytes \<lparr>Type = 1, Channel = 0, Payload = [0, 10, 0, 50]\<rparr>"
proof -
  define ok :: Frame where "ok = \<lparr>Type = 1, Channel = 5, Payload = [0, 20, 0, 41]\<rparr>"
  define fs :: "Frame list" where "fs = [\<lparr>Type = 3, Channel = 5, Payload = [1]\<rparr>, heartbeat,
    \<lparr>Type = 3, Channel = 6, Payload = [2]\<rparr>, ok, \<lparr>Type = 3, Channel = 5, Payload = [3]\<rparr>,
    \<lparr>Type = 1, Channel = 0, Payload = [0, 10, 0, 50]\<rparr>, \<lparr>Type = 3, Channel = 6, Payload = [4]\<rparr>]"
  define w where "w = world_ex (concat (map frame_bytes fs))"
  have "list_all frame_ok fs" "heartbeats fs \<le> writeCh_cap"
    by (simp_all add: fs_def ok_def heartbeat_def heartbeats_def writeCh_cap_def frame_ok_def MaxFrameSize_def)
  note ok = this
  have w: "sent (wr (Writer (ccs w 1))) = []" "buf (Writer (ccs w 1)) = []" "(1 \<in> set (clients (mu w))) = True"
    using world_ex_live(2) [of _ 1] by (simp_all add: w_def accepted_def)
  have "(\<exists>w' b. readLoop w w' b) \<and> (\<forall>w' b. readLoop w w' b \<longrightarrow> b \<and> reconnecting (mu w') \<and>
       sent (wr (Writer (ccs w' 1))) = concat (map frame_bytes (delivered True (slot_of (mu w)) 1 fs)))"
    using readLoop_stream [of w 0 fs EOF 1, unfolded w append_Nil] ok unfolding w_def by (simp, blast)
  then have "\<exists>w'. readLoop w w' True \<and> sent (wr (Writer (ccs w' 1))) =
      concat (map frame_bytes (delivered True (slot_of (mu w)) 1 fs))" by (metis (full_types))
  moreover have "delivered True (slot_of (mu w)) 1 fs = [\<lparr>Type = 3, Channel = 2, Payload = [1]\<rparr>,
      ok\<lparr>Channel := 2\<rparr>, \<lparr>Type = 1, Channel = 0, Payload = [0, 10, 0, 50]\<rparr>]"
    by (simp add: fs_def ok_def heartbeat_def isChannelCloseOk_def w_def)
  ultimately show ?thesis unfolding Let_def ok_def [symmetric] fs_def [symmetric] w_def [symmetric] by simp
qed

end
