(* ===== verification/Reconnect.thy ===== *)
theory Reconnect
  imports Read_Loop
begin

text \<open>
  \<open>proxy/managed_upstream.go\<close>, the goroutines \<open>writePump\<close> and \<open>reconnectLoop\<close>, and \<open>Start\<close>. The
  pump is the only writer to the broker connection: it takes the queued frames in batches and
  flushes once per batch. The reconnect loop dials with exponential backoff, resets the channel
  table, replaces the pump and clears the flag \<open>reconnecting\<close>.

  Dialling is a parameter: the results of the successive calls of \<open>dialFn\<close> are given as a list,
  and a run that has used up the list is still waiting. Waiting for the old pump
  (\<open>pumpWg.Wait\<close>) leaves the state unchanged and has no counterpart. Durations are nanoseconds; they stay
  below twice the larger of 30 s and \<open>reconnectBase\<close>, far from the range of \<open>int64\<close>.
\<close>

section \<open>The write pump\<close>

text \<open>The drain loop on the frames queued at this moment.\<close>

fun pump_drain :: "bufio_writer \<Rightarrow> Frame list \<Rightarrow> go_error option \<times> bufio_writer \<times> Frame list" where
  "pump_drain b [] = (None, b, [])"
| "pump_drain b (next # q) =
     (case WriteFrame bufio_Write b next of
        (Some err, b') \<Rightarrow> (Some err, b', q)
      | (None, b') \<Rightarrow> pump_drain b' q)"

definition set_pump :: "world \<Rightarrow> nat \<Rightarrow> bufio_writer \<Rightarrow> Frame list \<Rightarrow> world" where
  "set_pump w a b q =
     w\<lparr>mu := (mu w)\<lparr>writeCh := q\<rparr>, conns := (conns w)(a := (conns w a)\<lparr>uc_Writer := b\<rparr>)\<rparr>"

definition pump_failed :: "world \<Rightarrow> turn" where
  "pump_failed w =
     (if \<not> stopped (mu w) then (case handleUpstreamFailure w of (b, w') \<Rightarrow> Return w' b)
      else Return w False)"

text \<open>One turn of the pump that writes to connection \<open>a\<close> and stops on channel \<open>d\<close>.\<close>

definition writePump_turn :: "nat \<Rightarrow> nat \<Rightarrow> world \<Rightarrow> turn list" where
  "writePump_turn a d w =
     (case writeCh (mu w) of
        [] \<Rightarrow> []
      | frame # q \<Rightarrow>
          [case WriteFrame bufio_Write (uc_Writer (conns w a)) frame of
             (Some err, b) \<Rightarrow> pump_failed (set_pump w a b q)
           | (None, b) \<Rightarrow>
               (case pump_drain b q of
                  (Some err, b, q) \<Rightarrow> pump_failed (set_pump w a b q)
                | (None, b, q) \<Rightarrow>
                    (case Flush b of
                       (Some err, b) \<Rightarrow> pump_failed (set_pump w a b q)
                     | (None, b) \<Rightarrow> Again (set_pump w a b q)))]) @
     (if d \<in> doneClosed (mu w) then [Return w False] else [])"

text \<open>\<open>Start\<close>: the connection is set; the pump gets it together with the current stop channel.\<close>

definition Start :: "world \<Rightarrow> nat \<Rightarrow> world \<times> (nat \<times> nat)" where
  "Start w a = (w\<lparr>mu := (mu w)\<lparr>conn := Some a\<rparr>\<rparr>, (a, writeDone (mu w)))"

section \<open>The reconnect loop\<close>

definition maxWait :: int where
  "maxWait = 30 * 1000000000"

definition initialWait :: "ManagedUpstream \<Rightarrow> int" where
  "initialWait m = (if reconnectBase m = 0 then 500 * 1000000 else reconnectBase m)"

definition nextWait :: "int \<Rightarrow> int" where
  "nextWait wait = (if wait * 2 > maxWait then maxWait else wait * 2)"

datatype reconnect_result =
    Stopped world
  | Waiting world int
  | Reconnected world "nat \<times> nat"
  | Panic world

text \<open>
  What follows a successful dial: the reset under the lock, the exchange of the stop channel
  (\<open>d\<close> is the new one), the close of the old one, which panics when it is closed already, the
  drain of the queue, and the end of the reconnect with a new pump.
\<close>

definition resetState :: "ManagedUpstream \<Rightarrow> nat \<Rightarrow> int \<Rightarrow> ManagedUpstream" where
  "resetState m a now =
     m\<lparr>conn := Some a, usedChannels := {}, channelOwners := Map.empty, pendingClose := {},
       nextHint := 1, clients := [], lastEmptyTime := Some now\<rparr>"

definition installConn :: "world \<Rightarrow> nat \<Rightarrow> nat \<Rightarrow> int \<Rightarrow> reconnect_result" where
  "installConn w a d now =
     (let m = resetState (mu w) a now;
          oldDone = writeDone m;
          m = m\<lparr>writeDone := d\<rparr>
      in if oldDone \<in> doneClosed m then Panic (w\<lparr>mu := m\<rparr>)
         else let m = m\<lparr>doneClosed := insert oldDone (doneClosed m)\<rparr>;
                  m = m\<lparr>writeCh := []\<rparr>;
                  m = m\<lparr>reconnecting := False\<rparr>
              in Reconnected (w\<lparr>mu := m\<rparr>) (a, d))"

text \<open>
  The loop on the results of its dials: each is an error or a connection, with the address it
  gets in the store, the new stop channel and the time.
\<close>

fun reconnect_from ::
    "world \<Rightarrow> int \<Rightarrow> (go_error + (UpstreamConn \<times> nat \<times> nat \<times> int)) list \<Rightarrow> reconnect_result" where
  "reconnect_from w wait dials =
     (if stopped (mu w) then Stopped w
      else let w = w\<lparr>mu := (mu w)\<lparr>reconnectTotal := reconnectTotal (mu w) + 1\<rparr>\<rparr>
           in case dials of
                [] \<Rightarrow> Waiting w wait
              | Inl err # dials \<Rightarrow> reconnect_from w (nextWait wait) dials
              | Inr (c, a, d, now) # dials \<Rightarrow> installConn (w\<lparr>conns := (conns w)(a := c)\<rparr>) a d now)"

declare reconnect_from.simps [simp del]

definition reconnectLoop ::
    "world \<Rightarrow> (go_error + (UpstreamConn \<times> nat \<times> nat \<times> int)) list \<Rightarrow> reconnect_result" where
  "reconnectLoop w dials = reconnect_from w (initialWait (mu w)) dials"

section \<open>Lemmas on the pump\<close>

lemma pump_drain_live:
  assumes "live_bufio b" "list_all frame_ok q"
  shows "\<exists>b'. pump_drain b q = (None, b', []) \<and> live_bufio b' \<and>
    accepted b' = accepted b @ concat (map frame_bytes q)"
  using assms
proof (induction q arbitrary: b)
  case Nil
  then show ?case by simp
next
  case (Cons f q)
  then obtain b1 where b1: "WriteFrame bufio_Write b f = (None, b1)" "live_bufio b1"
    using live_buffered.WriteFrame_live by fastforce
  moreover have "accepted b1 = accepted b @ frame_bytes f"
    using buffered.WriteFrame_ok [OF b1(1)] by simp
  ultimately show ?case using Cons.IH [OF b1(2)] Cons.prems(2) by auto
qed

lemma Flush_live_sent: "live_bufio b \<Longrightarrow> \<exists>b'. Flush b = (None, b') \<and> live_bufio b' \<and> buf b' = [] \<and> sent (wr b') = accepted b"
  using Flush_live Flush_ok by blast

text \<open>A failing turn has handed on a prefix of what was queued.\<close>

lemma pump_drain_prefix:
  "pump_drain b q = (r, b', q') \<Longrightarrow>
   \<exists>k\<le>length (concat (map frame_bytes q)). accepted b' = accepted b @ take k (concat (map frame_bytes q))"
proof (induction q arbitrary: b)
  case Nil
  then show ?case by simp
next
  case (Cons f q)
  show ?case
  proof (cases "WriteFrame bufio_Write b f")
    case (Pair e b1)
    show ?thesis
    proof (cases e)
      case (Some x)
      with Cons.prems Pair have "b' = b1" by simp
      moreover obtain k where "k \<le> length (frame_bytes f)" "accepted b1 = accepted b @ take k (frame_bytes f)"
        using buffered.WriteFrame_prefix [of f b] Pair by auto
      ultimately show ?thesis by (intro exI [of _ k]) simp
    next
      case None
      then have a: "accepted b1 = accepted b @ frame_bytes f"
        using buffered.WriteFrame_ok [of b f b1] Pair by simp
      from Cons.IH [of b1] Cons.prems Pair None obtain k where
        "k \<le> length (concat (map frame_bytes q))" "accepted b' = accepted b1 @ take k (concat (map frame_bytes q))"
        by auto
      with a show ?thesis by (intro exI [of _ "length (frame_bytes f) + k"]) simp
    qed
  qed
qed

fun turn_world :: "turn \<Rightarrow> world" where
  "turn_world (Again w) = w"
| "turn_world (Return w b) = w"

lemma accepted_closeUpstream [simp]:
  "accepted (uc_Writer (closeUpstream h c a)) = accepted (uc_Writer (h a))"
  by (simp add: closeUpstream_def accepted_def Conn_Close_def split: option.splits)

lemma pump_failed_accepted [simp]:
  "accepted (uc_Writer (conns (turn_world (pump_failed w)) a)) = accepted (uc_Writer (conns w a))"
  by (simp add: pump_failed_def handleUpstreamFailure_def)

lemma set_pump_accepted [simp]: "accepted (uc_Writer (conns (set_pump w a b q) a)) = accepted b"
  by (simp add: set_pump_def)

text \<open>The turn that takes frames is a drain of the whole queue followed by a flush.\<close>

lemma pump_batch:
  assumes "writeCh (mu w) = f # q" "t \<in> set (writePump_turn a d w)"
  shows "t = Return w False \<or> (\<exists>r b q'. pump_drain (uc_Writer (conns w a)) (f # q) = (r, b, q') \<and>
    accepted (uc_Writer (conns (turn_world t) a)) = accepted b)"
proof -
  have "accepted b = accepted b'" if "Flush b = (e, b')" for b e b'
    using Flush_accepted [of b] that by simp
  with assms show ?thesis
    by (fastforce simp: writePump_turn_def split: prod.splits option.splits if_splits)
qed

text \<open>A turn on a connection that is up.\<close>

lemma pump_turn_live:
  assumes "live_bufio (uc_Writer (conns w a))" "list_all frame_ok (writeCh (mu w))" "writeCh (mu w) \<noteq> []"
    and "d \<notin> doneClosed (mu w)"
  shows "\<exists>w'. writePump_turn a d w = [Again w'] \<and> writeCh (mu w') = [] \<and>
    live_bufio (uc_Writer (conns w' a)) \<and> buf (uc_Writer (conns w' a)) = [] \<and>
    sent (wr (uc_Writer (conns w' a))) =
      accepted (uc_Writer (conns w a)) @ concat (map frame_bytes (writeCh (mu w)))"
proof -
  from assms(3) obtain f q where q: "writeCh (mu w) = f # q" by (cases "writeCh (mu w)") auto
  from pump_drain_live [OF assms(1,2)] obtain b where
    b: "pump_drain (uc_Writer (conns w a)) (f # q) = (None, b, [])" "live_bufio b"
       "accepted b = accepted (uc_Writer (conns w a)) @ concat (map frame_bytes (f # q))"
    by (auto simp: q)
  then obtain b1 where b1: "WriteFrame bufio_Write (uc_Writer (conns w a)) f = (None, b1)" "pump_drain b1 q = (None, b, [])"
    by (auto split: prod.splits option.splits)
  from Flush_live_sent [OF b(2)] obtain b2 where
    "Flush b = (None, b2)" "live_bufio b2" "buf b2 = []" "sent (wr b2) = accepted b" by blast
  with b1 b(3) q assms(4) show ?thesis by (simp add: writePump_turn_def set_pump_def)
qed

section \<open>Lemmas on the reconnect loop\<close>

definition bump :: "world \<Rightarrow> nat \<Rightarrow> world" where
  "bump w n = w\<lparr>mu := (mu w)\<lparr>reconnectTotal := reconnectTotal (mu w) + int n\<rparr>\<rparr>"

lemma bump_simps [simp]:
  "stopped (mu (bump w n)) = stopped (mu w)" "bump (bump w n) k = bump w (n + k)" "bump w 0 = w"
  "reconnectBase (mu (bump w n)) = reconnectBase (mu w)"
  "reconnectTotal (mu (bump w n)) = reconnectTotal (mu w) + int n"
  "writeDone (mu (bump w n)) = writeDone (mu w)" "doneClosed (mu (bump w n)) = doneClosed (mu w)"
  "ccs (bump w n) = ccs w" "conns (bump w n) = conns w" "maxChannels (mu (bump w n)) = maxChannels (mu w)"
  by (simp_all add: bump_def)

lemma reconnect_from_unfold:
  "reconnect_from w wait dials =
     (if stopped (mu w) then Stopped w
      else case dials of
             [] \<Rightarrow> Waiting (bump w 1) wait
           | Inl err # dials \<Rightarrow> reconnect_from (bump w 1) (nextWait wait) dials
           | Inr (c, a, d, now) # dials \<Rightarrow>
               installConn ((bump w 1)\<lparr>conns := (conns w)(a := c)\<rparr>) a d now)"
  by (subst reconnect_from.simps) (simp add: bump_def split: list.splits sum.splits)

lemma reconnect_from_errors:
  assumes "\<not> stopped (mu w)"
  shows "reconnect_from w wait (map Inl errs @ rest) =
    reconnect_from (bump w (length errs)) ((nextWait ^^ length errs) wait) rest"
  using assms
proof (induction errs arbitrary: w wait)
  case Nil
  then show ?case by simp
next
  case (Cons e errs)
  then have "reconnect_from w wait (map Inl (e # errs) @ rest) =
      reconnect_from (bump w 1) (nextWait wait) (map Inl errs @ rest)"
    by (simp add: reconnect_from_unfold [of w wait])
  with Cons.IH [of "bump w 1" "nextWait wait"] Cons.prems show ?case
    by (simp add: funpow_swap1 [symmetric])
qed

lemma nextWait_iterate:
  assumes "0 < wait" "wait \<le> maxWait"
  shows "(nextWait ^^ n) wait = min maxWait (wait * 2 ^ n)"
proof (induction n)
  case 0
  with assms show ?case by simp
next
  case (Suc n)
  show ?case
  proof (cases "wait * 2 ^ n \<le> maxWait")
    case True
    with Suc show ?thesis by (simp add: nextWait_def min_def algebra_simps)
  next
    case False
    then have "maxWait \<le> wait * 2 ^ Suc n" using assms by simp
    with False Suc assms show ?thesis by (simp add: nextWait_def min_def)
  qed
qed

section \<open>Properties\<close>

text \<open>
  (C22) The pump is a queue to the broker. On a connection that is up, one turn writes every
  queued frame, whole and in the order of the queue, after whatever was written before,
  flushes, and leaves the queue empty and the connection usable.
\<close>

theorem writePump_fifo:
  assumes "live_bufio (uc_Writer (conns w a))" "list_all frame_ok (writeCh (mu w))" "writeCh (mu w) \<noteq> []"
    and "d \<notin> doneClosed (mu w)"
  shows "\<exists>w'. writePump_turn a d w = [Again w'] \<and> writeCh (mu w') = [] \<and>
    live_bufio (uc_Writer (conns w' a)) \<and>
    sent (wr (uc_Writer (conns w' a))) =
      accepted (uc_Writer (conns w a)) @ concat (map frame_bytes (writeCh (mu w)))"
  using pump_turn_live [OF assms] by blast

theorem writePump_fifo_witness:
  "let w = (world_ex [])\<lparr>mu := (mu (world_ex []))\<lparr>writeCh := [heartbeat, method_frame [0, 20, 0, 10, 0]]\<rparr>\<rparr>
   in \<exists>w'. writePump_turn 0 0 w = [Again w'] \<and>
        sent (wr (uc_Writer (conns w' 0))) = frame_bytes heartbeat @ frame_bytes (method_frame [0, 20, 0, 10, 0])"
proof -
  define w where "w = (world_ex [])\<lparr>mu := (mu (world_ex []))\<lparr>writeCh := [heartbeat, method_frame [0, 20, 0, 10, 0]]\<rparr>\<rparr>"
  have "live_bufio (uc_Writer (conns w 0))" "accepted (uc_Writer (conns w 0)) = []" "0 \<notin> doneClosed (mu w)"
    "writeCh (mu w) = [heartbeat, method_frame [0, 20, 0, 10, 0]]"
    by (simp_all add: w_def world_ex_def live_bufio_def live_conn_def NewWriter_def new_conn_def accepted_def
        mu_ex_def newManagedUpstream_def)
  with writePump_fifo [of w 0 0] have "\<exists>w'. writePump_turn 0 0 w = [Again w'] \<and>
        sent (wr (uc_Writer (conns w' 0))) = frame_bytes heartbeat @ frame_bytes (method_frame [0, 20, 0, 10, 0])"
    by (auto simp: frame_ok_def MaxFrameSize_def heartbeat_def)
  then show ?thesis unfolding w_def by (simp only: Let_def)
qed

text \<open>
  (C38) Backoff. After \<open>n\<close> failed dials the loop waits \<open>base * 2 ^ n\<close> before the next one, at most 30
  seconds, where \<open>base\<close> is 500 ms unless configured, and it has counted \<open>n + 1\<close> attempts.
\<close>

theorem reconnect_backoff:
  assumes "\<not> stopped (mu w)" "0 \<le> reconnectBase (mu w)" "reconnectBase (mu w) \<le> maxWait"
  shows "\<exists>w'. reconnectLoop w (map Inl errs) =
      Waiting w' (min maxWait (initialWait (mu w) * 2 ^ length errs)) \<and>
    reconnectTotal (mu w') = reconnectTotal (mu w) + int (length errs) + 1"
proof -
  have "0 < initialWait (mu w)" "initialWait (mu w) \<le> maxWait"
    using assms by (auto simp: initialWait_def maxWait_def)
  from nextWait_iterate [OF this, of "length errs"] assms(1) show ?thesis
    using reconnect_from_errors [of w "initialWait (mu w)" errs "[]"]
    by (simp add: reconnectLoop_def reconnect_from_unfold [of _ _ "[]"])
qed

theorem reconnect_backoff_witness:
  "\<exists>w'. reconnectLoop (world_ex []) [Inl EOF, Inl EOF, Inl EOF] = Waiting w' 4000000000"
  using reconnect_backoff [of "world_ex []" "[EOF, EOF, EOF]"]
  by (auto simp: initialWait_def maxWait_def world_ex_def mu_ex_def newManagedUpstream_def)

text \<open>
  Whatever happens to the connection, a turn of the pump adds to what was written to the broker
  only a prefix of the encodings of the queued frames, in their order: nothing is reordered,
  duplicated or made up, and a frame can be cut short only at the very end.
\<close>

theorem writePump_prefix:
  assumes "t \<in> set (writePump_turn a d w)"
  shows "\<exists>k\<le>length (concat (map frame_bytes (writeCh (mu w)))).
    accepted (uc_Writer (conns (turn_world t) a)) =
      accepted (uc_Writer (conns w a)) @ take k (concat (map frame_bytes (writeCh (mu w))))"
proof (cases "writeCh (mu w)")
  case Nil
  with assms show ?thesis by (auto simp: writePump_turn_def split: if_splits)
next
  case (Cons f q)
  from pump_batch [OF Cons assms] show ?thesis
  proof
    assume "t = Return w False"
    then show ?thesis by (intro exI [of _ 0]) simp
  next
    assume "\<exists>r b q'. pump_drain (uc_Writer (conns w a)) (f # q) = (r, b, q') \<and>
      accepted (uc_Writer (conns (turn_world t) a)) = accepted b"
    with pump_drain_prefix [of "uc_Writer (conns w a)" "f # q"] show ?thesis
      by (fastforce simp only: Cons)
  qed
qed

theorem writePump_prefix_witness:
  "let w = (world_ex [])\<lparr>mu := (mu (world_ex []))\<lparr>doneClosed := {0}\<rparr>\<rparr>
   in accepted (uc_Writer (conns (turn_world (Return w False)) 0)) = accepted (uc_Writer (conns w 0))"
proof -
  define w where "w = (world_ex [])\<lparr>mu := (mu (world_ex []))\<lparr>doneClosed := {0}\<rparr>\<rparr>"
  have "Return w False \<in> set (writePump_turn 0 0 w)" by (simp add: writePump_turn_def w_def)
  from writePump_prefix [OF this] have "accepted (uc_Writer (conns (turn_world (Return w False)) 0)) = accepted (uc_Writer (conns w 0))"
    by (simp add: w_def)
  then show ?thesis unfolding w_def by (simp only: Let_def)
qed

text \<open>
  (C17) A reconnect. After any number of failed dials and one that succeeds, on an upstream that is
  not being stopped, the loop ends with the new connection in place, every slot free, no client
  registered, the write queue empty, the old pump's stop channel closed and a new pump started
  on the new connection with a stop channel of its own; the upstream accepts
  clients again (unless its limit is 0).
\<close>

theorem reconnect_resets:
  assumes "\<not> stopped (mu w)" "writeDone (mu w) \<notin> doneClosed (mu w)" "d \<notin> insert (writeDone (mu w)) (doneClosed (mu w))"
  shows "\<exists>w'. reconnectLoop w (map Inl errs @ [Inr (c, a, d, now)]) = Reconnected w' (a, d) \<and>
    conn (mu w') = Some a \<and> conns w' a = c \<and> (\<forall>u. slot_of (mu w') u = Free) \<and>
    slots_ok (mu w') \<and> chans_bounded (mu w') \<and> clients (mu w') = [] \<and> writeCh (mu w') = [] \<and>
    writeDone (mu w) \<in> doneClosed (mu w') \<and> writeDone (mu w') = d \<and> d \<notin> doneClosed (mu w') \<and>
    \<not> reconnecting (mu w') \<and> (HasCapacity (mu w') \<longleftrightarrow> maxChannels (mu w) \<noteq> 0)"
  using assms reconnect_from_errors [OF assms(1), of "initialWait (mu w)" errs "[Inr (c, a, d, now)]"]
  by (simp add: reconnectLoop_def reconnect_from_unfold [of "bump w n" for n] installConn_def resetState_def Let_def
      slot_of_def slots_ok_def chans_bounded_def HasCapacity_def word_gt_0)

theorem reconnect_resets_witness:
  "\<exists>w'. reconnectLoop (world_ex []) [Inl EOF, Inr (conns (world_ex []) 0, 1, 1, 0)] = Reconnected w' (1, 1) \<and>
     slot_of (mu w') 5 = Free"
  using reconnect_resets [of "world_ex []" 1 "[EOF]" "conns (world_ex []) 0" 1 0]
  by (auto simp: world_ex_def mu_ex_def newManagedUpstream_def)

end
