(* ===== verification/Client_Loop.thy ===== *)
theory Client_Loop
  imports Reconnect
begin

text \<open>
  \<open>proxy/proxy.go\<close>, what concerns one attached client: the body of the loop of
  \<open>handleConnection\<close>, which forwards the client's frames to the shared upstream, and
  \<open>releaseClientChannels\<close>, which cleans up after it. Both act on a \<open>world\<close>, the state shared
  with \<open>readLoop\<close>; the client is its address \<open>x\<close> in the store \<open>ccs\<close>.

  The invariant \<open>routes_ok\<close> ties the maps of the clients to the slot table of the upstream: client
  \<open>x\<close> maps its channel \<open>c\<close> to \<open>u\<close> exactly when slot \<open>u\<close> is owned by channel \<open>c\<close> of \<open>x\<close>.
\<close>

section \<open>Operations\<close>

datatype client_turn = Next world | Leave world

text \<open>The part of the loop body for \<open>Channel.Open\<close>: allocate a channel and map it.\<close>

definition openChannel :: "world \<Rightarrow> nat \<Rightarrow> Frame \<Rightarrow> (go_error option \<times> world) option" where
  "openChannel w x frame =
     (case AllocateChannel (mu w) (Channel frame) x of
        None \<Rightarrow> None
      | Some (Inl err, m) \<Rightarrow> Some (Some err, w\<lparr>mu := m\<rparr>)
      | Some (Inr upstreamID, m) \<Rightarrow>
          Some (None, w\<lparr>mu := m,
            ccs := (ccs w)(x := MapChannel (ccs w x) (Channel frame) upstreamID)\<rparr>))"

text \<open>The rest of the body: remap the channel, mark it, queue the frame, forget a closed channel.\<close>

definition remap :: "ClientConnection \<Rightarrow> Frame \<Rightarrow> Frame" where
  "remap cc frame =
     (case ChannelMapping cc (Channel frame) of
        Some upstreamChanID \<Rightarrow> frame\<lparr>Channel := upstreamChanID\<rparr>
      | None \<Rightarrow> frame)"

definition dropClientChannel :: "ClientConnection \<Rightarrow> u16 \<Rightarrow> ClientConnection" where
  "dropClientChannel cc c = cc\<lparr>ClientChannels := (ClientChannels cc)(c := None)\<rparr>"

definition forwardFrame :: "world \<Rightarrow> nat \<Rightarrow> Frame \<Rightarrow> world list" where
  "forwardFrame w x frame =
     (let remapped = remap (ccs w x) frame;
          cc = markChannelSafety frame (ccs w x);
          cc' = (if isChannelClose frame then dropClientChannel cc (Channel frame) else cc)
      in map (\<lambda>m. w\<lparr>mu := m, ccs := (ccs w)(x := cc')\<rparr>) (writeFrameToUpstream (mu w) remapped))"

text \<open>The loop body of \<open>handleConnection\<close> on a frame of client \<open>x\<close>.\<close>

definition handleFrame :: "world \<Rightarrow> nat \<Rightarrow> Frame \<Rightarrow> client_turn list" where
  "handleFrame w x frame =
     (if Type frame = FrameTypeHeartbeat then [Next w]
      else if isConnectionClose frame
      then [Leave (w\<lparr>ccs := deliver (ccs w) x (method_frame (method_header 10 51))\<rparr>)]
      else if isChannelOpen frame
      then (case openChannel w x frame of
              None \<Rightarrow> []
            | Some (Some err, w) \<Rightarrow> [Leave w]
            | Some (None, w) \<Rightarrow> map Next (forwardFrame w x frame))
      else map Next (forwardFrame w x frame))"

text \<open>One turn of the loop, which leaves it when reading fails.\<close>

definition clientLoop_turn :: "world \<Rightarrow> nat \<Rightarrow> client_turn list" where
  "clientLoop_turn w x =
     (case ParseFrame (Reader (ccs w x)) of
        (Inl err, r) \<Rightarrow> [Leave (w\<lparr>ccs := (ccs w)(x := (ccs w x)\<lparr>Reader := r\<rparr>)\<rparr>)]
      | (Inr frame, r) \<Rightarrow> handleFrame (w\<lparr>ccs := (ccs w)(x := (ccs w x)\<lparr>Reader := r\<rparr>)\<rparr>) x frame)"

text \<open>
  \<open>releaseClientChannels\<close>: the body of its loop, and the loop over the entries of the snapshot of
  \<open>ChannelMapping\<close>, in the order in which Go happens to enumerate them.
\<close>

definition closeFrame :: "u16 \<Rightarrow> Frame" where
  "closeFrame u =
     \<lparr>Type = FrameTypeMethod, Channel = u,
      Payload = method_header 20 40 @ [0, 0] @ serializeShortString '''' @ [0, 0, 0, 0]\<rparr>"

definition releaseOne :: "world \<Rightarrow> nat \<Rightarrow> u16 \<times> u16 \<Rightarrow> world list" where
  "releaseOne w x entry =
     (case entry of
        (clientID, upstreamID) \<Rightarrow>
          (case ScheduleChannelCloseIfOwnedBy (mu w) upstreamID x of
             (scheduled, m) \<Rightarrow>
               map (\<lambda>m. w\<lparr>mu := m, ccs := (ccs w)(x := UnmapChannel (ccs w x) clientID)\<rparr>)
                 (if ClientChannels (ccs w x) clientID \<noteq> None
                  then (if scheduled then writeFrameToUpstream m (closeFrame upstreamID) else [m])
                  else [m])))"

fun releaseClientChannels :: "world \<Rightarrow> nat \<Rightarrow> (u16 \<times> u16) list \<Rightarrow> world list" where
  "releaseClientChannels w x [] = [w]"
| "releaseClientChannels w x (entry # entries) =
     concat (map (\<lambda>w. releaseClientChannels w x entries) (releaseOne w x entry))"

section \<open>The routing invariant\<close>

definition routes_ok :: "world \<Rightarrow> bool" where
  "routes_ok w \<longleftrightarrow>
     slots_ok (mu w) \<and> (\<forall>x. maps_ok (ccs w x)) \<and>
     (\<forall>x c u. ChannelMapping (ccs w x) c = Some u \<longleftrightarrow> slot_of (mu w) u = Owned x c)"

lemma routes_ok_slots: "routes_ok w \<Longrightarrow> slots_ok (mu w)"
  by (simp add: routes_ok_def)

lemma routes_ok_maps: "routes_ok w \<Longrightarrow> maps_ok (ccs w x)"
  by (simp add: routes_ok_def)

lemma routes_ok_iff: "routes_ok w \<Longrightarrow> ChannelMapping (ccs w x) c = Some u \<longleftrightarrow> slot_of (mu w) u = Owned x c"
  by (simp add: routes_ok_def)

text \<open>Only the slots and the maps matter.\<close>

lemma routes_ok_cong:
  assumes "routes_ok w" "slots_ok (mu w')" "slot_of (mu w') = slot_of (mu w)"
    and "\<And>x. maps_ok (ccs w' x)" "\<And>x. ChannelMapping (ccs w' x) = ChannelMapping (ccs w x)"
  shows "routes_ok w'"
  using assms by (simp add: routes_ok_def)

lemma maps_ok_DeliverFrame: "maps_ok cc \<Longrightarrow> maps_ok (snd (DeliverFrame cc f))"
  by (simp add: maps_ok_def)

lemma maps_ok_Abort: "maps_ok cc \<Longrightarrow> maps_ok (Abort cc)"
  by (simp add: maps_ok_def)

lemma maps_ok_drop: "maps_ok cc \<Longrightarrow> maps_ok (dropClientChannel cc c)"
  by (simp add: maps_ok_def dropClientChannel_def)

lemma dropClientChannel_maps [simp]:
  "ChannelMapping (dropClientChannel cc c) = ChannelMapping cc"
  "ReverseMapping (dropClientChannel cc c) = ReverseMapping cc"
  by (simp_all add: dropClientChannel_def)

text \<open>None of the bookkeeping touches the connection of the client.\<close>

lemma Writer_markChannelSafety [simp]: "Writer (markChannelSafety f cc) = Writer cc"
  by (simp add: markChannelSafety_def RecordChannelOperation_def split: option.splits)

lemma Writer_dropClientChannel [simp]: "Writer (dropClientChannel cc c) = Writer cc"
  by (simp add: dropClientChannel_def)

lemma Writer_MapChannel [simp]: "Writer (MapChannel cc c u) = Writer cc"
  by (simp add: MapChannel_def Let_def split: option.splits)

lemma Writer_UnmapChannel [simp]: "Writer (UnmapChannel cc c) = Writer cc"
  by (simp add: UnmapChannel_def split: option.splits)

text \<open>Opening a channel that the client has not mapped.\<close>

lemma openChannel_routes:
  assumes "routes_ok w" "openChannel w x f = Some (e, w')" "ChannelMapping (ccs w x) (Channel f) = None"
  shows "routes_ok w'"
proof -
  from assms(2) obtain r m where a: "AllocateChannel (mu w) (Channel f) x = Some (r, m)"
    by (auto simp: openChannel_def split: option.splits)
  show ?thesis
  proof (cases "reconnecting (mu w)")
    case True
    with assms a show ?thesis by (auto simp: openChannel_def AllocateChannel_def)
  next
    case False
    with a have al: "allocateLocked (mu w) (Channel f) x = Some (r, m)" by (simp add: AllocateChannel_def)
    show ?thesis
    proof (cases r)
      case (Inl err)
      from upstream_slots.alloc_Inl [OF routes_ok_slots [OF assms(1)] al [unfolded Inl]]
      show ?thesis using assms a Inl by (auto simp: openChannel_def routes_ok_def)
    next
      case (Inr u)
      note s = upstream_slots.alloc_Inr [OF routes_ok_slots [OF assms(1)] al [unfolded Inr]]
      have w': "w' = w\<lparr>mu := m, ccs := (ccs w)(x := MapChannel (ccs w x) (Channel f) u)\<rparr>"
        using assms(2) a Inr by (simp add: openChannel_def)
      have nomap: "ChannelMapping (ccs w y) c \<noteq> Some u" for y c
        using routes_ok_iff [OF assms(1), of y c u] s by simp
      then have rev: "ReverseMapping (ccs w x) u = None"
        using client_maps.rev_iff_fwd [OF routes_ok_maps [OF assms(1)], of x u]
        by (cases "ReverseMapping (ccs w x) u") auto
      have "maps_ok (MapChannel (ccs w x) (Channel f) u)"
        using maps_ok_MapChannel [OF routes_ok_maps [OF assms(1)] assms(3) rev] .
      moreover have "slot_of (mu w) v \<noteq> Owned x (Channel f)" for v
        using routes_ok_iff [OF assms(1), of x "Channel f" v] assms(3) by simp
      ultimately show ?thesis
        using assms(1) nomap s unfolding w' routes_ok_def by (auto simp: map_simps)
    qed
  qed
qed

text \<open>Forwarding changes no map and no slot.\<close>

lemma forwardFrame_routes:
  assumes "routes_ok w" "w' \<in> set (forwardFrame w x f)"
  shows "routes_ok w'"
proof (rule routes_ok_cong [OF assms(1)])
  from assms(2) obtain m cc where
    m: "m \<in> set (writeFrameToUpstream (mu w) (remap (ccs w x) f))" "w' = w\<lparr>mu := m, ccs := (ccs w)(x := cc)\<rparr>" and
    cc: "cc = (if isChannelClose f then dropClientChannel (markChannelSafety f (ccs w x)) (Channel f)
              else markChannelSafety f (ccs w x))"
    by (auto simp: forwardFrame_def Let_def)
  show "slots_ok (mu w')" "slot_of (mu w') = slot_of (mu w)"
    using writeFrameToUpstream_cases [OF m(1)] routes_ok_slots [OF assms(1)] m(2) by auto
  show "maps_ok (ccs w' y)" "ChannelMapping (ccs w' y) = ChannelMapping (ccs w y)" for y
    using routes_ok_maps [OF assms(1)] m(2) cc by (simp_all add: maps_ok_drop maps_ok_markChannelSafety)
qed

text \<open>A frame of the broker: \<open>Channel.CloseOk\<close> removes a slot and its mapping together.\<close>

lemma broadcast_maps:
  "maps_ok (cs x) \<Longrightarrow> maps_ok (foldl (deliverAbort f) cs xs x) \<and>
     ChannelMapping (foldl (deliverAbort f) cs xs x) = ChannelMapping (cs x)"
proof (induction xs arbitrary: cs)
  case (Cons y ys)
  have "maps_ok (deliverAbort f cs y x)"
    using Cons.prems unfolding deliverAbort_apply [of f cs y x]
    by (auto intro: maps_ok_Abort maps_ok_DeliverFrame)
  moreover have "ChannelMapping (deliverAbort f cs y x) = ChannelMapping (cs x)"
    unfolding deliverAbort_apply [of f cs y x] by simp
  ultimately show ?case using Cons.IH [of "deliverAbort f cs y"] by simp
qed simp

lemma dispatch_maps:
  assumes "w' \<in> set (readLoop_dispatch w f)" "slots_ok (mu w)" "\<And>x. maps_ok (ccs w x)"
  shows "maps_ok (ccs w' x) \<and>
    ChannelMapping (ccs w' x) =
      (if Type f \<noteq> FrameTypeHeartbeat \<and> Channel f \<noteq> 0 \<and> isChannelCloseOk f
       then (case slot_of (mu w) (Channel f) of
               Owned y c \<Rightarrow> if y = x then (ChannelMapping (ccs w x))(c := None) else ChannelMapping (ccs w x)
             | _ \<Rightarrow> ChannelMapping (ccs w x))
       else ChannelMapping (ccs w x))"
proof -
  consider (hb) "Type f = FrameTypeHeartbeat" | (zero) "Type f \<noteq> FrameTypeHeartbeat" "Channel f = 0"
    | (closeOk) "Type f \<noteq> FrameTypeHeartbeat" "Channel f \<noteq> 0" "isChannelCloseOk f"
    | (other) "Type f \<noteq> FrameTypeHeartbeat" "Channel f \<noteq> 0" "\<not> isChannelCloseOk f" by blast
  then show ?thesis
  proof cases
    case hb
    with assms show ?thesis by (auto simp: readLoop_dispatch_def)
  next
    case zero
    with assms broadcast_maps show ?thesis by (auto simp: readLoop_dispatch_def)
  next
    case closeOk
    have "fst (closeOkReceived (mu w) (Channel f)) = (case slot_of (mu w) (Channel f) of
        Owned y c \<Rightarrow> Some \<lparr>owner = y, clientChanID = c\<rparr> | _ \<Rightarrow> None)"
      using upstream_slots.closed_entry [OF assms(2)] .
    with closeOk assms(1,3) show ?thesis
      by (cases "closeOkReceived (mu w) (Channel f)"; cases "slot_of (mu w) (Channel f)")
         (auto simp: readLoop_dispatch_def Let_def deliver_def OnChannelClosed_def map_simps
           intro!: maps_ok_UnmapChannel maps_ok_DeliverFrame split: if_splits)
  next
    case other
    with assms show ?thesis
      by (auto simp: readLoop_dispatch_def deliver_def maps_ok_DeliverFrame split: option.splits)
  qed
qed

lemma dispatch_routes:
  assumes "routes_ok w" "w' \<in> set (readLoop_dispatch w f)"
  shows "routes_ok w'"
proof -
  let ?closed = "Type f \<noteq> FrameTypeHeartbeat \<and> Channel f \<noteq> 0 \<and> isChannelCloseOk f"
  from dispatch_effects [OF assms(2) routes_ok_slots [OF assms(1)]]
  have ok: "slots_ok (mu w')" and sl: "slot_of (mu w') =
      (if ?closed then (slot_of (mu w))(Channel f := Free) else slot_of (mu w))" by blast+
  note d = dispatch_maps [OF assms(2) routes_ok_slots [OF assms(1)] routes_ok_maps [OF assms(1)]]
  note r = routes_ok_iff [OF assms(1)]
  have "ChannelMapping (ccs w' x) c = Some u \<longleftrightarrow> slot_of (mu w') u = Owned x c" for x c u
  proof (cases "?closed \<and> (\<exists>y d. slot_of (mu w) (Channel f) = Owned y d)")
    case False
    with conjunct2 [OF d [of x]] have "ChannelMapping (ccs w' x) = ChannelMapping (ccs w x)"
      by (auto split: slot.splits)
    moreover have "slot_of (mu w') u = Owned x c \<longleftrightarrow> slot_of (mu w) u = Owned x c"
      using False unfolding sl by auto
    ultimately show ?thesis using r by simp
  next
    case True
    then obtain y e where cl: ?closed and o: "slot_of (mu w) (Channel f) = Owned y e" by blast
    with conjunct2 [OF d [of x]] have map: "ChannelMapping (ccs w' x) =
        (if y = x then (ChannelMapping (ccs w x))(e := None) else ChannelMapping (ccs w x))" by simp
    have "ChannelMapping (ccs w y) e = Some (Channel f)" using o r by simp
    with map r [of x c u] o show ?thesis using cl unfolding sl by auto
  qed
  with ok d show ?thesis by (simp add: routes_ok_def)
qed

section \<open>Cleaning up after a client\<close>

lemma ClientChannels_UnmapChannel:
  "maps_ok cc \<Longrightarrow> ClientChannels (UnmapChannel cc c) = (ClientChannels cc)(c := None)"
  by (cases "ClientChannels cc c") (auto simp: UnmapChannel_def maps_ok_def split: option.splits)

lemma releaseOne_routes:
  assumes "routes_ok w" "ChannelMapping (ccs w x) c = Some u" "w' \<in> set (releaseOne w x (c, u))"
  shows "routes_ok w' \<and> slot_of (mu w') = (slot_of (mu w))(u := Closing) \<and>
    ccs w' = (ccs w)(x := UnmapChannel (ccs w x) c)"
proof -
  have o: "slot_of (mu w) u = Owned x c" using assms(1,2) by (simp add: routes_ok_iff)
  obtain b m where m: "ScheduleChannelCloseIfOwnedBy (mu w) u x = (b, m)" by (cases "ScheduleChannelCloseIfOwnedBy (mu w) u x")
  with o upstream_slots.sched_inv [OF routes_ok_slots [OF assms(1)], of u x]
    upstream_slots.sched_slot [OF routes_ok_slots [OF assms(1)], of u x]
  have ok: "slots_ok m" "slot_of m = (slot_of (mu w))(u := Closing)" by simp_all
  from assms(3) m obtain m' where
    w': "w' = w\<lparr>mu := m', ccs := (ccs w)(x := UnmapChannel (ccs w x) c)\<rparr>" "m' = m \<or> m' \<in> set (writeFrameToUpstream m (closeFrame u))"
    by (auto simp: releaseOne_def split: if_splits)
  from w'(2) writeFrameToUpstream_cases [of m' m "closeFrame u"] ok
  have m': "slots_ok m'" "slot_of m' = (slot_of (mu w))(u := Closing)" by auto
  have inj: "ChannelMapping (ccs w y) d = Some u \<longleftrightarrow> y = x \<and> d = c" for y d
    using o by (auto simp: routes_ok_iff [OF assms(1)])
  have "ChannelMapping (ccs w' y) d = Some v \<longleftrightarrow> slot_of (mu w') v = Owned y d" for y d v
    using routes_ok_iff [OF assms(1), of y d v] inj [of y d] assms(2) by (auto simp: w'(1) m' map_simps)
  with m' show ?thesis
    using maps_ok_UnmapChannel [OF routes_ok_maps [OF assms(1)]] routes_ok_maps [OF assms(1)]
    by (simp add: w'(1) routes_ok_def)
qed

lemma release_routes:
  assumes "routes_ok w" "distinct (map fst es)" "\<forall>(c, u) \<in> set es. ChannelMapping (ccs w x) c = Some u"
    and "w' \<in> set (releaseClientChannels w x es)"
  shows "routes_ok w' \<and> slot_of (mu w') = (\<lambda>u. if u \<in> snd ` set es then Closing else slot_of (mu w) u) \<and>
    (\<forall>y. y \<noteq> x \<longrightarrow> ccs w' y = ccs w y) \<and>
    ChannelMapping (ccs w' x) = (\<lambda>c. if c \<in> fst ` set es then None else ChannelMapping (ccs w x) c)"
  using assms
proof (induction es arbitrary: w)
  case Nil
  then show ?case by simp
next
  case (Cons e es)
  obtain c u where e: "e = (c, u)" by (cases e)
  from Cons.prems(4) e obtain w1 where
    w1: "w1 \<in> set (releaseOne w x (c, u))" "w' \<in> set (releaseClientChannels w1 x es)" by auto
  have "ChannelMapping (ccs w x) c = Some u" using Cons.prems(3) e by simp
  from releaseOne_routes [OF Cons.prems(1) this w1(1)]
  have s1: "routes_ok w1" "slot_of (mu w1) = (slot_of (mu w))(u := Closing)"
    "ccs w1 = (ccs w)(x := UnmapChannel (ccs w x) c)" by auto
  have "\<forall>(d, v) \<in> set es. ChannelMapping (ccs w1 x) d = Some v"
    using Cons.prems(2,3) e by (force simp: s1(3) map_simps)
  from Cons.IH [OF s1(1) _ this w1(2)] Cons.prems(2) e s1 show ?case
    by (auto simp: map_simps fun_eq_iff)
qed

text \<open>The frames queued for the broker, when the queue has room for them.\<close>

lemma releaseOne_queue:
  assumes "routes_ok w" "ChannelMapping (ccs w x) c = Some u" "\<not> stopped (mu w)" "\<not> reconnecting (mu w)"
    and "writeDone (mu w) \<notin> doneClosed (mu w)" "length (writeCh (mu w)) < writeCh_cap"
  shows "\<exists>w'. releaseOne w x (c, u) = [w'] \<and> \<not> stopped (mu w') \<and> \<not> reconnecting (mu w') \<and>
    writeDone (mu w') \<notin> doneClosed (mu w') \<and>
    writeCh (mu w') = writeCh (mu w) @ (if ClientChannels (ccs w x) c \<noteq> None then [closeFrame u] else [])"
proof -
  have "slot_of (mu w) u = Owned x c" using assms(1,2) by (simp add: routes_ok_iff)
  then have "channelOwners (mu w) u = Some \<lparr>owner = x, clientChanID = c\<rparr>" by (simp add: slot_of_Owned)
  with assms(3-6) show ?thesis
    by (simp add: releaseOne_def ScheduleChannelCloseIfOwnedBy_def writeFrameToUpstream_def)
qed

lemma release_queue:
  assumes "routes_ok w" "distinct (map fst es)" "\<forall>(c, u) \<in> set es. ChannelMapping (ccs w x) c = Some u"
    and "\<not> stopped (mu w)" "\<not> reconnecting (mu w)" "writeDone (mu w) \<notin> doneClosed (mu w)"
    and "length (writeCh (mu w)) + length es \<le> writeCh_cap"
  shows "\<exists>w'. releaseClientChannels w x es = [w'] \<and>
    writeCh (mu w') = writeCh (mu w) @
      concat (map (\<lambda>(c, u). if ClientChannels (ccs w x) c \<noteq> None then [closeFrame u] else []) es)"
  using assms
proof (induction es arbitrary: w)
  case Nil
  then show ?case by simp
next
  case (Cons e es)
  obtain c u where e: "e = (c, u)" by (cases e)
  have cu: "ChannelMapping (ccs w x) c = Some u" using Cons.prems(3) e by simp
  have "length (writeCh (mu w)) < writeCh_cap" using Cons.prems(7) by simp
  from releaseOne_queue [OF Cons.prems(1) cu Cons.prems(4-6) this] obtain w1 where
    w1: "releaseOne w x (c, u) = [w1]" "\<not> stopped (mu w1)" "\<not> reconnecting (mu w1)"
      "writeDone (mu w1) \<notin> doneClosed (mu w1)"
      "writeCh (mu w1) = writeCh (mu w) @ (if ClientChannels (ccs w x) c \<noteq> None then [closeFrame u] else [])"
    by blast
  have s1: "routes_ok w1" "ccs w1 = (ccs w)(x := UnmapChannel (ccs w x) c)"
    using releaseOne_routes [OF Cons.prems(1) cu, of w1] w1(1) by auto
  have m1: "\<forall>(d, v) \<in> set es. ChannelMapping (ccs w1 x) d = Some v"
    using Cons.prems(2,3) e by (force simp: s1(2) map_simps)
  have l1: "length (writeCh (mu w1)) + length es \<le> writeCh_cap" using Cons.prems(7) w1(5) by simp
  have cc: "ClientChannels (ccs w1 x) = (ClientChannels (ccs w x))(c := None)"
    by (simp add: s1(2) ClientChannels_UnmapChannel routes_ok_maps [OF Cons.prems(1)])
  have "concat (map (\<lambda>(d, v). if ClientChannels (ccs w1 x) d \<noteq> None then [closeFrame v] else []) es) =
      concat (map (\<lambda>(d, v). if ClientChannels (ccs w x) d \<noteq> None then [closeFrame v] else []) es)"
    using Cons.prems(2) e by (intro arg_cong [of _ _ concat] map_cong) (force simp: cc)+
  with Cons.IH [OF s1(1) _ m1 w1(2-4) l1] Cons.prems(2) e w1(1,5) show ?case by auto
qed

text \<open>Without the invariant: slots that are not listed keep their state.\<close>

lemma releaseOne_others:
  assumes "slots_ok (mu w)" "w' \<in> set (releaseOne w x (c, u))" "v \<noteq> u"
  shows "slots_ok (mu w') \<and> slot_of (mu w') v = slot_of (mu w) v"
proof -
  obtain b m where m: "ScheduleChannelCloseIfOwnedBy (mu w) u x = (b, m)" by (cases "ScheduleChannelCloseIfOwnedBy (mu w) u x")
  from upstream_slots.sched_inv [OF assms(1), of u x] upstream_slots.sched_slot [OF assms(1), of u x] m assms(3)
  have ok: "slots_ok m" "slot_of m v = slot_of (mu w) v" by simp_all
  from assms(2) m obtain m' where "mu w' = m'" "m' = m \<or> m' \<in> set (writeFrameToUpstream m (closeFrame u))"
    by (auto simp: releaseOne_def split: if_splits)
  with ok writeFrameToUpstream_cases [of m' m "closeFrame u"] show ?thesis by auto
qed

lemma release_others:
  "slots_ok (mu w) \<Longrightarrow> w' \<in> set (releaseClientChannels w x es) \<Longrightarrow> v \<notin> snd ` set es \<Longrightarrow>
   slot_of (mu w') v = slot_of (mu w) v"
proof (induction es arbitrary: w)
  case (Cons e es)
  then obtain w1 where "w1 \<in> set (releaseOne w x (fst e, snd e))" "w' \<in> set (releaseClientChannels w1 x es)" by auto
  with Cons releaseOne_others [of w w1 x "fst e" "snd e" v] show ?case by auto
qed simp

section \<open>The loop body\<close>

fun client_world :: "client_turn \<Rightarrow> world" where
  "client_world (Next w) = w"
| "client_world (Leave w) = w"

lemma deliver_routes: "routes_ok w \<Longrightarrow> routes_ok (w\<lparr>ccs := deliver (ccs w) x f\<rparr>)"
  by (rule routes_ok_cong) (auto simp: routes_ok_def deliver_def intro: maps_ok_DeliverFrame)

text \<open>The cases of the loop body.\<close>

lemma handleFrame_cases:
  assumes "t \<in> set (handleFrame w x f)"
  obtains (hb) "Type f = FrameTypeHeartbeat" "t = Next w"
  | (close) "isConnectionClose f" "t = Leave (w\<lparr>ccs := deliver (ccs w) x (method_frame (method_header 10 51))\<rparr>)"
  | (full) e w1 where "\<not> isConnectionClose f" "isChannelOpen f" "openChannel w x f = Some (Some e, w1)" "t = Leave w1"
  | (opened) w1 w2 where "Type f \<noteq> FrameTypeHeartbeat" "\<not> isConnectionClose f" "isChannelOpen f"
      "openChannel w x f = Some (None, w1)" "w2 \<in> set (forwardFrame w1 x f)" "t = Next w2"
  | (other) w2 where "Type f \<noteq> FrameTypeHeartbeat" "\<not> isConnectionClose f" "\<not> isChannelOpen f"
      "w2 \<in> set (forwardFrame w x f)" "t = Next w2"
  using assms by (cases "openChannel w x f") (auto simp: handleFrame_def split: if_splits option.splits)

lemma handleFrame_routes:
  assumes "routes_ok w" "t \<in> set (handleFrame w x f)"
    and "isChannelOpen f \<Longrightarrow> ChannelMapping (ccs w x) (Channel f) = None"
  shows "routes_ok (client_world t)"
  using assms(2)
proof (cases rule: handleFrame_cases)
  case close
  with deliver_routes [OF assms(1)] show ?thesis by simp
next
  case full
  with openChannel_routes [OF assms(1)] assms(3) show ?thesis by auto
next
  case opened
  with openChannel_routes [OF assms(1) opened(4) assms(3)] forwardFrame_routes show ?thesis by auto
next
  case other
  with forwardFrame_routes [OF assms(1)] show ?thesis by simp
qed (use assms(1) in simp)

text \<open>A \<open>Channel.Open\<close> that is forwarded has claimed a free slot, whatever the client's maps were.\<close>

lemma handleFrame_open:
  assumes "slots_ok (mu w)" "Type f \<noteq> FrameTypeHeartbeat" "isChannelOpen f" "Next w1 \<in> set (handleFrame w x f)"
  shows "\<exists>v. slot_of (mu w) v = Free \<and> slots_ok (mu w1) \<and>
    slot_of (mu w1) = (slot_of (mu w))(v := Owned x (Channel f)) \<and>
    ChannelMapping (ccs w1 x) = (ChannelMapping (ccs w x))(Channel f \<mapsto> v)"
proof -
  from assms(4) obtain w0 where w0: "openChannel w x f = Some (None, w0)" "w1 \<in> set (forwardFrame w0 x f)"
    using assms(2,3) by (cases rule: handleFrame_cases) auto
  then obtain v m where a: "allocateLocked (mu w) (Channel f) x = Some (Inr v, m)"
    and w0': "w0 = w\<lparr>mu := m, ccs := (ccs w)(x := MapChannel (ccs w x) (Channel f) v)\<rparr>"
    by (auto simp: openChannel_def AllocateChannel_def split: option.splits if_splits sum.splits)
  note s = upstream_slots.alloc_Inr [OF assms(1) a]
  from w0(2) obtain m' cc where
    w1: "m' \<in> set (writeFrameToUpstream m (remap (ccs w0 x) f))" "mu w1 = m'" "ccs w1 = (ccs w0)(x := cc)"
      "ChannelMapping cc = ChannelMapping (ccs w0 x)"
    by (auto simp: forwardFrame_def Let_def w0' split: if_splits)
  have "slots_ok (mu w1)" "slot_of (mu w1) = slot_of m"
    using writeFrameToUpstream_cases [OF w1(1)] s by (auto simp: w1(2))
  moreover have "ChannelMapping (ccs w1 x) = (ChannelMapping (ccs w x))(Channel f \<mapsto> v)"
    by (simp add: w1(3,4) w0' map_simps)
  ultimately show ?thesis using s by auto
qed

text \<open>Forwarding with room in the queue.\<close>

lemma forwardFrame_queue:
  assumes "\<not> stopped (mu w)" "\<not> reconnecting (mu w)" "writeDone (mu w) \<notin> doneClosed (mu w)"
    and "length (writeCh (mu w)) < writeCh_cap"
  shows "\<exists>w'. forwardFrame w x f = [w'] \<and>
    mu w' = (mu w)\<lparr>writeCh := writeCh (mu w) @ [remap (ccs w x) f]\<rparr> \<and>
    (\<forall>y. ChannelMapping (ccs w' y) = ChannelMapping (ccs w y)) \<and> (\<forall>y. y \<noteq> x \<longrightarrow> ccs w' y = ccs w y)"
  using assms by (simp add: forwardFrame_def Let_def writeFrameToUpstream_def)

definition accepts :: "ManagedUpstream \<Rightarrow> bool" where
  "accepts m \<longleftrightarrow> \<not> stopped m \<and> \<not> reconnecting m \<and> writeDone m \<notin> doneClosed m \<and>
     length (writeCh m) < writeCh_cap"

lemma world_ex_accepts: "accepts (mu (world_ex inp))"
  by (simp add: accepts_def writeCh_cap_def) (simp add: world_ex_def mu_ex_def newManagedUpstream_def)

lemma world_ex_maps:
  "ChannelMapping (ccs (world_ex inp) x) = (if x = 1 then [2 \<mapsto> 5] else if x = 7 then [2 \<mapsto> 6] else Map.empty)"
  by (simp add: world_ex_def Let_def map_simps NewClientConnection_def)

lemma world_ex_owners:
  "channelOwners (mu (world_ex inp)) =
     [5 \<mapsto> \<lparr>owner = 1, clientChanID = 2\<rparr>, 6 \<mapsto> \<lparr>owner = 7, clientChanID = 2\<rparr>]"
  by (simp add: world_ex_def)

lemma world_ex_routes: "routes_ok (world_ex inp)"
proof -
  have "maps_ok (MapChannel (NewClientConnection new_conn \<lparr>rdata = [], rend = EOF\<rparr>) 2 u)" for u
    by (rule maps_ok_MapChannel [OF maps_ok_new]) (simp_all add: NewClientConnection_def)
  then have "maps_ok (ccs (world_ex inp) x)" for x by (simp add: world_ex_def Let_def maps_ok_new)
  moreover have "ChannelMapping (ccs (world_ex inp) x) c = Some u \<longleftrightarrow> slot_of (mu (world_ex inp)) u = Owned x c" for x c u
    by (auto simp: world_ex_maps world_ex_owners slot_of_Owned split: if_splits)
  ultimately show ?thesis by (simp add: routes_ok_def)
qed

section \<open>Properties\<close>

text \<open>
  (C5) The routing invariant. In a world where the maps of the clients and the slot table agree,
  they still agree after any frame of the broker, after any frame of a client that
  does not open a channel it has open already, and after the cleanup of a client.
\<close>

theorem routes_preserved:
  assumes "routes_ok w"
  shows "(\<forall>w' \<in> set (readLoop_dispatch w f). routes_ok w') \<and>
    ((isChannelOpen f \<longrightarrow> ChannelMapping (ccs w x) (Channel f) = None) \<longrightarrow>
      (\<forall>t \<in> set (handleFrame w x f). routes_ok (client_world t))) \<and>
    (distinct (map fst es) \<and> (\<forall>(c, u) \<in> set es. ChannelMapping (ccs w x) c = Some u) \<longrightarrow>
      (\<forall>w' \<in> set (releaseClientChannels w x es). routes_ok w'))"
  using dispatch_routes [OF assms] handleFrame_routes [OF assms] release_routes [OF assms] by blast

theorem routes_preserved_witness:
  "\<exists>w'. readLoop_dispatch (world_ex []) \<lparr>Type = 1, Channel = 5, Payload = [0, 60, 0, 60]\<rparr> = [w'] \<and> routes_ok w'"
proof -
  let ?f = "\<lparr>Type = 1, Channel = 5, Payload = [0, 60, 0, 60]\<rparr> :: Frame"
  obtain w' where w': "readLoop_dispatch (world_ex []) ?f = [w']"
    by (simp add: readLoop_dispatch_def isChannelCloseOk_def)
  moreover have "routes_ok w'" using routes_preserved [OF world_ex_routes, of "[]" ?f] w' by simp
  ultimately show ?thesis by blast
qed

text \<open>
  (C2) End to end. A frame that a client sends on an open channel is queued for the broker under
  the upstream's number and otherwise unchanged; no other channel of any client has this number;
  and whatever the broker answers on it (not counting heartbeats) comes back to
  this client on the channel it used.
\<close>

theorem request_reply:
  assumes "routes_ok w" "accepts (mu w)" "ChannelMapping (ccs w x) (Channel f) = Some u"
    and "Type f \<noteq> FrameTypeHeartbeat" "\<not> isConnectionClose f" "\<not> isChannelOpen f"
  shows "\<exists>w'. handleFrame w x f = [Next w'] \<and> writeCh (mu w') = writeCh (mu w) @ [f\<lparr>Channel := u\<rparr>] \<and>
    (\<forall>y d. ChannelMapping (ccs w' y) d = Some u \<longrightarrow> y = x \<and> d = Channel f) \<and>
    (\<forall>g. Channel g = u \<and> u \<noteq> 0 \<and> Type g \<noteq> FrameTypeHeartbeat \<and> frame_ok g \<and> live_bufio (Writer (ccs w' x)) \<longrightarrow>
      (\<exists>w''. readLoop_dispatch w' g = [w''] \<and>
         sent (wr (Writer (ccs w'' x))) = accepted (Writer (ccs w' x)) @ frame_bytes (g\<lparr>Channel := Channel f\<rparr>)))"
proof -
  have o: "slot_of (mu w) u = Owned x (Channel f)" using assms(1,3) by (simp add: routes_ok_iff)
  from forwardFrame_queue [of w x f] assms(2) obtain w' where
    w': "forwardFrame w x f = [w']" "mu w' = (mu w)\<lparr>writeCh := writeCh (mu w) @ [remap (ccs w x) f]\<rparr>"
      "\<And>y. ChannelMapping (ccs w' y) = ChannelMapping (ccs w y)"
    by (auto simp: accepts_def)
  have "slots_ok (mu w')" "slot_of (mu w') u = Owned x (Channel f)"
    using routes_ok_slots [OF assms(1)] o by (simp_all add: w'(2))
  then have reply: "\<exists>w''. readLoop_dispatch w' g = [w''] \<and>
         sent (wr (Writer (ccs w'' x))) = accepted (Writer (ccs w' x)) @ frame_bytes (g\<lparr>Channel := Channel f\<rparr>)"
    if "Channel g = u" "u \<noteq> 0" "Type g \<noteq> FrameTypeHeartbeat" "frame_ok g" "live_bufio (Writer (ccs w' x))" for g
    using dispatch_owned [of w' g x "Channel f"] that by blast
  have "y = x \<and> d = Channel f" if "ChannelMapping (ccs w' y) d = Some u" for y d
    using that o by (simp add: w'(3) routes_ok_iff [OF assms(1)])
  moreover have "remap (ccs w x) f = f\<lparr>Channel := u\<rparr>" using assms(3) by (simp add: remap_def)
  ultimately show ?thesis using w'(1,2) assms(4-6) reply by (auto simp: handleFrame_def)
qed

theorem request_reply_witness:
  "\<exists>w'. handleFrame (world_ex []) 7 \<lparr>Type = 1, Channel = 2, Payload = [0, 60, 0, 40]\<rparr> = [Next w'] \<and>
     writeCh (mu w') = [\<lparr>Type = 1, Channel = 6, Payload = [0, 60, 0, 40]\<rparr>]"
  using request_reply [OF world_ex_routes [of "[]"] world_ex_accepts,
      of 7 "\<lparr>Type = 1, Channel = 2, Payload = [0, 60, 0, 40]\<rparr>" 6]
  by (auto simp: world_ex_maps isConnectionClose_def isChannelOpen_def)

text \<open>
  (C8) The cleanup after a client, with room in the write queue. Every slot the client owned is
  now closing, so that nobody gets its number before the broker has confirmed; slots and
  connections of other clients are untouched, the client maps nothing any more, and exactly
  the channels it had not closed itself are closed at the broker.
\<close>

theorem release_complete:
  assumes "routes_ok w" "distinct (map fst es)" "set es = {(c, u). ChannelMapping (ccs w x) c = Some u}"
    and "accepts (mu w)" "length (writeCh (mu w)) + length es \<le> writeCh_cap"
  shows "\<exists>w'. releaseClientChannels w x es = [w'] \<and> ChannelMapping (ccs w' x) = Map.empty \<and>
    (\<forall>u. slot_of (mu w') u =
       (case slot_of (mu w) u of Owned y c \<Rightarrow> if y = x then Closing else Owned y c | s \<Rightarrow> s)) \<and>
    (\<forall>y. y \<noteq> x \<longrightarrow> ccs w' y = ccs w y) \<and>
    writeCh (mu w') = writeCh (mu w) @
      concat (map (\<lambda>(c, u). if ClientChannels (ccs w x) c \<noteq> None then [closeFrame u] else []) es)"
proof -
  have es: "\<forall>(c, u) \<in> set es. ChannelMapping (ccs w x) c = Some u" using assms(3) by auto
  from release_queue [OF assms(1,2) es] assms(4,5) obtain w' where w': "releaseClientChannels w x es = [w']"
    "writeCh (mu w') = writeCh (mu w) @
      concat (map (\<lambda>(c, u). if ClientChannels (ccs w x) c \<noteq> None then [closeFrame u] else []) es)"
    by (auto simp: accepts_def)
  note r = release_routes [OF assms(1,2) es, of w']
  have "u \<in> snd ` set es \<longleftrightarrow> (\<exists>c. slot_of (mu w) u = Owned x c)" for u
    using assms(3) by (force simp: routes_ok_iff [OF assms(1)] image_iff)
  moreover have "ChannelMapping (ccs w x) c = None" if "c \<notin> fst ` set es" for c
    using that assms(3) by (cases "ChannelMapping (ccs w x) c") (force simp: image_iff)+
  ultimately show ?thesis using w' r by (auto split: slot.splits)
qed

theorem release_complete_witness:
  "\<exists>w'. releaseClientChannels (world_ex []) 7 [(2, 6)] = [w'] \<and> slot_of (mu w') 6 = Closing \<and>
     slot_of (mu w') 5 = Owned 1 2"
proof -
  have "set [(2, 6)] = {(c, u). ChannelMapping (ccs (world_ex []) 7) c = Some u}"
    by (auto simp: world_ex_maps split: if_splits)
  from release_complete [OF world_ex_routes _ this world_ex_accepts] show ?thesis
    by (auto simp: writeCh_cap_def)
qed

text \<open>
  (C32) A frame on a channel that the client has not opened is forwarded all the same, under the
  client's own number. On the shared connection this number may be a channel of another client,
  into which the frame is thereby injected (the witness has client 7 write into channel 5, which
  client 1 owns).
\<close>

theorem unmapped_forwarded:
  assumes "accepts (mu w)" "ChannelMapping (ccs w x) (Channel f) = None"
    and "Type f \<noteq> FrameTypeHeartbeat" "\<not> isConnectionClose f" "\<not> isChannelOpen f"
  shows "\<exists>w'. handleFrame w x f = [Next w'] \<and> writeCh (mu w') = writeCh (mu w) @ [f]"
  using assms forwardFrame_queue [of w x f] by (auto simp: handleFrame_def accepts_def remap_def)

theorem unmapped_forwarded_witness:
  "slot_of (mu (world_ex [])) 5 = Owned 1 2 \<and>
   (\<exists>w'. handleFrame (world_ex []) 7 \<lparr>Type = 1, Channel = 5, Payload = [0, 60, 0, 40]\<rparr> = [Next w'] \<and>
      writeCh (mu w') = [\<lparr>Type = 1, Channel = 5, Payload = [0, 60, 0, 40]\<rparr>])"
  using unmapped_forwarded [OF world_ex_accepts [of "[]"], of 7 "\<lparr>Type = 1, Channel = 5, Payload = [0, 60, 0, 40]\<rparr>"]
  by (auto simp: world_ex_maps isConnectionClose_def isChannelOpen_def)

text \<open>
  (C33) A channel closed by the broker is lost. When the client answers the broker's \<open>Channel.Close\<close>
  with \<open>Channel.CloseOk\<close>, the slot stays the client's; the cleanup after the client then marks it
  closing but, the channel being closed for the client, queues no \<open>Channel.Close\<close> that the broker
  could confirm. So the slot stays closing until the next reconnect.
\<close>

theorem broker_close_leak:
  assumes "routes_ok w" "accepts (mu w)" "length (writeCh (mu w)) + 1 < writeCh_cap"
    and "ChannelMapping (ccs w x) c = Some u"
  shows "\<exists>w1 w2. handleFrame w x \<lparr>Type = FrameTypeMethod, Channel = c, Payload = method_header 20 41\<rparr> = [Next w1] \<and>
    slot_of (mu w1) u = Owned x c \<and> releaseOne w1 x (c, u) = [w2] \<and> slot_of (mu w2) u = Closing \<and>
    writeCh (mu w2) = writeCh (mu w) @ [\<lparr>Type = FrameTypeMethod, Channel = u, Payload = method_header 20 41\<rparr>]"
proof -
  let ?f = "\<lparr>Type = FrameTypeMethod, Channel = c, Payload = method_header 20 41\<rparr> :: Frame"
  have o: "slot_of (mu w) u = Owned x c" using assms(1,4) by (simp add: routes_ok_iff)
  have f: "\<not> isConnectionClose ?f" "\<not> isChannelOpen ?f" "isChannelClose ?f"
    by (simp_all add: isConnectionClose_def isChannelOpen_def isChannelClose_def SerializeMethodHeader_def PutUint16_def)
  let ?w1 = "w\<lparr>mu := (mu w)\<lparr>writeCh := writeCh (mu w) @ [?f\<lparr>Channel := u\<rparr>]\<rparr>,
    ccs := (ccs w)(x := dropClientChannel (markChannelSafety ?f (ccs w x)) c)\<rparr>"
  have "forwardFrame w x ?f = [?w1]"
    using assms(2,4) f(3) by (simp add: forwardFrame_def remap_def writeFrameToUpstream_def accepts_def)
  then have h: "handleFrame w x ?f = [Next ?w1]" using f by (simp add: handleFrame_def)
  have "channelOwners (mu w) u = Some \<lparr>owner = x, clientChanID = c\<rparr>" using o by (simp add: slot_of_Owned)
  then have r: "\<exists>w2. releaseOne ?w1 x (c, u) = [w2] \<and> slot_of (mu w2) u = Closing \<and>
      writeCh (mu w2) = writeCh (mu w) @ [?f\<lparr>Channel := u\<rparr>]"
    by (simp add: releaseOne_def ScheduleChannelCloseIfOwnedBy_def dropClientChannel_def slot_of_def)
  have "slot_of (mu ?w1) u = Owned x c" using o by simp
  with h r show ?thesis by auto
qed

theorem broker_close_leak_witness:
  "\<exists>w1 w2. handleFrame (world_ex []) 7 \<lparr>Type = FrameTypeMethod, Channel = 2, Payload = method_header 20 41\<rparr> = [Next w1] \<and>
     releaseOne w1 7 (2, 6) = [w2] \<and> slot_of (mu w2) 6 = Closing"
  using broker_close_leak [OF world_ex_routes world_ex_accepts, of "[]" 7 2 6]
  by (auto simp: world_ex_maps writeCh_cap_def)

text \<open>
  (C34) Opening a channel number that is mapped already (as a client does after the broker has closed
  the channel) gets a second slot and overwrites the mapping; the first slot stays
  owned by the client, and the cleanup after the client does not release it.
\<close>

theorem reopen_leak:
  assumes "routes_ok w" "ChannelMapping (ccs w x) (Channel f) = Some u"
    and "Type f \<noteq> FrameTypeHeartbeat" "isChannelOpen f" "Next w1 \<in> set (handleFrame w x f)"
    and "set es = {(c, v). ChannelMapping (ccs w1 x) c = Some v}" "w2 \<in> set (releaseClientChannels w1 x es)"
  shows "ChannelMapping (ccs w1 x) (Channel f) \<noteq> Some u \<and> slot_of (mu w1) u = Owned x (Channel f) \<and>
    slot_of (mu w2) u = Owned x (Channel f)"
proof -
  have o: "slot_of (mu w) u = Owned x (Channel f)" using assms(1,2) by (simp add: routes_ok_iff)
  from handleFrame_open [OF routes_ok_slots [OF assms(1)] assms(3-5)] obtain v where
    v: "slot_of (mu w) v = Free" "slots_ok (mu w1)" "slot_of (mu w1) = (slot_of (mu w))(v := Owned x (Channel f))"
      "ChannelMapping (ccs w1 x) = (ChannelMapping (ccs w x))(Channel f \<mapsto> v)" by blast
  have ne: "v \<noteq> u" using v(1) o by auto
  have "u \<notin> snd ` set es"
    using ne o by (auto simp: assms(6) v(4) routes_ok_iff [OF assms(1)] split: if_splits)
  with release_others [OF v(2) assms(7)] v ne o show ?thesis by simp
qed

theorem reopen_leak_witness:
  "\<exists>w1 w2. Next w1 \<in> set (handleFrame (world_ex []) 7 \<lparr>Type = 1, Channel = 2, Payload = [0, 20, 0, 10, 0]\<rparr>) \<and>
     w2 \<in> set (releaseClientChannels w1 7 [(2, 7)]) \<and> slot_of (mu w2) 6 = Owned 7 2"
proof -
  let ?f = "\<lparr>Type = 1, Channel = 2, Payload = [0, 20, 0, 10, 0]\<rparr> :: Frame"
  let ?w = "world_ex []"
  have m: "nextHint (mu ?w) = 7" "maxChannels (mu ?w) = 100" "usedChannels (mu ?w) = {5, 6}" "pendingClose (mu ?w) = {}"
    "writeDone (mu ?w) = 0" "doneClosed (mu ?w) = {}"
    by (simp_all add: world_ex_def mu_ex_def newManagedUpstream_def)
  have "allocateLocked (mu ?w) 2 7 = Some (Inr 7, claimChannel (mu ?w) 7 2 7)"
    by (simp add: allocateLocked_scan hint_of_def m scan_up_here free_chan_def)
  then have o: "openChannel ?w 7 ?f = Some (None, ?w\<lparr>mu := claimChannel (mu ?w) 7 2 7,
      ccs := (ccs ?w)(7 := MapChannel (ccs ?w 7) 2 7)\<rparr>)"
    by (simp add: openChannel_def AllocateChannel_def)
  obtain w1 where w1: "handleFrame ?w 7 ?f = [Next w1]"
      "mu w1 = (claimChannel (mu ?w) 7 2 7)\<lparr>writeCh := [?f\<lparr>Channel := 7\<rparr>]\<rparr>"
      "ChannelMapping (ccs w1 7) = [2 \<mapsto> 7]"
    by (simp add: handleFrame_def isConnectionClose_def isChannelOpen_def o)
       (simp add: forwardFrame_def writeFrameToUpstream_def claimChannel_def m writeCh_cap_def remap_def map_simps
         isChannelClose_def world_ex_maps)
  have es: "set [(2, 7)] = {(c, v). ChannelMapping (ccs w1 7) c = Some v}"
    by (auto simp: w1(3) split: if_splits)
  have "releaseClientChannels w1 7 [(2, 7)] \<noteq> []"
    by (simp add: releaseOne_def ScheduleChannelCloseIfOwnedBy_def writeFrameToUpstream_def w1(2) claimChannel_def
        m writeCh_cap_def split: option.splits)
  then obtain w2 where w2: "w2 \<in> set (releaseClientChannels w1 7 [(2, 7)])" by (metis hd_in_set)
  have "Next w1 \<in> set (handleFrame ?w 7 ?f)" by (simp add: w1(1))
  from reopen_leak [OF world_ex_routes _ _ _ this es w2] this w2 show ?thesis
    by (auto simp: world_ex_maps isChannelOpen_def)
qed



end
