(* ===== verification/Upstream_Machine.thy ===== *)
theory Upstream_Machine
  imports Client_Loop
begin

text \<open>
  All goroutines of one upstream at once: a step relation whose steps are the critical sections and
  atomic operations of \<open>proxy/managed_upstream.go\<close> and of the registration in
  \<open>handleConnection\<close>, in any interleaving. A test of an atomic flag and the critical section that
  follows it are separate steps wherever another goroutine may come between them; so the search of
  \<open>AllocateChannel\<close> may run although the upstream has begun to reconnect since the test.

  A frame is queued in a step of its own: the test of the flags by \<open>writeFrameToUpstream\<close> and the moment it picked
  up the stop channel may lie far back. A reconnect is the phase its goroutine has reached: in
  \<open>handleUpstreamFailure\<close> with the flag just set, at the test of \<open>stopped\<close>, dialling (or sleeping before
  it), table reset, stop channel exchanged, old pumps waited for, queue drained. \<open>pending\<close> are the clients between \<open>Register\<close> and the test that follows it, \<open>attached\<close> those
  past it, \<open>aborted\<close> those whose connection was closed by a failure or a stop, and \<open>crashed\<close> says
  that a goroutine panicked.
\<close>

datatype phase = Failing | Testing | Dialling | Reset_done | Swapped | Waited | Drained

record mstate =
  um :: ManagedUpstream
  recs :: "phase list"
  pending :: "nat set"
  attached :: "nat set"
  aborted :: "nat set"
  crashed :: bool

definition init :: "ManagedUpstream \<Rightarrow> mstate" where
  "init m = \<lparr>um = m, recs = [], pending = {}, attached = {}, aborted = {}, crashed = False\<rparr>"

datatype act = Search | Schedule | Close_ok u16 | Fail | Reset | Wait | Resume | Other

inductive step :: "mstate \<Rightarrow> act \<Rightarrow> mstate \<Rightarrow> bool" where
  search: "allocateLocked (um s) c x = Some (r, m) \<Longrightarrow> step s Search (s\<lparr>um := m\<rparr>)"
| schedule: "step s Schedule (s\<lparr>um := snd (ScheduleChannelCloseIfOwnedBy (um s) u x)\<rparr>)"
| close_ok: "step s (Close_ok u) (s\<lparr>um := snd (closeOkReceived (um s) u)\<rparr>)"
| register: "step s Other (s\<lparr>um := Register (um s) x, pending := insert x (pending s)\<rparr>)"
| attach: "x \<in> pending s \<Longrightarrow> \<not> stopped (um s) \<Longrightarrow> \<not> reconnecting (um s) \<Longrightarrow>
    step s Other (s\<lparr>pending := pending s - {x}, attached := insert x (attached s)\<rparr>)"
| reject: "x \<in> pending s \<Longrightarrow>
    step s Other (s\<lparr>um := Deregister (um s) x now, pending := pending s - {x}\<rparr>)"
| leave: "x \<in> attached s \<Longrightarrow>
    step s Other (s\<lparr>um := Deregister (um s) x now, attached := attached s - {x}\<rparr>)"
| queue: "length (writeCh (um s)) < writeCh_cap \<Longrightarrow>
    step s Other (s\<lparr>um := (um s)\<lparr>writeCh := writeCh (um s) @ [f]\<rparr>\<rparr>)"
| pump: "writeCh (um s) = f # q \<Longrightarrow> step s Other (s\<lparr>um := (um s)\<lparr>writeCh := q\<rparr>\<rparr>)"
| fail: "\<not> reconnecting (um s) \<Longrightarrow>
    step s Fail (s\<lparr>um := (um s)\<lparr>reconnecting := True\<rparr>, recs := Failing # recs s\<rparr>)"
| abort_clients: "recs s = as @ Failing # bs \<Longrightarrow>
    step s Other (s\<lparr>aborted := aborted s \<union> set (clients (um s)), recs := as @ Testing # bs\<rparr>)"
| attempt: "recs s = as @ Testing # bs \<Longrightarrow> \<not> stopped (um s) \<Longrightarrow>
    step s Other (s\<lparr>um := (um s)\<lparr>reconnectTotal := reconnectTotal (um s) + 1\<rparr>, recs := as @ Dialling # bs\<rparr>)"
| give_up: "recs s = as @ Testing # bs \<Longrightarrow> stopped (um s) \<Longrightarrow> step s Other (s\<lparr>recs := as @ bs\<rparr>)"
| dial_error: "recs s = as @ Dialling # bs \<Longrightarrow> step s Other (s\<lparr>recs := as @ Testing # bs\<rparr>)"
| reset: "recs s = as @ Dialling # bs \<Longrightarrow>
    step s Reset (s\<lparr>um := resetState (um s) a now, recs := as @ Reset_done # bs\<rparr>)"
| swap: "recs s = as @ Reset_done # bs \<Longrightarrow> writeDone (um s) \<notin> doneClosed (um s) \<Longrightarrow>
    d \<notin> insert (writeDone (um s)) (doneClosed (um s)) \<Longrightarrow>
    step s Other (s\<lparr>um := (um s)\<lparr>writeDone := d, doneClosed := insert (writeDone (um s)) (doneClosed (um s))\<rparr>,
      recs := as @ Swapped # bs\<rparr>)"
| panic: "recs s = as @ Reset_done # bs \<Longrightarrow> writeDone (um s) \<in> doneClosed (um s) \<Longrightarrow>
    step s Other (s\<lparr>recs := as @ bs, crashed := True\<rparr>)"
| wait: "recs s = as @ Swapped # bs \<Longrightarrow> step s Wait (s\<lparr>recs := as @ Waited # bs\<rparr>)"
| drain: "recs s = as @ Waited # bs \<Longrightarrow> writeCh (um s) = f # q \<Longrightarrow>
    step s Other (s\<lparr>um := (um s)\<lparr>writeCh := q\<rparr>\<rparr>)"
| drained: "recs s = as @ Waited # bs \<Longrightarrow> writeCh (um s) = [] \<Longrightarrow>
    step s Other (s\<lparr>recs := as @ Drained # bs\<rparr>)"
| resume: "recs s = as @ Drained # bs \<Longrightarrow>
    step s Resume (s\<lparr>um := (um s)\<lparr>reconnecting := False\<rparr>, recs := as @ bs\<rparr>)"
| sweep: "markStoppedIfIdle (um s) h timeout now = (b, m, h') \<Longrightarrow> step s Other (s\<lparr>um := m\<rparr>)"
| stop: "step s Other (s\<lparr>um := stopWritePump ((um s)\<lparr>stopped := True\<rparr>), aborted := aborted s \<union> set (clients (um s))\<rparr>)"

inductive run :: "mstate \<Rightarrow> act list \<Rightarrow> mstate \<Rightarrow> bool" where
  done_run: "run s [] s"
| more: "step s a s1 \<Longrightarrow> run s1 as s' \<Longrightarrow> run s (a # as) s'"

inductive_cases step_Search: "step s Search s'"
inductive_cases step_Close_ok: "step s (Close_ok u) s'"

section \<open>Slots under every step\<close>

lemma markStopped_slots:
  assumes "markStoppedIfIdle m h timeout now = (b, m', h')"
  shows "slot_of m' = slot_of m" "slots_ok m' = slots_ok m" "reconnecting m' = reconnecting m"
    "chans_bounded m' = chans_bounded m" "maxChannels m' = maxChannels m"
  using assms
  by (auto simp: markStoppedIfIdle_def Let_def stopWritePump_def chans_bounded_def split: option.splits if_splits)

lemma resetState_slots: "slot_of (resetState m a now) u = Free" "slots_ok (resetState m a now)"
  by (simp_all add: resetState_def slot_of_def slots_ok_def)

lemma step_same_slots:
  assumes "step s a s'" "a \<in> {Other, Fail, Wait, Resume}"
  shows "slot_of (um s') = slot_of (um s)" "slots_ok (um s') = slots_ok (um s)"
  using assms
  by (cases; auto simp: markStopped_slots)+

lemma step_slots_ok:
  assumes "step s a s'" "slots_ok (um s)"
  shows "slots_ok (um s')"
proof (cases a)
  case Reset
  with assms show ?thesis by cases (auto simp: resetState_slots)
next
  case Search
  with assms slots_ok_allocate show ?thesis by (auto elim!: step_Search)
next
  case (Close_ok u)
  with assms slots_ok_closeOk show ?thesis by (auto elim!: step_Close_ok)
next
  case Schedule
  with assms show ?thesis by cases (auto simp: slots_ok_schedule_owned)
qed (use step_same_slots [OF assms(1)] assms(2) in auto)

text \<open>Every step but the reset moves every slot along the slot machine.\<close>

lemma step_slot_next:
  assumes "step s a s'" "slots_ok (um s)" "a \<noteq> Reset"
  shows "slot_next (slot_of (um s) u) (slot_of (um s') u)"
proof (cases a)
  case Search
  with assms upstream_slots.alloc_next show ?thesis by (auto elim!: step_Search)
next
  case (Close_ok v)
  with assms upstream_slots.closed_next show ?thesis by (auto elim!: step_Close_ok)
next
  case Schedule
  with assms(1) show ?thesis by cases (use assms(2) upstream_slots.sched_next in auto)
qed (use assms(3) step_same_slots [OF assms(1)] in \<open>auto intro: slot_next.stay\<close>)

section \<open>The invariant of the machine\<close>

definition machine_ok :: "mstate \<Rightarrow> bool" where
  "machine_ok s \<longleftrightarrow>
     slots_ok (um s) \<and> length (recs s) \<le> 1 \<and> (recs s \<noteq> [] \<longrightarrow> reconnecting (um s)) \<and>
     (writeDone (um s) \<in> doneClosed (um s) \<longrightarrow> stopped (um s)) \<and> (crashed s \<longrightarrow> stopped (um s)) \<and>
     (maxChannels (um s) \<noteq> - 1 \<longrightarrow> chans_bounded (um s))"

lemma schedule_frame [simp]:
  "reconnecting (snd (ScheduleChannelCloseIfOwnedBy m u x)) = reconnecting m"
  "writeDone (snd (ScheduleChannelCloseIfOwnedBy m u x)) = writeDone m"
  "doneClosed (snd (ScheduleChannelCloseIfOwnedBy m u x)) = doneClosed m"
  "stopped (snd (ScheduleChannelCloseIfOwnedBy m u x)) = stopped m"
  "maxChannels (snd (ScheduleChannelCloseIfOwnedBy m u x)) = maxChannels m"
  by (simp_all add: ScheduleChannelCloseIfOwnedBy_def split: option.splits)

lemma step_recs:
  assumes "step s a s'" "length (recs s) \<le> 1" "recs s \<noteq> [] \<longrightarrow> reconnecting (um s)"
  shows "length (recs s') \<le> 1 \<and> (recs s' \<noteq> [] \<longrightarrow> reconnecting (um s'))"
  using assms
proof cases
  case (search c x r m)
  with assms allocateLocked_frame [OF search(3)] show ?thesis by simp
next
  case (sweep h timeout now b m h')
  with assms markStopped_slots(3) [OF sweep(3)] show ?thesis by simp
next
  case (resume as bs)
  with assms show ?thesis by (cases as) auto
qed (auto simp: Register_def Deregister_def Let_def stopWritePump_def resetState_def)

lemma step_stopped:
  assumes "step s a s'" "writeDone (um s) \<in> doneClosed (um s) \<longrightarrow> stopped (um s)" "crashed s \<longrightarrow> stopped (um s)"
  shows "(writeDone (um s') \<in> doneClosed (um s') \<longrightarrow> stopped (um s')) \<and> (crashed s' \<longrightarrow> stopped (um s'))"
  using assms
proof cases
  case (search c x r m)
  with assms allocateLocked_frame [OF search(3)] show ?thesis by simp
next
  case (sweep h timeout now b m h')
  with assms show ?thesis
    by (auto simp: markStoppedIfIdle_def Let_def stopWritePump_def split: option.splits if_splits)
qed (auto simp: Register_def Deregister_def Let_def stopWritePump_def resetState_def)

lemma chans_bounded_misc [simp]:
  "chans_bounded (m\<lparr>reconnecting := b\<rparr>) = chans_bounded m" "chans_bounded (m\<lparr>reconnectTotal := t\<rparr>) = chans_bounded m"
  "chans_bounded (m\<lparr>writeDone := d\<rparr>) = chans_bounded m" "chans_bounded (m\<lparr>doneClosed := D\<rparr>) = chans_bounded m"
  "chans_bounded (m\<lparr>stopped := b\<rparr>) = chans_bounded m" "chans_bounded (m\<lparr>writeCh := q\<rparr>) = chans_bounded m"
  "chans_bounded (Register m x) = chans_bounded m" "chans_bounded (Deregister m x now) = chans_bounded m"
  "chans_bounded (stopWritePump m) = chans_bounded m" "chans_bounded (resetState m a now)"
  by (simp_all add: chans_bounded_def Register_def Deregister_def stopWritePump_def resetState_def Let_def)

lemma maxChannels_misc [simp]:
  "maxChannels (Register m x) = maxChannels m" "maxChannels (Deregister m x now) = maxChannels m"
  "maxChannels (stopWritePump m) = maxChannels m" "maxChannels (resetState m a now) = maxChannels m"
  by (simp_all add: Register_def Deregister_def stopWritePump_def resetState_def Let_def)

lemma step_bounded:
  assumes "step s a s'" "maxChannels (um s) \<noteq> - 1 \<longrightarrow> chans_bounded (um s)"
  shows "maxChannels (um s') \<noteq> - 1 \<longrightarrow> chans_bounded (um s')"
  using assms
proof cases
  case (search c x r m)
  with assms chans_bounded_allocate [of "um s" c x r m] allocateLocked_frame [OF search(3)] show ?thesis by simp
next
  case (sweep h timeout now b m h')
  with assms markStopped_slots [OF sweep(3)] show ?thesis by simp
qed (use assms in \<open>auto simp: chans_bounded_schedule_owned chans_bounded_closeOk\<close>)

lemma machine_ok_step: "machine_ok s \<Longrightarrow> step s a s' \<Longrightarrow> machine_ok s'"
  unfolding machine_ok_def
  using step_slots_ok [of s a s'] step_recs [of s a s'] step_stopped [of s a s'] step_bounded [of s a s'] by blast

lemma machine_ok_run: "run s as s' \<Longrightarrow> machine_ok s \<Longrightarrow> machine_ok s'"
  by (induction rule: run.induct) (auto dest: machine_ok_step)

lemma machine_ok_init: "machine_ok (init ((newManagedUpstream u p v mx)\<lparr>conn := c\<rparr>))"
  by (simp add: machine_ok_def init_def chans_bounded_def slots_ok_def newManagedUpstream_def)

text \<open>A closing slot stays closing until its \<open>CloseOk\<close> or a reset.\<close>

lemma step_closing:
  assumes "step s a s'" "slots_ok (um s)" "slot_of (um s) u = Closing" "a \<noteq> Close_ok u" "a \<noteq> Reset"
  shows "slot_of (um s') u = Closing"
proof (cases a)
  case Search
  with assms upstream_slots.alloc_keeps show ?thesis by (auto elim!: step_Search)
next
  case (Close_ok v)
  with assms upstream_slots.closed_slot show ?thesis by (auto elim!: step_Close_ok)
next
  case Schedule
  with assms(1) show ?thesis by cases (use assms(2,3) upstream_slots.sched_closing in auto)
qed (use assms step_same_slots [OF assms(1)] in auto)

lemma run_closing:
  "run s as s' \<Longrightarrow> slots_ok (um s) \<Longrightarrow> slot_of (um s) u = Closing \<Longrightarrow> Close_ok u \<notin> set as \<Longrightarrow> Reset \<notin> set as \<Longrightarrow>
   slot_of (um s') u = Closing"
  by (induction rule: run.induct) (auto dest: step_closing step_slots_ok)

lemma run_append: "run s as s1 \<Longrightarrow> run s1 bs s2 \<Longrightarrow> run s (as @ bs) s2"
  by (induction rule: run.induct) (auto intro: run.intros)

section \<open>Cycles of opening and closing\<close>

text \<open>An upstream with the limit 65535, hint \<open>h\<close> and owners \<open>o\<close>.\<close>

definition wide :: "u16 \<Rightarrow> (u16 \<rightharpoonup> channelEntry) \<Rightarrow> ManagedUpstream" where
  "wide h os = (mu_ex (- 1))\<lparr>nextHint := h, usedChannels := dom os, channelOwners := os\<rparr>"

lemma wide_fields [simp]:
  "nextHint (wide h os) = h" "usedChannels (wide h os) = dom os" "channelOwners (wide h os) = os"
  "pendingClose (wide h os) = {}" "maxChannels (wide h os) = - 1" "reconnecting (wide h os) = False"
  by (simp_all add: wide_def mu_ex_def newManagedUpstream_def)

lemma wide_search:
  assumes "h \<noteq> 0" "os h = None"
  shows "allocateLocked (wide h os) c x = Some (Inr h, claimChannel (wide h os) h c x)"
  using assms by (simp add: allocateLocked_scan hint_of_def scan_up_here free_chan_def domIff)

lemma wide_cycle:
  assumes "h \<noteq> 0" "h \<noteq> - 1" "os h = None"
  shows "\<exists>as. run (init (wide h os)) as (init (wide (h + 1) os))"
proof -
  let ?m1 = "claimChannel (wide h os) h 1 1"
  let ?m2 = "snd (ScheduleChannelCloseIfOwnedBy ?m1 h 1)"
  let ?m3 = "snd (closeOkReceived ?m2 h)"
  have s: "step (init (wide h os)) Search (init ?m1)"
    using step.search [of "init (wide h os)", OF _] wide_search [of h os 1 1] assms by (simp add: init_def)
  have t: "step (init ?m1) Schedule (init ?m2)"
    using step.schedule [of "init ?m1" h 1] by (simp add: init_def)
  have v: "step (init ?m2) (Close_ok h) (init ?m3)"
    using step.close_ok [of "init ?m2" h] by (simp add: init_def)
  have "h + 1 \<noteq> 0" using assms(2) by (simp add: add_eq_0_iff2)
  then have "?m3 = wide (h + 1) os"
    using assms by (auto simp: claimChannel_def ScheduleChannelCloseIfOwnedBy_def closeOkReceived_def wide_def mu_ex_def newManagedUpstream_def
        domIff fun_upd_idem)
  with s t v have "run (init (wide h os)) [Search, Schedule, Close_ok h] (init (wide (h + 1) os))"
    by (auto intro!: run.intros)
  then show ?thesis by blast
qed

lemma wide_cycles:
  assumes "\<And>i. i \<noteq> - 1 \<Longrightarrow> os i = None" "n \<le> 65534"
  shows "\<exists>as. run (init (wide 1 os)) as (init (wide (of_nat (n + 1)) os))"
  using assms(2)
proof (induction n)
  case 0
  show ?case by (auto intro: run.intros)
next
  case (Suc n)
  let ?h = "of_nat (n + 1) :: u16"
  have u: "unat ?h = n + 1" using Suc.prems by (simp add: unat_of_nat del: of_nat_add of_nat_Suc)
  then have nz: "?h \<noteq> 0" by (metis add_is_0 unsigned_0 zero_neq_one)
  have ne: "?h \<noteq> - 1"
  proof
    assume h: "?h = - 1"
    have "unat (- 1 :: u16) = 65535" by (simp add: unsigned_minus_1_eq_mask mask_eq_exp_minus_1)
    with u Suc.prems show False unfolding h by simp
  qed
  from wide_cycle [of ?h os, OF nz ne assms(1) [OF ne]]
  obtain as where "run (init (wide ?h os)) as (init (wide (?h + 1) os))" by blast
  with Suc show ?case by (auto simp: add.commute intro: run_append)
qed

section \<open>Properties\<close>

text \<open>
  (C7) Concurrency. In every state that the goroutines of an upstream reach, in whatever interleaving,
  the accounting of the slots is exact; at most one reconnect is running, and only while the flag is
  set; the pump's stop channel is closed, and a goroutine has panicked, only if the upstream was
  stopped; and for limits below 65535 all numbers in use lie between 1 and the limit.
\<close>

theorem machine_invariant:
  assumes "run (init ((newManagedUpstream u p v mx)\<lparr>conn := c\<rparr>)) as s"
  shows "slots_ok (um s) \<and> length (recs s) \<le> 1 \<and> (recs s \<noteq> [] \<longrightarrow> reconnecting (um s)) \<and>
    (writeDone (um s) \<in> doneClosed (um s) \<longrightarrow> stopped (um s)) \<and> (crashed s \<longrightarrow> stopped (um s)) \<and>
    (maxChannels (um s) \<noteq> - 1 \<longrightarrow> (\<forall>i \<in> usedChannels (um s). 1 \<le> i \<and> i \<le> maxChannels (um s)))"
  using machine_ok_run [OF assms machine_ok_init] unfolding machine_ok_def chans_bounded_def by blast

definition start_ex :: mstate where
  "start_ex = init ((newManagedUpstream ''guest'' ''guest'' ''/'' 100)\<lparr>conn := Some 0\<rparr>)"

lemma start_ex_fail:
  "step start_ex Fail (start_ex\<lparr>um := (um start_ex)\<lparr>reconnecting := True\<rparr>, recs := [Failing]\<rparr>)"
  using step.fail [of start_ex] by (simp add: start_ex_def init_def newManagedUpstream_def)

theorem machine_invariant_witness:
  "\<exists>s. run start_ex [Search, Fail, Other, Other] s \<and> recs s = [Dialling] \<and> reconnecting (um s) \<and>
     usedChannels (um s) = {1} \<and> (1 :: u16) \<le> maxChannels (um s) \<and> writeDone (um s) \<notin> doneClosed (um s)"
proof -
  let ?m = "claimChannel (um start_ex) 1 7 9"
  define s1 where "s1 = start_ex\<lparr>um := ?m\<rparr>"
  define s2 where "s2 = s1\<lparr>um := (um s1)\<lparr>reconnecting := True\<rparr>, recs := [Failing]\<rparr>"
  define s3 where "s3 = s2\<lparr>aborted := aborted s2 \<union> set (clients (um s2)), recs := [Testing]\<rparr>"
  define s4 where "s4 = s3\<lparr>um := (um s3)\<lparr>reconnectTotal := reconnectTotal (um s3) + 1\<rparr>, recs := [Dialling]\<rparr>"
  note defs = s1_def s2_def s3_def s4_def start_ex_def init_def newManagedUpstream_def claimChannel_def
  have "allocateLocked (um start_ex) 7 9 = Some (Inr 1, ?m)"
    by (simp add: allocateLocked_scan start_ex_def init_def newManagedUpstream_def hint_of_def scan_up_here free_chan_def
        claimChannel_def)
  then have "step start_ex Search s1" unfolding s1_def by (rule step.search)
  moreover have "step s1 Fail s2" using step.fail [of s1] by (simp add: defs)
  moreover have "step s2 Other s3" unfolding s3_def using step.abort_clients [of s2 "[]" "[]"] by (simp add: s2_def)
  moreover have "step s3 Other s4" using step.attempt [of s3 "[]" "[]"] by (simp add: defs)
  ultimately have r: "run start_ex [Search, Fail, Other, Other] s4" by (auto intro!: run.intros)
  have f: "recs s4 = [Dialling]" "\<not> stopped (um s4)" "usedChannels (um s4) = {1}" "maxChannels (um s4) \<noteq> - 1"
    by (simp_all add: defs)
  from machine_invariant [OF r [unfolded start_ex_def]] f r show ?thesis by (intro exI [of _ s4]) auto
qed

text \<open>
  (C6) A number is not reused too early. Once a slot is closing (the proxy has asked the broker to
  close it, or the client had), no interleaving of the goroutines lets anybody have it before the
  broker's \<open>Channel.CloseOk\<close> for it arrives or the connection is replaced; and apart from a
  replacement every step moves each slot along the slot machine only.
\<close>

theorem closing_slot_held:
  assumes "run s as s'" "slots_ok (um s)" "Reset \<notin> set as"
  shows "(slot_of (um s) u = Closing \<and> Close_ok u \<notin> set as \<longrightarrow> slot_of (um s') u = Closing) \<and>
    (\<forall>a s''. step s' a s'' \<and> a \<noteq> Reset \<longrightarrow> slot_next (slot_of (um s') u) (slot_of (um s'') u))"
proof -
  have "slots_ok (um s')" using assms(1,2) by (induction rule: run.induct) (auto dest: step_slots_ok)
  with run_closing [OF assms(1,2)] assms(3) step_slot_next show ?thesis by blast
qed

theorem closing_slot_held_witness:
  "let s = init ((mu_ex 100)\<lparr>usedChannels := {3}, pendingClose := {3}\<rparr>)
   in slot_of (um s) 3 = Closing \<and>
      slot_of (um (s\<lparr>um := snd (closeOkReceived (um s) 4)\<rparr>)) 3 = Closing"
proof -
  define s where "s = init ((mu_ex 100)\<lparr>usedChannels := {3}, pendingClose := {3}\<rparr>)"
  have r: "run s [Close_ok 4] (s\<lparr>um := snd (closeOkReceived (um s) 4)\<rparr>)"
    by (intro run.more [OF step.close_ok] run.done_run)
  have "slots_ok (um s)" "slot_of (um s) 3 = Closing"
    by (simp_all add: s_def init_def slots_ok_def slot_of_def mu_ex_def newManagedUpstream_def)
  with closing_slot_held [OF r, of 3] have "slot_of (um s) 3 = Closing \<and>
      slot_of (um (s\<lparr>um := snd (closeOkReceived (um s) 4)\<rparr>)) 3 = Closing" by auto
  then show ?thesis unfolding s_def Let_def .
qed

text \<open>
  (C30) With the default limit 65535 ordinary use leads to channel 0: there is a run of a fresh upstream in
  which channels are opened and closed one after the other and a single one, number 65535, stays
  open, after which the next search hands out channel 0.
\<close>

theorem channel_zero_reachable:
  "\<exists>as m. run (init (mu_ex (- 1))) as (init m) \<and> usedChannels m = {- 1} \<and>
     allocateLocked m c x = Some (Inr 0, claimChannel m 0 c x)"
proof -
  let ?e = "\<lparr>owner = 1, clientChanID = 1\<rparr> :: channelEntry"
  have start: "mu_ex (- 1) = wide 1 Map.empty" by (simp add: wide_def mu_ex_def newManagedUpstream_def)
  have max: "of_nat (65534 + 1) = (- 1 :: u16)" by simp
  obtain as where as: "run (init (wide 1 Map.empty)) as (init (wide (- 1) Map.empty))"
    using wide_cycles [of Map.empty 65534] unfolding max by auto
  have "claimChannel (wide (- 1) Map.empty) (- 1) 1 1 = wide 1 [- 1 \<mapsto> ?e]"
    by (simp add: claimChannel_def wide_def)
  then have st: "step (init (wide (- 1) Map.empty)) Search (init (wide 1 [- 1 \<mapsto> ?e]))"
    using step.search [of "init (wide (- 1) Map.empty)" 1 1] wide_search [of "- 1" Map.empty 1 1]
    by (simp add: init_def)
  obtain bs where bs: "run (init (wide 1 [- 1 \<mapsto> ?e])) bs (init (wide (- 1) [- 1 \<mapsto> ?e]))"
    using wide_cycles [of "[- 1 \<mapsto> ?e]" 65534] unfolding max by auto
  let ?m = "wide (- 1) [- 1 \<mapsto> ?e]"
  have "run (init (mu_ex (- 1))) (as @ Search # bs) (init ?m)"
    unfolding start by (rule run_append [OF as run.more [OF st bs]])
  moreover have "allocateLocked ?m c x = Some (Inr 0, claimChannel ?m 0 c x)"
    by (rule allocateLocked_zero) (simp_all add: hint_of_def free_chan_def word_order.extremum_unique)
  ultimately show ?thesis by (intro exI [of _ "as @ Search # bs"] exI [of _ ?m]) simp
qed

text \<open>With the stop channel closed the exchange is never taken, so no reconnect completes any more.\<close>

lemma stopped_step:
  assumes "step s a s'" "writeDone (um s) \<in> doneClosed (um s)" "set (recs s) \<inter> {Swapped, Waited, Drained} = {}"
  shows "a \<noteq> Resume \<and> writeDone (um s') \<in> doneClosed (um s') \<and> set (recs s') \<inter> {Swapped, Waited, Drained} = {}"
  using assms
proof cases
  case (search c x r m)
  with assms allocateLocked_frame [OF search(3)] show ?thesis by simp
next
  case (sweep h timeout now b m h')
  with assms show ?thesis
    by (auto simp: markStoppedIfIdle_def Let_def stopWritePump_def split: option.splits if_splits)
qed (auto simp: Register_def Deregister_def Let_def stopWritePump_def resetState_def)

lemma stopped_run:
  "run s as s' \<Longrightarrow> writeDone (um s) \<in> doneClosed (um s) \<Longrightarrow> set (recs s) \<inter> {Swapped, Waited, Drained} = {} \<Longrightarrow>
   Resume \<notin> set as"
  by (induction rule: run.induct) (auto dest: stopped_step)

text \<open>
  (C31) The race with a stop. The loop of a reconnect tests \<open>stopped\<close> only before it sleeps and dials. When
  the test has passed and the upstream is stopped then (by \<open>Stop\<close>, which closes the pump's stop
  channel), a dial that succeeds leads to closing the closed channel: the goroutine panics, which
  in Go ends the whole process. From the stop on no interleaving whatever lets the reconnect complete.
\<close>

theorem stop_during_dial_panics:
  assumes "recs s = [Testing]" "\<not> stopped (um s)"
  shows "\<exists>s1 s2 s3 s4. step s Other s1 \<and> recs s1 = [Dialling] \<and> \<not> stopped (um s1) \<and>
    reconnectTotal (um s1) = reconnectTotal (um s) + 1 \<and>
    step s1 Other s2 \<and> um s2 = stopWritePump ((um s1)\<lparr>stopped := True\<rparr>) \<and> recs s2 = [Dialling] \<and>
    step s2 Reset s3 \<and> um s3 = resetState (um s2) a now \<and> step s3 Other s4 \<and> crashed s4 \<and>
    (\<forall>as s'. run s2 as s' \<longrightarrow> Resume \<notin> set as)"
proof -
  define s1 where "s1 = s\<lparr>um := (um s)\<lparr>reconnectTotal := reconnectTotal (um s) + 1\<rparr>, recs := [Dialling]\<rparr>"
  define s2 where "s2 = s1\<lparr>um := stopWritePump ((um s1)\<lparr>stopped := True\<rparr>), aborted := aborted s1 \<union> set (clients (um s1))\<rparr>"
  define s3 where "s3 = s2\<lparr>um := resetState (um s2) a now, recs := [Reset_done]\<rparr>"
  define s4 where "s4 = s3\<lparr>recs := [], crashed := True\<rparr>"
  have "step s Other s1" using step.attempt [of s "[]" "[]"] assms by (simp add: s1_def)
  moreover have "step s1 Other s2" unfolding s2_def by (rule step.stop)
  moreover have "step s2 Reset s3" using step.reset [of s2 "[]" "[]" a now] by (simp add: s3_def s2_def s1_def)
  moreover have "step s3 Other s4" using step.panic [of s3 "[]" "[]"]
    by (simp add: s4_def s3_def s2_def resetState_def stopWritePump_def)
  moreover have "writeDone (um s2) \<in> doneClosed (um s2)" by (simp add: s2_def stopWritePump_def)
  then have "Resume \<notin> set as" if "run s2 as s'" for as s'
    using stopped_run [OF that] by (simp add: s2_def s1_def)
  ultimately show ?thesis using assms(2)
    by (intro exI [of _ s1] exI [of _ s2] exI [of _ s3] exI [of _ s4]) (simp add: s1_def s2_def s3_def s4_def)
qed

theorem stop_during_dial_panics_witness:
  "\<exists>as s. run start_ex as s \<and> crashed s"
proof -
  define s1 where "s1 = start_ex\<lparr>um := (um start_ex)\<lparr>reconnecting := True\<rparr>, recs := [Failing]\<rparr>"
  define s2 where "s2 = s1\<lparr>aborted := aborted s1 \<union> set (clients (um s1)), recs := [Testing]\<rparr>"
  have "step start_ex Fail s1" unfolding s1_def by (rule start_ex_fail)
  moreover have "step s1 Other s2" unfolding s2_def using step.abort_clients [of s1 "[]" "[]"] by (simp add: s1_def)
  moreover have "recs s2 = [Testing]" "\<not> stopped (um s2)"
    by (simp_all add: s2_def s1_def start_ex_def init_def newManagedUpstream_def)
  note stop_during_dial_panics [OF this, of 1 0]
  then obtain s3 s4 s5 s6 where "step s2 Other s3" "step s3 Other s4" "step s4 Reset s5" "step s5 Other s6" "crashed s6"
    by blast
  ultimately have "run start_ex [Fail, Other, Other, Other, Reset, Other] s6"
    by - ((rule run.more, assumption)+, rule run.done_run)
  with \<open>crashed s6\<close> show ?thesis by blast
qed

text \<open>
  (C36) A client can be lost between its registration and the test that follows. When it registers
  during a reconnect, after the failing goroutine has collected the clients to abort, and the
  reconnect then completes before the client tests the flags, the reset has removed it from the
  list of clients but the test succeeds: the client is served, its connection is open, and the
  upstream does not know it, so that no later failure, shutdown or idle sweep takes notice of it.
\<close>

theorem orphan_client:
  "\<exists>as s. run start_ex as s \<and> 9 \<in> attached s \<and> 9 \<notin> set (clients (um s)) \<and> 9 \<notin> aborted s \<and>
     \<not> stopped (um s) \<and> \<not> reconnecting (um s)"
proof -
  define s1 where "s1 = start_ex\<lparr>um := (um start_ex)\<lparr>reconnecting := True\<rparr>, recs := [Failing]\<rparr>"
  define s2 where "s2 = s1\<lparr>aborted := aborted s1 \<union> set (clients (um s1)), recs := [Testing]\<rparr>"
  define s3 where "s3 = s2\<lparr>um := Register (um s2) 9, pending := insert 9 (pending s2)\<rparr>"
  define s4 where "s4 = s3\<lparr>um := (um s3)\<lparr>reconnectTotal := reconnectTotal (um s3) + 1\<rparr>, recs := [Dialling]\<rparr>"
  define s5 where "s5 = s4\<lparr>um := resetState (um s4) 1 0, recs := [Reset_done]\<rparr>"
  define s6 where "s6 = s5\<lparr>um := (um s5)\<lparr>writeDone := 1, doneClosed := insert (writeDone (um s5)) (doneClosed (um s5))\<rparr>,
    recs := [Swapped]\<rparr>"
  define s7 where "s7 = s6\<lparr>recs := [Waited]\<rparr>"
  define s8 where "s8 = s7\<lparr>recs := [Drained]\<rparr>"
  define s9 where "s9 = s8\<lparr>um := (um s8)\<lparr>reconnecting := False\<rparr>, recs := []\<rparr>"
  define s10 where "s10 = s9\<lparr>pending := pending s9 - {9}, attached := insert 9 (attached s9)\<rparr>"
  note defs = s1_def s2_def s3_def s4_def s5_def s6_def s7_def s8_def s9_def s10_def start_ex_def init_def
    newManagedUpstream_def Register_def resetState_def
  have "step start_ex Fail s1" unfolding s1_def by (rule start_ex_fail)
  moreover have "step s1 Other s2" unfolding s2_def using step.abort_clients [of s1 "[]" "[]"] by (simp add: s1_def)
  moreover have "step s2 Other s3" unfolding s3_def by (rule step.register)
  moreover have "step s3 Other s4" using step.attempt [of s3 "[]" "[]"] by (simp add: defs)
  moreover have "step s4 Reset s5" using step.reset [of s4 "[]" "[]" 1 0] by (simp add: s5_def s4_def)
  moreover have "step s5 Other s6" using step.swap [of s5 "[]" "[]" 1] by (simp add: defs)
  moreover have "step s6 Wait s7" using step.wait [of s6 "[]" "[]"] by (simp add: s7_def s6_def)
  moreover have "step s7 Other s8" using step.drained [of s7 "[]" "[]"] by (simp add: defs)
  moreover have "step s8 Resume s9" using step.resume [of s8 "[]" "[]"] by (simp add: s9_def s8_def)
  moreover have "step s9 Other s10" unfolding s10_def by (rule step.attach) (simp_all add: defs)
  ultimately have r: "run start_ex [Fail, Other, Other, Other, Reset, Other, Wait, Other, Resume, Other] s10"
    by - ((rule run.more, assumption)+, rule run.done_run)
  have "9 \<in> attached s10" "clients (um s10) = []" "aborted s10 = {}" "\<not> stopped (um s10)" "\<not> reconnecting (um s10)"
    by (simp_all add: defs)
  with r show ?thesis by (intro exI exI [of _ s10]) auto
qed

end
