(* ===== verification/Goroutine_Machine.thy ===== *)
theory Goroutine_Machine
  imports Upstream_Machine
begin

text \<open>
  The goroutines \<open>writePump\<close> and \<open>readLoop\<close> of one upstream (\<open>proxy/managed_upstream.go\<close>) as
  individuals, on top of the step relation of \<open>Upstream_Machine\<close>. \<open>Start\<close> and every completed reconnect launch
  one of each. A pump is the connection it writes to and the stop channel it listens on, both fixed
  for its life. A reconnect passes \<open>pumpWg.Wait\<close> when no pump counts; a pump counts from
  \<open>pumpWg.Add\<close> on, which the reconnect calls only after it has cleared the flag \<open>reconnecting\<close>: between the two the
  pump is in \<open>launching\<close>. A read loop is the place it
  has reached: at the top, where it loads \<open>m.conn\<close>; reading from the connection it has loaded; or
  busy with a frame, which includes delivering it to a client that may be slow. Nobody waits for a
  read loop.
\<close>

datatype rpc = Top | Reading nat | Busy

record gstate =
  gm :: mstate
  pumps :: "(nat \<times> nat) list"
  launching :: "(nat \<times> nat) list"
  readers :: "rpc list"

text \<open>After \<open>Start\<close> on connection \<open>a\<close>.\<close>

definition started :: "ManagedUpstream \<Rightarrow> nat \<Rightarrow> gstate" where
  "started m a = \<lparr>gm = init (m\<lparr>conn := Some a\<rparr>), pumps = [(a, writeDone m)], launching = [], readers = [Top]\<rparr>"

text \<open>
  The call of \<open>handleUpstreamFailure\<close> by a goroutine that failed and is about to return: nothing
  when the upstream is stopped or the flag is set already, else the step that sets it.
\<close>

inductive failure :: "mstate \<Rightarrow> mstate \<Rightarrow> bool" where
  ignored: "stopped (um s) \<or> reconnecting (um s) \<Longrightarrow> failure s s"
| first: "\<not> stopped (um s) \<Longrightarrow> step s Fail s' \<Longrightarrow> failure s s'"

text \<open>
  The rule \<open>resumed\<close> records the connection that was dialled, which is still \<open>m.conn\<close> unless an idle
  sweep has removed it.
\<close>

inductive gstep :: "gstate \<Rightarrow> gstate \<Rightarrow> bool" where
  machine: "step (gm g) a s \<Longrightarrow> a \<notin> {Fail, Wait, Resume} \<Longrightarrow> gstep g (g\<lparr>gm := s\<rparr>)"
| waited: "step (gm g) Wait s \<Longrightarrow> pumps g = [] \<Longrightarrow> gstep g (g\<lparr>gm := s\<rparr>)"
| resumed: "step (gm g) Resume s \<Longrightarrow> conn (um s) = None \<or> conn (um s) = Some a \<Longrightarrow>
    gstep g (g\<lparr>gm := s, launching := (a, writeDone (um s)) # launching g\<rparr>)"
| launch: "launching g = as @ p # bs \<Longrightarrow>
    gstep g (g\<lparr>pumps := p # pumps g, launching := as @ bs, readers := Top # readers g\<rparr>)"
| pump_stopped: "pumps g = as @ (a, d) # bs \<Longrightarrow> d \<in> doneClosed (um (gm g)) \<Longrightarrow> gstep g (g\<lparr>pumps := as @ bs\<rparr>)"
| pump_error: "pumps g = as @ p # bs \<Longrightarrow> failure (gm g) s \<Longrightarrow> gstep g (g\<lparr>gm := s, pumps := as @ bs\<rparr>)"
| load: "readers g = as @ Top # bs \<Longrightarrow> conn (um (gm g)) = Some a \<Longrightarrow>
    gstep g (g\<lparr>readers := as @ Reading a # bs\<rparr>)"
| no_conn: "readers g = as @ Top # bs \<Longrightarrow> conn (um (gm g)) = None \<Longrightarrow> gstep g (g\<lparr>readers := as @ bs\<rparr>)"
| frame: "readers g = as @ Reading a # bs \<Longrightarrow> gstep g (g\<lparr>readers := as @ Busy # bs\<rparr>)"
| dispatched: "readers g = as @ Busy # bs \<Longrightarrow> gstep g (g\<lparr>readers := as @ Top # bs\<rparr>)"
| read_error: "readers g = as @ Reading a # bs \<Longrightarrow> failure (gm g) s \<Longrightarrow>
    gstep g (g\<lparr>gm := s, readers := as @ bs\<rparr>)"

section \<open>The pump\<close>

text \<open>Fields a pump depends on, under every step of the machine.\<close>

lemma conn_misc [simp]:
  "conn (Register m x) = conn m" "conn (Deregister m x now) = conn m" "conn (stopWritePump m) = conn m"
  "conn (snd (ScheduleChannelCloseIfOwnedBy m u x)) = conn m"
  by (simp_all add: Register_def Deregister_def stopWritePump_def ScheduleChannelCloseIfOwnedBy_def
      Let_def split: option.splits)

lemma allocateLocked_conn: "allocateLocked m c x = Some (r, m') \<Longrightarrow> conn m' = conn m"
  using allocateLocked_Inl [of m c x _ m'] allocateLocked_Inr(1) [of m c x _ m']
  by (cases r) (auto simp: claimChannel_def)

lemma markStopped_conn:
  "markStoppedIfIdle m h timeout now = (b, m', h') \<Longrightarrow>
     m' = m \<or> stopped m' \<and> conn m' = None \<and> reconnecting m' = reconnecting m"
  by (auto simp: markStoppedIfIdle_def Let_def stopWritePump_def split: option.splits if_splits)

text \<open>While no reconnect is under way and the upstream is not stopped, nobody changes the connection or the stop channel.\<close>

lemma step_pump_fields:
  assumes "step s a s'" "machine_ok s" "a \<noteq> Resume"
  shows "stopped (um s') \<or> reconnecting (um s') \<or>
    conn (um s') = conn (um s) \<and> writeDone (um s') = writeDone (um s) \<and> \<not> stopped (um s) \<and> \<not> reconnecting (um s)"
  using assms
proof cases
  case (search c x r m)
  with allocateLocked_frame [OF search(3)] allocateLocked_conn [OF search(3)] show ?thesis by auto
next
  case (sweep h timeout now b m h')
  with markStopped_conn [OF sweep(3)] show ?thesis by auto
next
  case (reset as bs b now)
  with assms(2) have "reconnecting (um s)" by (simp add: machine_ok_def)
  with reset show ?thesis by (simp add: resetState_def)
next
  case (swap as bs d)
  with assms(2) have "reconnecting (um s)" by (simp add: machine_ok_def)
  with swap show ?thesis by simp
qed (auto simp: Register_def Deregister_def Let_def stopWritePump_def)

lemma step_conn_None:
  assumes "step s a s'" "conn (um s) = None \<longrightarrow> stopped (um s)"
  shows "conn (um s') = None \<longrightarrow> stopped (um s')"
  using assms
proof cases
  case (search c x r m)
  with assms(2) allocateLocked_frame [OF search(3)] allocateLocked_conn [OF search(3)] show ?thesis by simp
next
  case (sweep h timeout now b m h')
  with assms(2) markStopped_conn [OF sweep(3)] show ?thesis by auto
qed (use assms(2) in \<open>auto simp: Register_def Deregister_def Let_def stopWritePump_def resetState_def\<close>)

text \<open>How the stop channels move: closed ones stay closed, and only the exchange brings in a new one.\<close>

definition exchanged :: "mstate \<Rightarrow> bool" where
  "exchanged s \<longleftrightarrow> set (recs s) \<inter> {Swapped, Waited, Drained} \<noteq> {}"

lemma step_done:
  assumes "step s a s'" "machine_ok s"
  shows "doneClosed (um s) \<subseteq> doneClosed (um s') \<and>
    (writeDone (um s') = writeDone (um s) \<and> (exchanged s' \<longrightarrow> exchanged s) \<or>
     writeDone (um s) \<in> doneClosed (um s') \<and> writeDone (um s') \<notin> insert (writeDone (um s)) (doneClosed (um s)))"
  using assms
proof cases
  case (search c x r m)
  with allocateLocked_frame [OF search(3)] show ?thesis by (simp add: exchanged_def)
next
  case (sweep h timeout now b m h')
  then show ?thesis
    by (auto simp: markStoppedIfIdle_def Let_def stopWritePump_def exchanged_def split: option.splits if_splits)
qed (auto simp: Register_def Deregister_def Let_def stopWritePump_def resetState_def exchanged_def)

lemma step_waited:
  assumes "step s a s'" "set (recs s') \<inter> {Waited, Drained} \<noteq> {}"
  shows "set (recs s) \<inter> {Waited, Drained} \<noteq> {} \<or> a = Wait \<and> Waited \<in> set (recs s') \<and> Swapped \<in> set (recs s)"
  using assms by cases auto

text \<open>
  The pumps alive or about to be launched: each listens on a closed channel or on the current one,
  at most one on the current one, none between the exchange and the end of a reconnect; and that one
  writes to the current connection.
\<close>

definition current :: "gstate \<Rightarrow> (nat \<times> nat) list" where
  "current g = filter (\<lambda>p. snd p = writeDone (um (gm g))) (pumps g @ launching g)"

definition pumps_ok :: "gstate \<Rightarrow> bool" where
  "pumps_ok g \<longleftrightarrow> machine_ok (gm g) \<and> (conn (um (gm g)) = None \<longrightarrow> stopped (um (gm g))) \<and>
     (\<forall>p \<in> set (pumps g @ launching g). snd p \<in> insert (writeDone (um (gm g))) (doneClosed (um (gm g)))) \<and>
     length (current g) \<le> 1 \<and> (exchanged (gm g) \<longrightarrow> current g = []) \<and>
     (\<forall>p \<in> set (current g). stopped (um (gm g)) \<or> reconnecting (um (gm g)) \<or> conn (um (gm g)) = Some (fst p))"

lemma pumps_okD:
  assumes "pumps_ok g"
  shows "machine_ok (gm g)" "conn (um (gm g)) = None \<Longrightarrow> stopped (um (gm g))"
    "p \<in> set (pumps g @ launching g) \<Longrightarrow> snd p \<in> insert (writeDone (um (gm g))) (doneClosed (um (gm g)))"
    "length (current g) \<le> 1" "exchanged (gm g) \<Longrightarrow> current g = []"
    "p \<in> set (current g) \<Longrightarrow> stopped (um (gm g)) \<or> reconnecting (um (gm g)) \<or> conn (um (gm g)) = Some (fst p)"
  using assms unfolding pumps_ok_def by blast+

text \<open>Steps that leave the pumps alone, and steps that only drop or rearrange them.\<close>

lemma pumps_ok_machine:
  assumes "pumps_ok g" "step (gm g) a s" "a \<noteq> Resume"
  shows "pumps_ok (g\<lparr>gm := s\<rparr>)"
proof -
  note ok = pumps_okD [OF assms(1)]
  let ?ps = "pumps g @ launching g"
  have d: "doneClosed (um (gm g)) \<subseteq> doneClosed (um s)" using step_done [OF assms(2) ok(1)] by blast
  have c: "conn (um s) = None \<longrightarrow> stopped (um s)" using step_conn_None [OF assms(2)] ok(2) by blast
  consider (same) "writeDone (um s) = writeDone (um (gm g))" "exchanged s \<longrightarrow> exchanged (gm g)"
    | (fresh) "writeDone (um (gm g)) \<in> doneClosed (um s)"
        "writeDone (um s) \<notin> insert (writeDone (um (gm g))) (doneClosed (um (gm g)))"
    using step_done [OF assms(2) ok(1)] by blast
  then show ?thesis
  proof cases
    case same
    have "current (g\<lparr>gm := s\<rparr>) = current g" using same(1) by (simp add: current_def)
    moreover have "stopped (um s) \<or> reconnecting (um s) \<or> conn (um s) = Some (fst p)" if "p \<in> set (current g)" for p
      using step_pump_fields [OF assms(2) ok(1) assms(3)] ok(6) [OF that] by auto
    moreover have "snd p \<in> insert (writeDone (um s)) (doneClosed (um s))" if "p \<in> set ?ps" for p
      using ok(3) [OF that] d same(1) by auto
    ultimately show ?thesis
      using machine_ok_step [OF ok(1) assms(2)] c same(2) ok(4,5) unfolding pumps_ok_def by simp
  next
    case fresh
    have "current (g\<lparr>gm := s\<rparr>) = []" using fresh ok(3) by (force simp: current_def filter_empty_conv)
    moreover have "snd p \<in> insert (writeDone (um s)) (doneClosed (um s))" if "p \<in> set ?ps" for p
      using ok(3) [OF that] d fresh(1) by auto
    ultimately show ?thesis using machine_ok_step [OF ok(1) assms(2)] c unfolding pumps_ok_def by simp
  qed
qed

lemma pumps_ok_fewer:
  assumes "pumps_ok g" "gm g' = gm g" "length (current g') \<le> length (current g)"
    "set (pumps g' @ launching g') \<subseteq> set (pumps g @ launching g)"
  shows "pumps_ok g'"
proof -
  have "set (current g') \<subseteq> set (current g)" using assms(2,4) by (auto simp: current_def)
  moreover have "current g = [] \<Longrightarrow> current g' = []" using assms(3) by simp
  moreover have "length (current g') \<le> 1" using assms(3) pumps_okD(4) [OF assms(1)] by linarith
  ultimately show ?thesis using pumps_okD [OF assms(1)] assms(2,4) unfolding pumps_ok_def by simp blast
qed

lemma pumps_ok_failure:
  assumes "pumps_ok g" "failure (gm g) s"
  shows "pumps_ok (g\<lparr>gm := s\<rparr>)"
  using assms(2)
proof cases
  case first
  with pumps_ok_machine [OF assms(1), of Fail s] show ?thesis by simp
qed (use assms(1) in simp)

lemma pumps_ok_resumed:
  assumes "pumps_ok g" "step (gm g) Resume s" "conn (um s) = None \<or> conn (um s) = Some a"
  shows "pumps_ok (g\<lparr>gm := s, launching := (a, writeDone (um s)) # launching g\<rparr>)"
proof -
  note ok = pumps_okD [OF assms(1)]
  have "exchanged (gm g)" "\<not> exchanged s" "writeDone (um s) = writeDone (um (gm g))"
    "doneClosed (um s) = doneClosed (um (gm g))"
    using assms(2) ok(1) by (cases; auto simp: exchanged_def machine_ok_def Cons_eq_append_conv)+
  moreover have "conn (um s) = None \<longrightarrow> stopped (um s)" using step_conn_None [OF assms(2)] ok(2) by blast
  ultimately show ?thesis
    using machine_ok_step [OF ok(1) assms(2)] ok(3) ok(5) assms(3) by (auto simp: pumps_ok_def current_def)
qed

lemma pumps_ok_step: "gstep g g' \<Longrightarrow> pumps_ok g \<Longrightarrow> pumps_ok g'"
proof (induction rule: gstep.induct)
  case (launch g as p bs)
  then show ?case by (auto intro: pumps_ok_fewer [of g] simp: current_def)
next
  case (pump_stopped g as a d bs)
  then show ?case by (auto intro: pumps_ok_fewer [of g] simp: current_def)
next
  case (pump_error g as p bs s)
  from pumps_ok_failure [OF pump_error(3,2)] have "pumps_ok (g\<lparr>gm := s\<rparr>)" .
  with pump_error(1) show ?case by (auto intro: pumps_ok_fewer [of "g\<lparr>gm := s\<rparr>"] simp: current_def)
next
  case (read_error g as a bs s)
  from pumps_ok_failure [OF read_error(3,2)] have "pumps_ok (g\<lparr>gm := s\<rparr>)" .
  then show ?case by (auto intro: pumps_ok_fewer [of "g\<lparr>gm := s\<rparr>"] simp: current_def)
qed (auto intro: pumps_ok_machine pumps_ok_resumed pumps_ok_fewer simp: current_def)

text \<open>
  Prompt runs: no reconnect passes \<open>pumpWg.Wait\<close> while an earlier one has cleared the flag but not
  yet launched its pump.
\<close>

definition prompt :: "gstate \<Rightarrow> gstate \<Rightarrow> bool" where
  "prompt g g' \<longleftrightarrow> gstep g g' \<and>
     (launching g = [] \<or> Waited \<in> set (recs (gm g)) \<or> Waited \<notin> set (recs (gm g')))"

definition one_pump :: "gstate \<Rightarrow> bool" where
  "one_pump g \<longleftrightarrow> length (pumps g @ launching g) \<le> 1 \<and>
     (set (recs (gm g)) \<inter> {Waited, Drained} \<noteq> {} \<longrightarrow> pumps g = [] \<and> launching g = [])"

lemma failure_waited:
  "failure s s' \<Longrightarrow> set (recs s') \<inter> {Waited, Drained} \<noteq> {} \<Longrightarrow> set (recs s) \<inter> {Waited, Drained} \<noteq> {}"
  by (auto elim!: failure.cases step.cases)

lemma one_pump_step:
  assumes "prompt g g'" "pumps_ok g" "one_pump g"
  shows "one_pump g'"
proof -
  have m: "machine_ok (gm g)" using assms(2) by (rule pumps_okD)
  from assms(1) have "gstep g g'" by (simp add: prompt_def)
  then show ?thesis
  proof cases
    case (machine a s)
    with step_waited [OF machine(2)] assms(3) show ?thesis by (auto simp: one_pump_def)
  next
    case (waited s)
    then have "Waited \<notin> set (recs (gm g))" "Waited \<in> set (recs s)"
      using m by (auto elim!: step.cases simp: machine_ok_def Cons_eq_append_conv)
    with assms(1) waited have "launching g = []" by (simp add: prompt_def)
    with waited show ?thesis by (simp add: one_pump_def)
  next
    case (resumed s a)
    then have "Drained \<in> set (recs (gm g))" "recs s = []"
      using m by (auto elim!: step.cases simp: machine_ok_def Cons_eq_append_conv)
    with assms(3) resumed show ?thesis by (auto simp: one_pump_def)
  next
    case (pump_error as p bs s)
    with failure_waited [of "gm g" s] assms(3) show ?thesis by (auto simp: one_pump_def)
  next
    case (read_error as a bs s)
    with failure_waited [of "gm g" s] assms(3) show ?thesis by (auto simp: one_pump_def)
  qed (use assms(3) in \<open>auto simp: one_pump_def\<close>)
qed

section \<open>Properties\<close>

lemma pumps_ok_started: "pumps_ok (started (newManagedUpstream u p v mx) a)"
  using machine_ok_init [where c = "Some a"]
  by (simp add: pumps_ok_def started_def init_def newManagedUpstream_def current_def exchanged_def)

lemma pumps_ok_reachable: "gstep\<^sup>*\<^sup>* g g' \<Longrightarrow> pumps_ok g \<Longrightarrow> pumps_ok g'"
  by (induction rule: rtranclp_induct) (auto dest: pumps_ok_step)

lemma one_pump_reachable: "prompt\<^sup>*\<^sup>* g g' \<Longrightarrow> pumps_ok g \<Longrightarrow> one_pump g \<Longrightarrow> pumps_ok g' \<and> one_pump g'"
proof (induction rule: rtranclp_induct)
  case (step y z)
  then have "gstep y z" by (simp add: prompt_def)
  with step one_pump_step pumps_ok_step show ?case by blast
qed blast

text \<open>
  (C16) The pump. However often the connection fails and is replaced, and in whatever interleaving, at
  most one pump, alive or about to be launched, listens on a stop channel that is still open; as long as the
  upstream is neither stopped nor reconnecting this pump writes to the current connection and listens on the
  current stop channel. At most one pump exists at all as long as no reconnect passes \<open>pumpWg.Wait\<close> between
  the moment an earlier one clears the flag and the moment it launches its pump.
\<close>

theorem single_pump:
  assumes "gstep\<^sup>*\<^sup>* (started (newManagedUpstream u p v mx) a) g"
  shows "length (filter (\<lambda>(b, d). d \<notin> doneClosed (um (gm g))) (pumps g @ launching g)) \<le> 1 \<and>
    (\<forall>(b, d) \<in> set (pumps g @ launching g).
       d \<notin> doneClosed (um (gm g)) \<and> \<not> stopped (um (gm g)) \<and> \<not> reconnecting (um (gm g)) \<longrightarrow>
       conn (um (gm g)) = Some b \<and> writeDone (um (gm g)) = d) \<and>
    (prompt\<^sup>*\<^sup>* (started (newManagedUpstream u p v mx) a) g \<longrightarrow> length (pumps g) + length (launching g) \<le> 1)"
proof (intro conjI impI)
  let ?open = "\<lambda>p. snd p \<notin> doneClosed (um (gm g))"
  have ok: "pumps_ok g" using pumps_ok_reachable [OF assms pumps_ok_started] .
  have f: "filter ?open (pumps g @ launching g) = filter ?open (current g)"
    unfolding current_def filter_filter using pumps_okD(3) [OF ok] by (intro filter_cong) auto
  have "length (filter ?open (current g)) \<le> 1"
    using pumps_okD(4) [OF ok] length_filter_le [of ?open "current g"] by linarith
  with f show "length (filter (\<lambda>(b, d). d \<notin> doneClosed (um (gm g))) (pumps g @ launching g)) \<le> 1"
    by (simp add: case_prod_unfold)
  show "\<forall>(b, d) \<in> set (pumps g @ launching g).
       d \<notin> doneClosed (um (gm g)) \<and> \<not> stopped (um (gm g)) \<and> \<not> reconnecting (um (gm g)) \<longrightarrow>
       conn (um (gm g)) = Some b \<and> writeDone (um (gm g)) = d"
    using pumps_okD(3,6) [OF ok] by (fastforce simp: current_def)
  assume "prompt\<^sup>*\<^sup>* (started (newManagedUpstream u p v mx) a) g"
  from one_pump_reachable [OF this pumps_ok_started] show "length (pumps g) + length (launching g) \<le> 1"
    by (simp add: one_pump_def started_def init_def)
qed

section \<open>Examples\<close>

definition g_ex :: gstate where
  "g_ex = started (newManagedUpstream ''guest'' ''guest'' ''/'' 100) 0"

text \<open>The upstream after \<open>n\<close> reconnects, on connection \<open>n\<close> with stop channel \<open>n\<close>, and the same just after a failure.\<close>

definition quiet :: "nat \<Rightarrow> mstate" where
  "quiet n = init ((newManagedUpstream ''guest'' ''guest'' ''/'' 100)
     \<lparr>conn := Some n, reconnectTotal := int n, lastEmptyTime := (if n = 0 then None else Some 0),
      writeDone := n, doneClosed := {..<n}\<rparr>)"

definition failed :: "nat \<Rightarrow> mstate" where
  "failed n = (quiet n)\<lparr>um := (um (quiet n))\<lparr>reconnecting := True\<rparr>, recs := [Failing]\<rparr>"

lemma quiet_facts [simp]:
  "\<not> stopped (um (quiet n))" "\<not> reconnecting (um (quiet n))" "conn (um (quiet n)) = Some n"
  "writeDone (um (quiet n)) = n" "doneClosed (um (quiet n)) = {..<n}" "recs (quiet n) = []"
  by (simp_all add: quiet_def init_def newManagedUpstream_def)

definition gst :: "mstate \<Rightarrow> (nat \<times> nat) list \<Rightarrow> (nat \<times> nat) list \<Rightarrow> rpc list \<Rightarrow> gstate" where
  "gst s ps ls rs = \<lparr>gm = s, pumps = ps, launching = ls, readers = rs\<rparr>"

lemma gst_simps [simp]: "gm (gst s ps ls rs) = s" "pumps (gst s ps ls rs) = ps" "launching (gst s ps ls rs) = ls"
  "readers (gst s ps ls rs) = rs" "(gst s ps ls rs)\<lparr>gm := s'\<rparr> = gst s' ps ls rs"
  "(gst s ps ls rs)\<lparr>pumps := ps'\<rparr> = gst s ps' ls rs" "(gst s ps ls rs)\<lparr>launching := ls'\<rparr> = gst s ps ls' rs"
  "(gst s ps ls rs)\<lparr>readers := rs'\<rparr> = gst s ps ls rs'"
  by (simp_all add: gst_def)

lemma g_ex_gst: "g_ex = gst (quiet 0) [(0, 0)] [] [Top]"
  by (simp add: gst_def g_ex_def started_def quiet_def init_def newManagedUpstream_def)

lemma failure_quiet: "failure (quiet n) (failed n)"
  using step.fail [of "quiet n"] by (auto simp: failed_def intro: failure.first)

text \<open>A reconnect after a failure, up to the end of \<open>reconnecting\<close>: its steps, and as a run of the goroutines.\<close>

lemma reconnect_steps:
  "\<exists>s1 s2 s3 s4 s5 s6. step (failed n) Other s1 \<and> step s1 Other s2 \<and> step s2 Reset s3 \<and> step s3 Other s4 \<and>
     step s4 Wait s5 \<and> step s5 Other s6 \<and> step s6 Resume (quiet (Suc n))"
proof -
  define s1 where "s1 = (failed n)\<lparr>aborted := aborted (failed n) \<union> set (clients (um (failed n))), recs := [Testing]\<rparr>"
  define s2 where "s2 = s1\<lparr>um := (um s1)\<lparr>reconnectTotal := reconnectTotal (um s1) + 1\<rparr>, recs := [Dialling]\<rparr>"
  define s3 where "s3 = s2\<lparr>um := resetState (um s2) (Suc n) 0, recs := [Reset_done]\<rparr>"
  define s4 where "s4 = s3\<lparr>um := (um s3)\<lparr>writeDone := Suc n, doneClosed := insert (writeDone (um s3)) (doneClosed (um s3))\<rparr>,
    recs := [Swapped]\<rparr>"
  define s5 where "s5 = s4\<lparr>recs := [Waited]\<rparr>"
  define s6 where "s6 = s5\<lparr>recs := [Drained]\<rparr>"
  note defs = s1_def s2_def s3_def s4_def s5_def s6_def failed_def quiet_def init_def newManagedUpstream_def resetState_def
  have "step (failed n) Other s1" using step.abort_clients [of "failed n" "[]" "[]"] by (simp add: s1_def failed_def)
  moreover have "step s1 Other s2" using step.attempt [of s1 "[]" "[]"] by (simp add: defs)
  moreover have "step s2 Reset s3" using step.reset [of s2 "[]" "[]" "Suc n" 0] by (simp add: s3_def s2_def)
  moreover have "step s3 Other s4" using step.swap [of s3 "[]" "[]" "Suc n"] by (simp add: defs)
  moreover have "step s4 Wait s5" using step.wait [of s4 "[]" "[]"] by (simp add: s5_def s4_def)
  moreover have "step s5 Other s6" using step.drained [of s5 "[]" "[]"] by (simp add: defs)
  moreover have "step s6 Resume (quiet (Suc n))"
    using step.resume [of s6 "[]" "[]"] by (simp add: defs lessThan_Suc add.commute)
  ultimately show ?thesis by blast
qed

lemma gstep_chain: "gstep\<^sup>*\<^sup>* g g1 \<Longrightarrow> gstep g1 g2 \<Longrightarrow> gstep\<^sup>*\<^sup>* g g2"
  by (rule rtranclp.rtrancl_into_rtrancl)

lemma reconnect_gsteps:
  "gstep\<^sup>*\<^sup>* (gst (failed n) [] ls rs) (gst (quiet (Suc n)) [] ((Suc n, Suc n) # ls) rs)"
proof -
  obtain s1 s2 s3 s4 s5 s6 where s: "step (failed n) Other s1" "step s1 Other s2" "step s2 Reset s3" "step s3 Other s4"
    "step s4 Wait s5" "step s5 Other s6" "step s6 Resume (quiet (Suc n))" using reconnect_steps by blast
  have m: "gstep (gst s [] ls rs) (gst s' [] ls rs)" if "step s a s'" "a \<noteq> Fail" "a \<noteq> Resume" for s a s'
    using that gstep.machine [of "gst s [] ls rs" a s'] gstep.waited [of "gst s [] ls rs" s'] by (cases "a = Wait") simp_all
  have "gstep (gst s6 [] ls rs) (gst (quiet (Suc n)) [] ((Suc n, Suc n) # ls) rs)"
    using gstep.resumed [of "gst s6 [] ls rs" "quiet (Suc n)" "Suc n"] s(7) by simp
  with m [OF s(1)] m [OF s(2)] m [OF s(3)] m [OF s(4)] m [OF s(5)] m [OF s(6)] show ?thesis
    by (simp add: converse_rtranclp_into_rtranclp)
qed

text \<open>A reconnect after an error of the pump, whatever the read loops of before are doing.\<close>

lemma pump_failure: "gstep (gst (quiet n) [p] ls rs) (gst (failed n) [] ls rs)"
  using gstep.pump_error [of "gst (quiet n) [p] ls rs" "[]" p "[]" "failed n"] failure_quiet by simp

lemma relaunch_gsteps:
  "gstep\<^sup>*\<^sup>* (gst (quiet n) [(n, n)] [] rs) (gst (quiet (Suc n)) [(Suc n, Suc n)] [] (Top # rs))"
proof -
  have "gstep (gst (quiet (Suc n)) [] [(Suc n, Suc n)] rs) (gst (quiet (Suc n)) [(Suc n, Suc n)] [] (Top # rs))"
    using gstep.launch [of "gst (quiet (Suc n)) [] [(Suc n, Suc n)] rs" "[]" "(Suc n, Suc n)" "[]"] by simp
  with converse_rtranclp_into_rtranclp [OF pump_failure reconnect_gsteps] show ?thesis by (rule gstep_chain)
qed

theorem single_pump_witness:
  "\<exists>g. gstep\<^sup>*\<^sup>* g_ex g \<and> pumps g = [(1, 1)] \<and> 1 \<notin> doneClosed (um (gm g)) \<and>
     conn (um (gm g)) = Some 1 \<and> writeDone (um (gm g)) = 1"
proof -
  let ?g = "gst (quiet 1) [(1, 1)] [] [Top, Top]"
  have r: "gstep\<^sup>*\<^sup>* g_ex ?g" using relaunch_gsteps [of 0 "[Top]"] by (simp add: g_ex_gst)
  with single_pump [OF r [unfolded g_ex_def]] show ?thesis by (intro exI [of _ ?g]) simp
qed

text \<open>
  (C35) Goroutines that outlive their connection. Nobody waits for the old read loop, and it loads \<open>m.conn\<close> afresh on every turn: when it is
  still delivering a frame while the pump fails and the connection is replaced, it goes on
  with the new connection beside the new read loop, and both parse the same buffered reader.
  When it is still reading the old connection instead, its error arrives after the
  reconnect, passes the guard and tears the new connection down. When that error arrives between the
  moment the reconnect clears the flag and the moment it launches its pump, the second reconnect does not wait for
  that pump, and in the end two pumps take frames from the same queue, one of them for a connection
  that has been replaced.
\<close>

theorem two_readers:
  "(\<exists>g. gstep\<^sup>*\<^sup>* g_ex g \<and> readers g = [Reading 1, Reading 1] \<and> conn (um (gm g)) = Some 1 \<and>
      \<not> stopped (um (gm g)) \<and> \<not> reconnecting (um (gm g))) \<and>
   (\<exists>g g'. gstep\<^sup>*\<^sup>* g_ex g \<and> readers g = [Top, Reading 0] \<and> conn (um (gm g)) = Some 1 \<and>
      \<not> reconnecting (um (gm g)) \<and> gstep g g' \<and> reconnecting (um (gm g')) \<and> recs (gm g') = [Failing]) \<and>
   (\<exists>g. gstep\<^sup>*\<^sup>* g_ex g \<and> pumps g = [(1, 1), (2, 2)] \<and> conn (um (gm g)) = Some 2 \<and>
      \<not> stopped (um (gm g)) \<and> \<not> reconnecting (um (gm g)))"
proof -
  have l: "gstep (gst (quiet 0) [(0, 0)] [] [Top]) (gst (quiet 0) [(0, 0)] [] [Reading 0])"
    using gstep.load [of "gst (quiet 0) [(0, 0)] [] [Top]" "[]" "[]" 0] by simp
  have f: "gstep (gst (quiet 0) [(0, 0)] [] [Reading 0]) (gst (quiet 0) [(0, 0)] [] [Busy])"
    using gstep.frame [of "gst (quiet 0) [(0, 0)] [] [Reading 0]" "[]" 0 "[]"] by simp
  let ?n = "gst (quiet 1) [(1, 1)] []"
  have nr: "gstep\<^sup>*\<^sup>* g_ex (?n [Top, Reading 0])"
    using converse_rtranclp_into_rtranclp [OF l relaunch_gsteps] by (simp add: g_ex_gst)
  have nb: "gstep\<^sup>*\<^sup>* g_ex (?n [Top, Busy])"
    using converse_rtranclp_into_rtranclp [OF l converse_rtranclp_into_rtranclp [OF f relaunch_gsteps]]
    by (simp add: g_ex_gst)
  have "gstep (?n [Top, Busy]) (?n [Top, Top])" using gstep.dispatched [of "?n [Top, Busy]" "[Top]" "[]"] by simp
  moreover have "gstep (?n [Top, Top]) (?n [Reading 1, Top])" using gstep.load [of "?n [Top, Top]" "[]" "[Top]" 1] by simp
  moreover have "gstep (?n [Reading 1, Top]) (?n [Reading 1, Reading 1])"
    using gstep.load [of "?n [Reading 1, Top]" "[Reading 1]" "[]" 1] by simp
  ultimately have two: "gstep\<^sup>*\<^sup>* g_ex (?n [Reading 1, Reading 1])" using nb by (meson gstep_chain)
  have late: "gstep (?n [Top, Reading 0]) (gst (failed 1) [(1, 1)] [] [Top])"
    using gstep.read_error [of "?n [Top, Reading 0]" "[Top]" 0 "[]" "failed 1"] failure_quiet by simp
  have "gstep\<^sup>*\<^sup>* g_ex (gst (quiet 1) [] [(1, 1)] [Reading 0])"
    using converse_rtranclp_into_rtranclp [OF l converse_rtranclp_into_rtranclp [OF pump_failure reconnect_gsteps]]
    by (simp add: g_ex_gst)
  moreover have "gstep (gst (quiet 1) [] [(1, 1)] [Reading 0]) (gst (failed 1) [] [(1, 1)] [])"
    using gstep.read_error [of "gst (quiet 1) [] [(1, 1)] [Reading 0]" "[]" 0 "[]" "failed 1"] failure_quiet by simp
  moreover have "gstep\<^sup>*\<^sup>* (gst (failed 1) [] [(1, 1)] []) (gst (quiet 2) [] [(2, 2), (1, 1)] [])"
    using reconnect_gsteps [of 1 "[(1, 1)]" "[]"] by (simp add: numeral_2_eq_2)
  moreover have "gstep (gst (quiet 2) [] [(2, 2), (1, 1)] []) (gst (quiet 2) [(2, 2)] [(1, 1)] [Top])"
    using gstep.launch [of "gst (quiet 2) [] [(2, 2), (1, 1)] []" "[]" "(2, 2)" "[(1, 1)]"] by simp
  moreover have "gstep (gst (quiet 2) [(2, 2)] [(1, 1)] [Top]) (gst (quiet 2) [(1, 1), (2, 2)] [] [Top, Top])"
    using gstep.launch [of "gst (quiet 2) [(2, 2)] [(1, 1)] [Top]" "[]" "(1, 1)" "[]"] by simp
  ultimately have pumps: "gstep\<^sup>*\<^sup>* g_ex (gst (quiet 2) [(1, 1), (2, 2)] [] [Top, Top])"
    by (meson gstep_chain rtranclp_trans)
  show ?thesis
  proof (intro conjI)
    show "\<exists>g. gstep\<^sup>*\<^sup>* g_ex g \<and> readers g = [Reading 1, Reading 1] \<and> conn (um (gm g)) = Some 1 \<and>
        \<not> stopped (um (gm g)) \<and> \<not> reconnecting (um (gm g))"
      using two by (intro exI [of _ "?n [Reading 1, Reading 1]"]) simp
    show "\<exists>g g'. gstep\<^sup>*\<^sup>* g_ex g \<and> readers g = [Top, Reading 0] \<and> conn (um (gm g)) = Some 1 \<and>
        \<not> reconnecting (um (gm g)) \<and> gstep g g' \<and> reconnecting (um (gm g')) \<and> recs (gm g') = [Failing]"
      using nr late by (intro exI [of _ "?n [Top, Reading 0]"] exI [of _ "gst (failed 1) [(1, 1)] [] [Top]"])
        (simp add: failed_def)
    show "\<exists>g. gstep\<^sup>*\<^sup>* g_ex g \<and> pumps g = [(1, 1), (2, 2)] \<and> conn (um (gm g)) = Some 2 \<and>
        \<not> stopped (um (gm g)) \<and> \<not> reconnecting (um (gm g))"
      using pumps by (intro exI [of _ "gst (quiet 2) [(1, 1), (2, 2)] [] [Top, Top]"]) simp
  qed
qed

end
