(* ===== verification/Virtual_Connection.thy ===== *)
theory Virtual_Connection
  imports Client_Loop
begin

text \<open>
  What a multiplexer promises, and how far this one keeps it: each client has, as far as it and the
  broker can tell, a connection of its own. The specification is a single private connection: the
  channels open on it, the bytes its client has been handed and whether it still works. The
  implementation is the \<open>world\<close> of one broker connection, shared by all clients, with the
  goroutines taking whole turns one after the other, in any order. A step of the world is observed
  through the slot table (whoever owns the channel of a frame that is queued for the broker is its
  sender), and the observations of one client form a run of its private connection.

  Two restrictions are part of the relation \<open>wstep\<close>. The clients are \<open>conforming\<close>, which the proxy
  does not check: \<open>unmapped_forwarded\<close> and \<open>reopen_leak\<close> (theory \<open>Client_Loop\<close>) show what others can
  do. And a turn is not interrupted: in the code, the dispatch of a \<open>Channel.CloseOk\<close> is three
  sections, and \<open>closeok_reopen_race\<close> shows what a client's turn between them does. Across a
  reconnect the promise is broken, as \<open>stale_client_injects\<close> shows below.
\<close>

section \<open>The specification: a private connection\<close>

record vconn =
  vopen :: "u16 set"
  got :: "byte list"
  vup :: bool

datatype vact =
    V_open u16
  | V_send Frame
  | V_recv Frame
  | V_closed Frame
  | V_gone u16
  | V_control Frame
  | V_drop

text \<open>Bytes for the client: all of them while the connection works, else a prefix.\<close>

definition handed :: "vconn \<Rightarrow> byte list \<Rightarrow> vconn \<Rightarrow> bool" where
  "handed v bs v' \<longleftrightarrow> vopen v' = vopen v \<and> (\<exists>k \<le> length bs. got v' = got v @ take k bs) \<and>
     (vup v \<longrightarrow> got v' = got v @ bs \<and> vup v')"

inductive vstep :: "vconn \<Rightarrow> vact \<Rightarrow> vconn \<Rightarrow> bool" where
  v_open: "c \<notin> vopen v \<Longrightarrow> vstep v (V_open c) (v\<lparr>vopen := insert c (vopen v)\<rparr>)"
| v_send: "Channel f \<in> vopen v \<Longrightarrow> vstep v (V_send f) v"
| v_recv: "Channel f \<in> vopen v \<Longrightarrow> \<not> isChannelCloseOk f \<Longrightarrow> handed v (frame_bytes f) v' \<Longrightarrow>
    vstep v (V_recv f) v'"
| v_closed: "Channel f \<in> vopen v \<Longrightarrow> isChannelCloseOk f \<Longrightarrow> handed v (frame_bytes f) v' \<Longrightarrow>
    vstep v (V_closed f) (v'\<lparr>vopen := vopen v - {Channel f}\<rparr>)"
| v_gone: "c \<in> vopen v \<Longrightarrow> vstep v (V_gone c) (v\<lparr>vopen := vopen v - {c}\<rparr>)"
| v_control: "Channel f = 0 \<Longrightarrow> handed v (frame_bytes f) v' \<Longrightarrow> vstep v (V_control f) v'"
| v_drop: "vstep v V_drop (v\<lparr>vup := False\<rparr>)"

inductive vrun :: "vconn \<Rightarrow> vact list \<Rightarrow> vconn \<Rightarrow> bool" where
  v_nil: "vrun v [] v"
| v_cons: "vstep v a v1 \<Longrightarrow> vrun v1 as v' \<Longrightarrow> vrun v (a # as) v'"

inductive_simps vrun_Nil [simp]: "vrun v [] v'"
inductive_simps vrun_Cons: "vrun v (a # as) v'"

lemma vrun_append: "vrun v as v1 \<Longrightarrow> vrun v1 bs v2 \<Longrightarrow> vrun v (as @ bs) v2"
  by (induction rule: vrun.induct) (auto intro: vrun.intros)

lemma vrun_single: "vstep v a v' \<Longrightarrow> vrun v [a] v'"
  by (auto intro: vrun.intros)

section \<open>The implementation: the shared connection, observed\<close>

text \<open>The private connection that the record of a client stands for.\<close>

definition view :: "ClientConnection \<Rightarrow> vconn" where
  "view cc = \<lparr>vopen = dom (ChannelMapping cc), got = accepted (Writer cc), vup = live_bufio (Writer cc)\<rparr>"

text \<open>The frames a step has queued for the broker, each under the name of its sender.\<close>

definition queued :: "world \<Rightarrow> world \<Rightarrow> (nat \<times> vact) list" where
  "queued w w' =
     concat (map (\<lambda>h. case slot_of (mu w') (Channel h) of
         Owned y c \<Rightarrow> [(y, V_send (h\<lparr>Channel := c\<rparr>))] | _ \<Rightarrow> [])
       (drop (length (writeCh (mu w))) (writeCh (mu w'))))"

text \<open>What a frame of the broker means for the clients.\<close>

definition arrived :: "world \<Rightarrow> Frame \<Rightarrow> (nat \<times> vact) list" where
  "arrived w g =
     (if Type g = FrameTypeHeartbeat then []
      else if Channel g = 0 then concat (map (\<lambda>x. [(x, V_control g), (x, V_drop)]) (clients (mu w)))
      else case slot_of (mu w) (Channel g) of
        Owned y c \<Rightarrow>
          [(y, if isChannelCloseOk g then V_closed (g\<lparr>Channel := c\<rparr>) else V_recv (g\<lparr>Channel := c\<rparr>))]
      | _ \<Rightarrow> [])"

text \<open>
  A client that uses its channels as the protocol says: it opens a channel number only while it is
  not open, and sends only on open channels. The proxy does not enforce this.
\<close>

definition conforming :: "ClientConnection \<Rightarrow> Frame \<Rightarrow> bool" where
  "conforming cc f \<longleftrightarrow> Type f = FrameTypeHeartbeat \<or> isConnectionClose f \<or>
     (if isChannelOpen f then ChannelMapping cc (Channel f) = None
      else ChannelMapping cc (Channel f) \<noteq> None)"

text \<open>
  The turns of all goroutines on one broker connection, each taken as a whole: the loop body of a
  conforming client, the dispatch of a frame of the broker, one entry of the cleanup after a client, a
  turn of the pump, registration and deregistration, and the failure of the connection.
\<close>

inductive wstep :: "world \<Rightarrow> (nat \<times> vact) list \<Rightarrow> world \<Rightarrow> bool" where
  w_client: "conforming (ccs w x) f \<Longrightarrow> Next w' \<in> set (handleFrame w x f) \<Longrightarrow>
    wstep w ((if isChannelOpen f then [(x, V_open (Channel f))] else []) @ queued w w') w'"
| w_leave: "conforming (ccs w x) f \<Longrightarrow> Leave w' \<in> set (handleFrame w x f) \<Longrightarrow>
    wstep w (if isConnectionClose f then [(x, V_control (method_frame (method_header 10 51)))] else []) w'"
| w_broker: "frame_ok g \<Longrightarrow> w' \<in> set (readLoop_dispatch w g) \<Longrightarrow> wstep w (arrived w g) w'"
| w_release: "ChannelMapping (ccs w x) c = Some u \<Longrightarrow> w' \<in> set (releaseOne w x (c, u)) \<Longrightarrow>
    wstep w [(x, V_gone c)] w'"
| w_pump: "Again w' \<in> set (writePump_turn a d w) \<Longrightarrow> wstep w [] w'"
| w_register: "wstep w [] (w\<lparr>mu := Register (mu w) x\<rparr>)"
| w_deregister: "wstep w [] (w\<lparr>mu := Deregister (mu w) x now\<rparr>)"
| w_fail: "handleUpstreamFailure w = (True, w') \<Longrightarrow>
    wstep w (map (\<lambda>x. (x, V_drop)) (clients (mu w))) w'"

inductive wrun :: "world \<Rightarrow> (nat \<times> vact) list \<Rightarrow> world \<Rightarrow> bool" where
  w_nil: "wrun w [] w"
| w_cons: "wstep w es w1 \<Longrightarrow> wrun w1 fs w' \<Longrightarrow> wrun w (es @ fs) w'"

definition proj :: "nat \<Rightarrow> (nat \<times> vact) list \<Rightarrow> vact list" where
  "proj x es = map snd (filter (\<lambda>e. fst e = x) es)"

lemma proj_simps [simp]:
  "proj x [] = []" "proj x (es @ fs) = proj x es @ proj x fs"
  "proj x ((y, a) # es) = (if y = x then a # proj x es else proj x es)"
  by (simp_all add: proj_def)

section \<open>What the operations do to the view\<close>

lemma isChannelCloseOk_Channel [simp]: "isChannelCloseOk (g\<lparr>Channel := c\<rparr>) = isChannelCloseOk g"
  by (simp add: isChannelCloseOk_def)

lemma view_simps [simp]:
  "vopen (view cc) = dom (ChannelMapping cc)" "got (view cc) = accepted (Writer cc)"
  "vup (view cc) = live_bufio (Writer cc)"
  by (simp_all add: view_def)

lemma view_eqI: "ChannelMapping cc = ChannelMapping cc' \<Longrightarrow> Writer cc = Writer cc' \<Longrightarrow> view cc = view cc'"
  by (simp add: view_def)

lemma view_Abort: "view (Abort cc) = (view cc)\<lparr>vup := False\<rparr>"
  by (simp add: view_def Abort_def Conn_Close_def live_bufio_def live_conn_def accepted_def)

lemma view_UnmapChannel: "view (UnmapChannel cc c) = (view cc)\<lparr>vopen := dom (ChannelMapping cc) - {c}\<rparr>"
  by (auto simp: view_def map_simps split: if_splits)

lemma DeliverFrame_handed:
  assumes "frame_ok f"
  shows "handed (view cc) (frame_bytes f) (view (snd (DeliverFrame cc f)))"
proof -
  obtain e b where w: "WriteFrame bufio_Write (Writer cc) f = (e, b)" by fastforce
  have "accepted (Writer (snd (DeliverFrame cc f))) = accepted b"
    using Flush_accepted [of b] by (cases e; cases "Flush b") (simp_all add: DeliverFrame_def w)
  moreover obtain k where "k \<le> length (frame_bytes f)" "accepted b = accepted (Writer cc) @ take k (frame_bytes f)"
    using buffered.WriteFrame_prefix [of f "Writer cc"] w by auto
  ultimately show ?thesis
    using DeliverFrame_sent [of cc f] assms by (auto simp: handed_def accepted_def)
qed

text \<open>A frame on channel 0 for a list of clients that are then disconnected.\<close>

lemma broadcast_view:
  assumes "frame_ok g" "Channel g = 0"
  shows "vrun (view (cs x)) (proj x (concat (map (\<lambda>x. [(x, V_control g), (x, V_drop)]) xs)))
    (view (foldl (deliverAbort g) cs xs x))"
proof (induction xs arbitrary: cs)
  case Nil
  show ?case by simp
next
  case (Cons y ys)
  let ?v = "view (snd (DeliverFrame (cs x) g))"
  have "vrun (view (cs x)) [V_control g, V_drop] (?v\<lparr>vup := False\<rparr>)"
    using vstep.v_control [OF assms(2) DeliverFrame_handed [OF assms(1)]] vstep.v_drop [of ?v]
    by (auto intro: vrun.intros)
  then have "vrun (view (cs x)) (if y = x then [V_control g, V_drop] else []) (view (deliverAbort g cs y x))"
    by (simp add: deliverAbort_apply view_Abort)
  from vrun_append [OF this Cons.IH [of "deliverAbort g cs y"]] show ?case by (auto split: if_splits)
qed

lemma abort_view:
  "vrun (view (cs x)) (proj x (map (\<lambda>x. (x, V_drop)) xs))
    (view (foldl (\<lambda>cs cw. cs(cw := Abort (cs cw))) cs xs x))"
proof (induction xs arbitrary: cs)
  case Nil
  show ?case by simp
next
  case (Cons y ys)
  have "vrun (view (cs x)) (if y = x then [V_drop] else []) (view ((cs(y := Abort (cs y))) x))"
    using vstep.v_drop [of "view (cs x)"] by (auto simp: view_Abort intro: vrun.intros)
  from vrun_append [OF this Cons.IH [of "cs(y := Abort (cs y))"]] show ?case by (auto split: if_splits)
qed

section \<open>Each step is a step of the private connections\<close>

text \<open>Forwarding a frame on a mapped channel.\<close>

lemma forward_view:
  assumes "routes_ok w" "ChannelMapping (ccs w x) (Channel f) = Some u" "w' \<in> set (forwardFrame w x f)"
  shows "view (ccs w' y) = view (ccs w y)" "queued w w' = [] \<or> queued w w' = [(x, V_send f)]"
    "accepts (mu w) \<Longrightarrow> queued w w' = [(x, V_send f)]"
proof -
  obtain cc where w': "mu w' \<in> set (writeFrameToUpstream (mu w) (f\<lparr>Channel := u\<rparr>))" "ccs w' = (ccs w)(x := cc)"
    "ChannelMapping cc = ChannelMapping (ccs w x)" "Writer cc = Writer (ccs w x)"
    using assms(2,3) by (auto simp: forwardFrame_def Let_def remap_def split: if_splits)
  then show "view (ccs w' y) = view (ccs w y)" by (auto intro: view_eqI)
  have "slot_of (mu w) u = Owned x (Channel f)" using assms(1,2) by (simp add: routes_ok_iff)
  then have q: "queued w w' = [(x, V_send f)]" if "mu w' = (mu w)\<lparr>writeCh := writeCh (mu w) @ [f\<lparr>Channel := u\<rparr>]\<rparr>"
    by (simp add: queued_def that)
  moreover have "queued w w' = []" if "mu w' = mu w" by (simp add: queued_def that)
  ultimately show "queued w w' = [] \<or> queued w w' = [(x, V_send f)]"
    using writeFrameToUpstream_cases [OF w'(1)] by blast
  assume "accepts (mu w)"
  with w'(1) q show "queued w w' = [(x, V_send f)]" by (simp add: accepts_def writeFrameToUpstream_def)
qed

lemma openChannel_view:
  assumes "openChannel w x f = Some (None, w')" "ChannelMapping (ccs w x) (Channel f) = None"
  shows "vrun (view (ccs w y)) (proj y [(x, V_open (Channel f))]) (view (ccs w' y))"
    "\<exists>u. ChannelMapping (ccs w' x) (Channel f) = Some u" "writeCh (mu w') = writeCh (mu w)"
    "accepts (mu w') = accepts (mu w)"
proof -
  from assms(1) obtain u m where a: "AllocateChannel (mu w) (Channel f) x = Some (Inr u, m)"
    and w': "w' = w\<lparr>mu := m, ccs := (ccs w)(x := MapChannel (ccs w x) (Channel f) u)\<rparr>"
    by (auto simp: openChannel_def split: option.splits sum.splits)
  from a have al: "allocateLocked (mu w) (Channel f) x = Some (Inr u, m)"
    by (auto simp: AllocateChannel_def split: if_splits)
  have "view (ccs w' x) = (view (ccs w x))\<lparr>vopen := insert (Channel f) (vopen (view (ccs w x)))\<rparr>"
    by (auto simp: w' view_def map_simps)
  then have "vrun (view (ccs w x)) [V_open (Channel f)] (view (ccs w' x))"
    using vrun_single [OF vstep.v_open [of "Channel f" "view (ccs w x)"]] assms(2) by auto
  then show "vrun (view (ccs w y)) (proj y [(x, V_open (Channel f))]) (view (ccs w' y))" by (auto simp: w')
  show "\<exists>u. ChannelMapping (ccs w' x) (Channel f) = Some u" by (simp add: w' map_simps)
  show "writeCh (mu w') = writeCh (mu w)" "accepts (mu w') = accepts (mu w)"
    using allocateLocked_frame [OF al] by (simp_all add: w' accepts_def)
qed

text \<open>A frame of a client, with what the broker is handed for it.\<close>

lemma client_view:
  assumes "routes_ok w" "conforming (ccs w x) f" "Next w' \<in> set (handleFrame w x f)"
  shows "vrun (view (ccs w y)) (proj y ((if isChannelOpen f then [(x, V_open (Channel f))] else []) @ queued w w'))
      (view (ccs w' y))"
    "accepts (mu w) \<Longrightarrow> Type f \<noteq> FrameTypeHeartbeat \<Longrightarrow> queued w w' = [(x, V_send f)]"
proof -
  from assms(3) have "vrun (view (ccs w y)) (proj y ((if isChannelOpen f then [(x, V_open (Channel f))] else []) @ queued w w'))
      (view (ccs w' y)) \<and>
    (accepts (mu w) \<and> Type f \<noteq> FrameTypeHeartbeat \<longrightarrow> queued w w' = [(x, V_send f)])"
  proof (cases rule: handleFrame_cases)
    case hb
    then have "\<not> isChannelOpen f" by (auto simp: isChannelOpen_def)
    with hb show ?thesis by (simp add: queued_def)
  next
    case (opened w1 w2)
    then have w2: "w2 = w'" by simp
    note opened = opened(1-4) opened(5) [unfolded w2]
    then have n: "ChannelMapping (ccs w x) (Channel f) = None" using assms(2) by (simp add: conforming_def)
    note o = openChannel_view [OF opened(4) n]
    note r = openChannel_routes [OF assms(1) opened(4) n]
    from o(2) obtain u where u: "ChannelMapping (ccs w1 x) (Channel f) = Some u" by blast
    have q: "queued w w' = queued w1 w'" by (simp add: queued_def o(3))
    have "vrun (view (ccs w1 y)) (proj y (queued w1 w')) (view (ccs w' y))"
      using forward_view(1,2) [OF r u opened(5)] u
      by (auto intro!: vrun_single vstep.v_send)
    from vrun_append [OF o(1) this] forward_view(3) [OF r u opened(5)] o(4) opened(3) show ?thesis
      by (auto simp: q split: if_splits)
  next
    case (other w2)
    then have w2: "w2 = w'" by simp
    note other = other(1-3) other(4) [unfolded w2]
    then obtain u where u: "ChannelMapping (ccs w x) (Channel f) = Some u"
      using assms(2) by (auto simp: conforming_def)
    have "vrun (view (ccs w y)) (proj y (queued w w')) (view (ccs w' y))"
      using forward_view(1,2) [OF assms(1) u other(4)] u
      by (auto intro!: vrun_single vstep.v_send)
    with forward_view(3) [OF assms(1) u other(4)] other show ?thesis by simp
  qed simp_all
  then show "vrun (view (ccs w y)) (proj y ((if isChannelOpen f then [(x, V_open (Channel f))] else []) @ queued w w'))
      (view (ccs w' y))"
    "accepts (mu w) \<Longrightarrow> Type f \<noteq> FrameTypeHeartbeat \<Longrightarrow> queued w w' = [(x, V_send f)]" by auto
qed

lemma leave_view:
  assumes "Leave w' \<in> set (handleFrame w x f)"
  shows "vrun (view (ccs w y)) (proj y (if isConnectionClose f then [(x, V_control (method_frame (method_header 10 51)))] else []))
    (view (ccs w' y))"
proof (cases "isConnectionClose f")
  case True
  with assms have w': "w' = w\<lparr>ccs := deliver (ccs w) x (method_frame (method_header 10 51))\<rparr>"
    by (auto simp: handleFrame_def split: if_splits)
  have "frame_ok (method_frame (method_header 10 51))" by (simp add: frame_ok_def MaxFrameSize_def)
  from vrun_single [OF vstep.v_control [OF _ DeliverFrame_handed [OF this, of "ccs w x"]]] True show ?thesis
    by (auto simp: w')
next
  case False
  with assms have "ccs w' = ccs w"
    by (cases "openChannel w x f") (auto simp: handleFrame_def openChannel_def split: if_splits option.splits sum.splits)
  with False show ?thesis by simp
qed

text \<open>A frame of the broker.\<close>

lemma broker_view:
  assumes "routes_ok w" "frame_ok g" "w' \<in> set (readLoop_dispatch w g)"
  shows "vrun (view (ccs w y)) (proj y (arrived w g)) (view (ccs w' y))"
proof -
  consider (hb) "Type g = FrameTypeHeartbeat" | (zero) "Type g \<noteq> FrameTypeHeartbeat" "Channel g = 0"
    | (free) "Type g \<noteq> FrameTypeHeartbeat" "Channel g \<noteq> 0" "\<And>x c. slot_of (mu w) (Channel g) \<noteq> Owned x c"
    | (owned) x c where "Type g \<noteq> FrameTypeHeartbeat" "Channel g \<noteq> 0" "slot_of (mu w) (Channel g) = Owned x c"
    by blast
  then show ?thesis
  proof cases
    case hb
    with assms(3) show ?thesis by (auto simp: readLoop_dispatch_def arrived_def)
  next
    case zero
    with assms(3) broadcast_view [OF assms(2) zero(2)] show ?thesis by (auto simp: readLoop_dispatch_def arrived_def)
  next
    case free
    then have "ccs w' = ccs w"
      using dispatch_effects [OF assms(3) routes_ok_slots [OF assms(1)]] by (auto simp: fun_eq_iff)
    with free show ?thesis by (simp add: arrived_def split: slot.splits)
  next
    case owned
    have o: "channelOwners (mu w) (Channel g) = Some \<lparr>owner = x, clientChanID = c\<rparr>" using owned(3) by (simp add: slot_of_Owned)
    have m: "c \<in> vopen (view (ccs w x))" using owned(3) routes_ok_iff [OF assms(1), of x c "Channel g"] by auto
    have h: "handed (view (ccs w x)) (frame_bytes (g\<lparr>Channel := c\<rparr>)) (view (snd (DeliverFrame (ccs w x) (g\<lparr>Channel := c\<rparr>))))"
      using assms(2) by (intro DeliverFrame_handed) simp
    show ?thesis
    proof (cases "isChannelCloseOk g")
      case True
      have "closeOkReceived (mu w) (Channel g) = (Some \<lparr>owner = x, clientChanID = c\<rparr>, snd (closeOkReceived (mu w) (Channel g)))"
        using upstream_slots.closed_entry [OF routes_ok_slots [OF assms(1)], of "Channel g"] owned(3)
        by (metis prod.collapse slot.simps(9))
      with True owned assms(3) have "ccs w' = (ccs w)(x := OnChannelClosed (snd (DeliverFrame (ccs w x) (g\<lparr>Channel := c\<rparr>))) c)"
        by (cases "closeOkReceived (mu w) (Channel g)") (auto simp: readLoop_dispatch_def Let_def deliver_def)
      moreover have "vrun (view (ccs w x)) [V_closed (g\<lparr>Channel := c\<rparr>)]
          (view (OnChannelClosed (snd (DeliverFrame (ccs w x) (g\<lparr>Channel := c\<rparr>))) c))"
        using vrun_single [OF vstep.v_closed [OF _ _ h]] m True
        by (simp add: OnChannelClosed_def view_UnmapChannel)
      ultimately show ?thesis using owned True by (auto simp: arrived_def)
    next
      case False
      with owned o assms(3) have "ccs w' = (ccs w)(x := snd (DeliverFrame (ccs w x) (g\<lparr>Channel := c\<rparr>)))"
        by (auto simp: readLoop_dispatch_def deliver_def)
      moreover have "vrun (view (ccs w x)) [V_recv (g\<lparr>Channel := c\<rparr>)] (view (snd (DeliverFrame (ccs w x) (g\<lparr>Channel := c\<rparr>))))"
        using vrun_single [OF vstep.v_recv [OF _ _ h]] m False by simp
      ultimately show ?thesis using owned False by (auto simp: arrived_def)
    qed
  qed
qed

text \<open>The turns that only touch the shared state.\<close>

lemma routes_ok_shared:
  assumes "routes_ok w" "ccs w' = ccs w" "slots_ok (mu w')" "slot_of (mu w') = slot_of (mu w)"
  shows "routes_ok w'"
  using routes_ok_cong [OF assms(1,3,4)] routes_ok_maps [OF assms(1)] assms(2) by simp

lemma pump_failed_returns [simp]: "pump_failed w \<noteq> Again w'" "Again w' \<noteq> pump_failed w"
  by (auto simp: pump_failed_def split: prod.splits)

lemma pump_again:
  assumes "Again w' \<in> set (writePump_turn a d w)"
  shows "\<exists>b q. w' = set_pump w a b q"
proof -
  from assms obtain f q where q: "writeCh (mu w) = f # q"
    by (cases "writeCh (mu w)") (auto simp: writePump_turn_def split: if_splits)
  obtain e b where w: "WriteFrame bufio_Write (uc_Writer (conns w a)) f = (e, b)" by fastforce
  obtain e1 b1 q1 where p: "pump_drain b q = (e1, b1, q1)" using prod_cases3 by blast
  obtain e2 b2 where fl: "Flush b1 = (e2, b2)" by fastforce
  from assms q w p fl show ?thesis
    by (cases e; cases e1; cases e2) (auto simp: writePump_turn_def split: if_splits)
qed

lemma set_pump_shared [simp]: "ccs (set_pump w a b q) = ccs w" "mu (set_pump w a b q) = (mu w)\<lparr>writeCh := q\<rparr>"
  by (simp_all add: set_pump_def)

lemma wstep_views:
  assumes "wstep w es w'" "routes_ok w"
  shows "routes_ok w' \<and> vrun (view (ccs w x)) (proj x es) (view (ccs w' x))"
  using assms
proof cases
  case (w_client y f)
  have "isChannelOpen f \<Longrightarrow> ChannelMapping (ccs w y) (Channel f) = None"
    using w_client(2) by (auto simp: conforming_def isChannelOpen_def isConnectionClose_def split: if_splits)
  with w_client client_view [OF assms(2) w_client(2,3)] handleFrame_routes [OF assms(2) w_client(3)]
  show ?thesis by simp
next
  case (w_leave y f)
  have "isChannelOpen f \<Longrightarrow> ChannelMapping (ccs w y) (Channel f) = None"
    using w_leave(2) by (auto simp: conforming_def isChannelOpen_def isConnectionClose_def split: if_splits)
  with w_leave leave_view [OF w_leave(3)] handleFrame_routes [OF assms(2) w_leave(3)] show ?thesis by simp
next
  case (w_broker g)
  with broker_view [OF assms(2)] dispatch_routes [OF assms(2)] show ?thesis by blast
next
  case (w_release y c u)
  from releaseOne_routes [OF assms(2) w_release(2,3)]
  have r: "routes_ok w'" "ccs w' = (ccs w)(y := UnmapChannel (ccs w y) c)" by auto
  have "vrun (view (ccs w y)) [V_gone c] (view (UnmapChannel (ccs w y) c))"
    using vrun_single [OF vstep.v_gone [of c "view (ccs w y)"]] w_release(2) by (auto simp: view_UnmapChannel)
  with r w_release(1) show ?thesis by auto
next
  case (w_pump a d)
  with pump_again [OF w_pump(2)] routes_ok_shared [OF assms(2), of w'] routes_ok_slots [OF assms(2)]
  show ?thesis by auto
next
  case (w_register y)
  with routes_ok_shared [OF assms(2), of w'] routes_ok_slots [OF assms(2)] show ?thesis by (simp add: slot_simps)
next
  case (w_deregister y now)
  with routes_ok_shared [OF assms(2), of w'] routes_ok_slots [OF assms(2)] show ?thesis by (simp add: slot_simps)
next
  case w_fail
  then have w': "mu w' = (mu w)\<lparr>reconnecting := True\<rparr>" "ccs w' = AbortAllClients (mu w) (ccs w)"
    by (auto simp: handleUpstreamFailure_def split: if_splits)
  have "routes_ok w'"
    by (rule routes_ok_cong [OF assms(2)])
       (use assms(2) in \<open>auto simp: w' AbortAllClients_apply routes_ok_def maps_ok_Abort\<close>)
  with w_fail abort_view [of "ccs w" x "clients (mu w)"] show ?thesis by (simp add: w' AbortAllClients_def)
qed

section \<open>Beyond one broker connection\<close>

text \<open>Opening a first channel on a connection that was just replaced.\<close>

definition openFrame :: "u16 \<Rightarrow> Frame" where
  "openFrame c = \<lparr>Type = FrameTypeMethod, Channel = c, Payload = method_header 20 10 @ [0]\<rparr>"

lemma openFrame_kind [simp]:
  "isChannelOpen (openFrame c)" "\<not> isConnectionClose (openFrame c)" "\<not> isChannelClose (openFrame c)"
  "Type (openFrame c) \<noteq> FrameTypeHeartbeat" "Channel (openFrame c) = c"
  by (simp_all add: openFrame_def isChannelOpen_def isConnectionClose_def isChannelClose_def SerializeMethodHeader_def PutUint16_def)

lemma first_open:
  assumes "usedChannels (mu w) = {}" "pendingClose (mu w) = {}" "nextHint (mu w) = 1" "maxChannels (mu w) \<noteq> 0" "accepts (mu w)"
  shows "\<exists>w'. handleFrame w y (openFrame k) = [Next w'] \<and> slot_of (mu w') 1 = Owned y k \<and>
    writeCh (mu w') = writeCh (mu w) @ [openFrame 1] \<and> stopped (mu w') = stopped (mu w) \<and>
    reconnecting (mu w') = reconnecting (mu w) \<and> writeDone (mu w') = writeDone (mu w) \<and> doneClosed (mu w') = doneClosed (mu w) \<and>
    (\<forall>z. z \<noteq> y \<longrightarrow> ccs w' z = ccs w z)"
proof -
  let ?m = "claimChannel (mu w) 1 k y"
  let ?w = "w\<lparr>mu := ?m, ccs := (ccs w)(y := MapChannel (ccs w y) k 1)\<rparr>"
  have "1 \<le> maxChannels (mu w)" using assms(4) by (metis inc_le word_gt_0 add_0)
  then have "allocateLocked (mu w) k y = Some (Inr 1, ?m)"
    by (simp add: allocateLocked_scan hint_of_def assms(1-3) scan_up_here free_chan_def)
  then have o: "openChannel w y (openFrame k) = Some (None, ?w)"
    using assms(5) by (simp add: openChannel_def AllocateChannel_def accepts_def)
  have m: "stopped ?m = stopped (mu w)" "reconnecting ?m = reconnecting (mu w)" "writeDone ?m = writeDone (mu w)"
    "doneClosed ?m = doneClosed (mu w)" "writeCh ?m = writeCh (mu w)" "slot_of ?m 1 = Owned y k"
    by (simp_all add: claimChannel_def slot_of_def)
  from forwardFrame_queue [of ?w y "openFrame k"] assms(5) m obtain w' where
    "forwardFrame ?w y (openFrame k) = [w']" "mu w' = ?m\<lparr>writeCh := writeCh (mu w) @ [remap (ccs ?w y) (openFrame k)]\<rparr>"
    "\<And>z. z \<noteq> y \<Longrightarrow> ccs w' z = ccs w z" by (auto simp: accepts_def)
  moreover have "remap (ccs ?w y) (openFrame k) = openFrame 1" by (simp add: remap_def map_simps) (simp add: openFrame_def)
  ultimately show ?thesis using o m by (simp add: handleFrame_def)
qed

section \<open>Properties\<close>



text \<open>
  (C29) Across a reconnect the promise is broken. The reset empties the slot table but the maps
  of the clients of before stay, and their goroutines go on with whatever they had already
  buffered. When such a client, disconnected by the failure, held channel 1 of the old connection,
  and a new client opens its first channel on the new connection, then a frame the old client
  had sent before is queued on the new client's channel.
\<close>

theorem stale_client_injects:
  assumes "ChannelMapping (ccs w x) (Channel f) = Some 1" "accepts (mu w)" "maxChannels (mu w) \<noteq> 0" "y \<noteq> x"
    and "d \<notin> insert (writeDone (mu w)) (doneClosed (mu w))"
    and "Type f \<noteq> FrameTypeHeartbeat" "\<not> isConnectionClose f" "\<not> isChannelOpen f"
  shows "\<exists>w1 w2 w3 w4. handleUpstreamFailure w = (True, w1) \<and>
    reconnectLoop w1 [Inr (c, a, d, now)] = Reconnected w2 (a, d) \<and> handleFrame w2 y (openFrame k) = [Next w3] \<and>
    slot_of (mu w3) 1 = Owned y k \<and> handleFrame w3 x f = [Next w4] \<and>
    slot_of (mu w4) 1 = Owned y k \<and> writeCh (mu w4) = [openFrame 1, f\<lparr>Channel := 1\<rparr>]"
proof -
  let ?w1 = "snd (handleUpstreamFailure w)"
  have w1: "handleUpstreamFailure w = (True, ?w1)" using assms(2) by (simp add: handleUpstreamFailure_def accepts_def)
  have "ChannelMapping (ccs ?w1 x) = ChannelMapping (ccs w x)"
    using assms(2) by (simp add: handleUpstreamFailure_def AbortAllClients_apply accepts_def)
  then have x1: "ChannelMapping (ccs ?w1 x) (Channel f) = Some 1" using assms(1) by simp
  obtain w2 where w2: "reconnectLoop ?w1 [Inr (c, a, d, now)] = Reconnected w2 (a, d)" "ccs w2 = ccs ?w1"
    "usedChannels (mu w2) = {}" "pendingClose (mu w2) = {}" "nextHint (mu w2) = 1" "maxChannels (mu w2) = maxChannels (mu w)"
    "writeCh (mu w2) = []" "accepts (mu w2)"
    using assms(2,5)
    by (simp add: reconnectLoop_def reconnect_from_unfold installConn_def resetState_def Let_def handleUpstreamFailure_def
        accepts_def writeCh_cap_def)
  from first_open [OF w2(3-5) _ w2(8), of y k] w2(6,7) assms(3) obtain w3 where
    w3: "handleFrame w2 y (openFrame k) = [Next w3]" "slot_of (mu w3) 1 = Owned y k" "writeCh (mu w3) = [openFrame 1]"
      "accepts (mu w3)" "ccs w3 x = ccs w2 x"
    using w2(8) assms(4) by (auto simp: accepts_def writeCh_cap_def)
  from forwardFrame_queue [of w3 x f] w3(4) obtain w4 where
    w4: "forwardFrame w3 x f = [w4]" "mu w4 = (mu w3)\<lparr>writeCh := writeCh (mu w3) @ [remap (ccs w3 x) f]\<rparr>"
    by (auto simp: accepts_def)
  have "remap (ccs w3 x) f = f\<lparr>Channel := 1\<rparr>" using x1 w2(2) w3(5) by (simp add: remap_def)
  moreover have "handleFrame w3 x f = [Next w4]" using w4(1) assms(6-8) by (simp add: handleFrame_def)
  ultimately show ?thesis using w1 w2(1) w3 w4(2)
    by (intro exI [of _ ?w1] exI [of _ w2] exI [of _ w3] exI [of _ w4]) simp
qed

theorem stale_client_injects_witness:
  "let w = (world_ex [])\<lparr>mu := (mu (world_ex []))\<lparr>channelOwners := [1 \<mapsto> \<lparr>owner = 7, clientChanID = 2\<rparr>], usedChannels := {1}\<rparr>,
         ccs := (ccs (world_ex []))(7 := MapChannel (ccs (world_ex []) 7) 2 1)\<rparr>;
       f = \<lparr>Type = 1, Channel = 2, Payload = [0, 60, 0, 40]\<rparr>
   in \<exists>w1 w2 w3 w4. handleUpstreamFailure w = (True, w1) \<and>
        reconnectLoop w1 [Inr (conns w 0, 1, 1, 0)] = Reconnected w2 (1, 1) \<and> handleFrame w2 9 (openFrame 1) = [Next w3] \<and>
        handleFrame w3 7 f = [Next w4] \<and> slot_of (mu w4) 1 = Owned 9 1 \<and> writeCh (mu w4) = [openFrame 1, f\<lparr>Channel := 1\<rparr>]"
proof -
  define w where "w = (world_ex [])\<lparr>mu := (mu (world_ex []))\<lparr>channelOwners := [1 \<mapsto> \<lparr>owner = 7, clientChanID = 2\<rparr>], usedChannels := {1}\<rparr>,
    ccs := (ccs (world_ex []))(7 := MapChannel (ccs (world_ex []) 7) 2 1)\<rparr>"
  define f :: Frame where "f = \<lparr>Type = 1, Channel = 2, Payload = [0, 60, 0, 40]\<rparr>"
  have "ChannelMapping (ccs w 7) (Channel f) = Some 1" by (simp add: w_def f_def map_simps)
  moreover have "accepts (mu w)" "maxChannels (mu w) \<noteq> 0" "1 \<notin> insert (writeDone (mu w)) (doneClosed (mu w))"
    by (simp_all add: w_def world_ex_def mu_ex_def newManagedUpstream_def accepts_def writeCh_cap_def)
  moreover have "Type f \<noteq> FrameTypeHeartbeat" "\<not> isConnectionClose f" "\<not> isChannelOpen f"
    by (simp_all add: f_def isConnectionClose_def isChannelOpen_def)
  ultimately show ?thesis
    using stale_client_injects [of w 7 f 9 1 "conns w 0" 1 0 1] unfolding w_def [symmetric] f_def [symmetric] Let_def by fastforce
qed

text \<open>
  (C15) Equivalence with the frame proxy, on channel frames. \<open>FrameProxy\<close> (\<open>proxy/frame_proxy.go\<close>)
  renumbers with the maps of a single client and writes directly; the goroutines renumber with the
  table of the upstream, through a queue and a pump. Let the maps and the table agree, both
  connections work, the write queue be empty and the upstream accept frames. Then both write the same
  bytes upstream, for a frame of the client that is no heartbeat, no \<open>Connection.Close\<close> and no
  \<open>Channel.Open\<close>, and downstream, for a frame of the broker on a channel other than 0 that is no
  heartbeat, whoever owns the channel. On a heartbeat of the broker they differ: \<open>FrameProxy\<close>
  passes it on to the client, the goroutines do not.
\<close>

theorem FrameProxy_equivalent:
  assumes "routes_ok w" "live_bufio (Writer (ccs w x))" "live_bufio (uc_Writer (conns w a))"
    and "frame_ok f" "accepts (mu w)" "writeCh (mu w) = []" "d \<notin> doneClosed (mu w)"
    and "Type f \<noteq> FrameTypeHeartbeat" "\<not> isConnectionClose f" "\<not> isChannelOpen f"
    and "frame_ok g" "Type g \<noteq> FrameTypeHeartbeat" "Channel g \<noteq> 0"
    and "fp = NewFrameProxy (ccs w x) (Some (uc_Writer (conns w a))) (Some (Writer (ccs w x)))"
  shows "(\<exists>w1 w2 b. handleFrame w x f = [Next w1] \<and> writePump_turn a d w1 = [Again w2] \<and>
      UpstreamWriter (snd (ProxyClientToUpstream bufio_Write fp f)) = Some b \<and>
      accepted (uc_Writer (conns w2 a)) = accepted b) \<and>
    (\<exists>w1 b. readLoop_dispatch w g = [w1] \<and>
      ClientWriter (snd (ProxyUpstreamToClient bufio_Write fp g)) = Some b \<and>
      accepted (Writer (ccs w1 x)) = accepted b) \<and>
    (\<exists>b. ClientWriter (snd (ProxyUpstreamToClient bufio_Write fp heartbeat)) = Some b \<and>
      accepted b = accepted (Writer (ccs w x)) @ frame_bytes heartbeat \<and>
      (\<forall>w1 \<in> set (readLoop_dispatch w heartbeat). accepted (Writer (ccs w1 x)) = accepted (Writer (ccs w x))))"
proof (intro conjI)
  have hb: "frame_ok heartbeat" by (simp add: heartbeat_def frame_ok_def MaxFrameSize_def)
  from live_buffered.WriteFrame_live [OF assms(2) hb] obtain b where
    b: "WriteFrame bufio_Write (Writer (ccs w x)) heartbeat = (None, b)" by blast
  have "ccs w1 x = ccs w x" if "w1 \<in> set (readLoop_dispatch w heartbeat)" for w1
    using dispatch_effects [OF that routes_ok_slots [OF assms(1)]] by (auto simp: heartbeat_def)
  with b buffered.WriteFrame_ok [OF b] show "\<exists>b. ClientWriter (snd (ProxyUpstreamToClient bufio_Write fp heartbeat)) = Some b \<and>
      accepted b = accepted (Writer (ccs w x)) @ frame_bytes heartbeat \<and>
      (\<forall>w1 \<in> set (readLoop_dispatch w heartbeat). accepted (Writer (ccs w1 x)) = accepted (Writer (ccs w x)))"
    by (simp add: ProxyUpstreamToClient_def assms(14) NewFrameProxy_def heartbeat_def)
next
  from forwardFrame_queue [of w x f] assms(5,6) obtain w1 where
    w1: "forwardFrame w x f = [w1]" "mu w1 = (mu w)\<lparr>writeCh := [remap (ccs w x) f]\<rparr>"
    by (auto simp: accepts_def)
  have c1: "conns w1 = conns w" using w1(1) by (auto simp: forwardFrame_def Let_def)
  have ok: "frame_ok (remap (ccs w x) f)" using assms(4) by (simp add: remap_def split: option.splits)
  have "live_bufio (uc_Writer (conns w1 a))" "list_all frame_ok (writeCh (mu w1))" "writeCh (mu w1) \<noteq> []" "d \<notin> doneClosed (mu w1)"
    using assms(3,7) ok by (simp_all add: w1(2) c1)
  from pump_turn_live [OF this] obtain w2 where w2: "writePump_turn a d w1 = [Again w2]"
    "accepted (uc_Writer (conns w2 a)) = accepted (uc_Writer (conns w a)) @ frame_bytes (remap (ccs w x) f)"
    by (auto simp: w1(2) c1 accepted_def)
  obtain b where b: "WriteFrame bufio_Write (uc_Writer (conns w a)) (remap (ccs w x) f) = (None, b)"
    using live_buffered.WriteFrame_live [OF assms(3) ok] by blast
  from buffered.WriteFrame_ok [OF b] have "accepted b = accepted (uc_Writer (conns w a)) @ frame_bytes (remap (ccs w x) f)" by simp
  moreover have "UpstreamWriter (snd (ProxyClientToUpstream bufio_Write fp f)) = Some b"
    using b by (simp add: ProxyClientToUpstream_def assms(14) NewFrameProxy_def remap_def)
  ultimately show "\<exists>w1 w2 b. handleFrame w x f = [Next w1] \<and> writePump_turn a d w1 = [Again w2] \<and>
      UpstreamWriter (snd (ProxyClientToUpstream bufio_Write fp f)) = Some b \<and> accepted (uc_Writer (conns w2 a)) = accepted b"
    using w1(1) w2 assms(8-10) by (auto simp: handleFrame_def)
next
  have rev: "ReverseMapping (ccs w x) (Channel g) = Some c \<longleftrightarrow> slot_of (mu w) (Channel g) = Owned x c" for c
    using client_maps.rev_iff_fwd [OF routes_ok_maps [OF assms(1)]] routes_ok_iff [OF assms(1)] by simp
  show "\<exists>w1 b. readLoop_dispatch w g = [w1] \<and>
      ClientWriter (snd (ProxyUpstreamToClient bufio_Write fp g)) = Some b \<and> accepted (Writer (ccs w1 x)) = accepted b"
  proof (cases "\<exists>c. slot_of (mu w) (Channel g) = Owned x c")
    case True
    then obtain c where c: "slot_of (mu w) (Channel g) = Owned x c" by blast
    from dispatch_owned [OF routes_ok_slots [OF assms(1)] c assms(12,13,11,2)] obtain w1 where
      w1: "readLoop_dispatch w g = [w1]" "accepted (Writer (ccs w1 x)) = accepted (Writer (ccs w x)) @ frame_bytes (g\<lparr>Channel := c\<rparr>)"
      by (auto simp: accepted_def)
    obtain b where b: "WriteFrame bufio_Write (Writer (ccs w x)) (g\<lparr>Channel := c\<rparr>) = (None, b)"
      using live_buffered.WriteFrame_live [OF assms(2), of "g\<lparr>Channel := c\<rparr>"] assms(11) by auto
    from buffered.WriteFrame_ok [OF b] w1 c rev [of c] b assms(13) show ?thesis
      by (auto simp: ProxyUpstreamToClient_def assms(14) NewFrameProxy_def)
  next
    case False
    then have n: "ReverseMapping (ccs w x) (Channel g) = None" using rev by (cases "ReverseMapping (ccs w x) (Channel g)") auto
    obtain w1 where w1: "readLoop_dispatch w g = [w1]" using dispatch_single [OF assms(12)] by blast
    with dispatch_effects [of w1 w g] routes_ok_slots [OF assms(1)] False assms(13) have "ccs w1 x = ccs w x" by auto
    with w1 n assms(13) show ?thesis by (simp add: ProxyUpstreamToClient_def assms(14) NewFrameProxy_def)
  qed
qed

theorem FrameProxy_equivalent_witness:
  "let w = world_ex []; fp = NewFrameProxy (ccs w 7) (Some (uc_Writer (conns w 0))) (Some (Writer (ccs w 7)));
       f = \<lparr>Type = 3, Channel = 2, Payload = [65]\<rparr>
   in \<exists>w1 w2 b. handleFrame w 7 f = [Next w1] \<and> writePump_turn 0 0 w1 = [Again w2] \<and>
        UpstreamWriter (snd (ProxyClientToUpstream bufio_Write fp f)) = Some b \<and>
        accepted (uc_Writer (conns w2 0)) = accepted b"
proof -
  have "live_bufio (uc_Writer (conns (world_ex []) 0))" "0 \<notin> doneClosed (mu (world_ex []))"
    by (simp_all add: world_ex_def live_bufio_def live_conn_def NewWriter_def new_conn_def mu_ex_def newManagedUpstream_def)
  moreover have "frame_ok \<lparr>Type = 3, Channel = c, Payload = [65]\<rparr>" for c by (simp add: frame_ok_def MaxFrameSize_def)
  ultimately show ?thesis
    using FrameProxy_equivalent [OF world_ex_routes world_ex_live(1) _ _ world_ex_accepts world_ex_simps(8) _ _ _ _ _ _ _ refl,
        where a = 0 and d = 0 and x = 7 and f = "\<lparr>Type = 3, Channel = 2, Payload = [65]\<rparr>"
          and g = "\<lparr>Type = 3, Channel = 6, Payload = [65]\<rparr>"]
    by (simp add: Let_def isConnectionClose_def isChannelOpen_def)
qed

end
