(* ===== verification/Proxy_Config.thy ===== *)
theory Proxy_Config
  imports Prelude
begin

text \<open>
  The configuration and what is derived from it before any connection exists: \<open>Config\<close>
  (\<open>config/config.go\<close>), the TLS settings for both sides (\<open>tlsutil/tlsutil.go\<close> and
  \<open>NewAMQPListener\<close> of \<open>proxy/listener.go\<close>), the upstream address (\<open>parseUpstreamURL\<close>) and the key
  of the upstream pool (\<open>getPoolKey\<close>), both of \<open>proxy/proxy.go\<close>.

  The file system, the X.509 parser and \<open>url.Parse\<close> are parameters: the field
  \<open>os_ReadFile\<close> gives the contents of a file, \<open>AppendCertsFromPEM\<close> says whether a file holds
  certificates, \<open>LoadX509KeyPair\<close> reads a certificate with its key.
\<close>

section \<open>Configuration\<close>

record Config =
  ListenAddress :: string
  ListenPort :: int
  AdminPort :: int
  PoolIdleTimeout :: int
  PoolMaxChannels :: int
  MaxUpstreamConnections :: int
  MaxClientConnections :: int
  PoolCleanupInterval :: int
  UpstreamURL :: string
  TLSCert :: string
  TLSKey :: string
  TLSCACert :: string
  TLSClientCert :: string
  TLSClientKey :: string
  TLSSkipVerify :: bool

section \<open>TLS\<close>

record tls_files =
  os_ReadFile :: "string \<Rightarrow> byte list result"
  AppendCertsFromPEM :: "byte list \<Rightarrow> bool"
  LoadX509KeyPair :: "string \<Rightarrow> string \<Rightarrow> byte list result"

text \<open>A pool of trusted certificates: the system's, or the contents of one file.\<close>

datatype cert_pool = SystemCertPool | PEM "byte list"

record tls_Config =
  InsecureSkipVerify :: bool
  RootCAs :: "cert_pool option"
  Certificates :: "byte list list"
  ClientCAs :: "cert_pool option"
  RequireAndVerifyClientCert :: bool

definition empty_tls :: tls_Config where
  "empty_tls = \<lparr>InsecureSkipVerify = False, RootCAs = None, Certificates = [], ClientCAs = None,
     RequireAndVerifyClientCert = False\<rparr>"

definition LoadTLSConfig :: "tls_files \<Rightarrow> string \<Rightarrow> string \<Rightarrow> string \<Rightarrow> bool \<Rightarrow> tls_Config result" where
  "LoadTLSConfig fs caCertPath clientCertPath clientKeyPath skipVerify =
     (let config = empty_tls\<lparr>InsecureSkipVerify := skipVerify\<rparr>
      in case (if caCertPath \<noteq> ''''
               then (case os_ReadFile fs caCertPath of
                       Inl err \<Rightarrow> Inl err
                     | Inr caCert \<Rightarrow>
                         if \<not> AppendCertsFromPEM fs caCert
                         then Inl (Errorf ''failed to parse CA certificate'' [] [])
                         else Inr (config\<lparr>RootCAs := Some (PEM caCert)\<rparr>))
               else Inr (config\<lparr>RootCAs := Some SystemCertPool\<rparr>)) of
           Inl err \<Rightarrow> Inl err
         | Inr config \<Rightarrow>
             if clientCertPath \<noteq> '''' \<or> clientKeyPath \<noteq> ''''
             then if clientCertPath = '''' \<or> clientKeyPath = ''''
                  then Inl (Errorf ''both client_cert and client_key must be provided for mTLS'' [] [])
                  else (case LoadX509KeyPair fs clientCertPath clientKeyPath of
                          Inl err \<Rightarrow> Inl err
                        | Inr cert \<Rightarrow> Inr (config\<lparr>Certificates := [cert]\<rparr>))
             else Inr config)"

text \<open>\<open>NewAMQPListener\<close>: the TLS configuration of the listener, if it has one.\<close>

definition NewAMQPListener :: "tls_files \<Rightarrow> Config \<Rightarrow> tls_Config option result" where
  "NewAMQPListener fs cfg =
     (case (if TLSCert cfg \<noteq> '''' \<and> TLSKey cfg \<noteq> ''''
            then (case LoadX509KeyPair fs (TLSCert cfg) (TLSKey cfg) of
                    Inl err \<Rightarrow> Inl (Wrapf ''failed to load server TLS cert/key pair: %w'' [] err)
                  | Inr cert \<Rightarrow> Inr (Some (empty_tls\<lparr>Certificates := [cert]\<rparr>)))
            else Inr None) of
        Inl err \<Rightarrow> Inl err
      | Inr tlsConfig \<Rightarrow>
          if TLSCACert cfg \<noteq> ''''
          then (case os_ReadFile fs (TLSCACert cfg) of
                  Inl err \<Rightarrow> Inl (Wrapf ''failed to read CA certificate: %w'' [] err)
                | Inr caCert \<Rightarrow>
                    if \<not> AppendCertsFromPEM fs caCert
                    then Inl (Errorf ''failed to parse CA certificate'' [] [])
                    else let tlsConfig = (case tlsConfig of None \<Rightarrow> empty_tls | Some c \<Rightarrow> c)
                         in Inr (Some (tlsConfig\<lparr>ClientCAs := Some (PEM caCert), RequireAndVerifyClientCert := True\<rparr>)))
          else Inr tlsConfig)"

section \<open>The upstream address\<close>

record URL =
  Scheme :: string
  Hostname :: string
  Port :: string

definition JoinHostPort :: "string \<Rightarrow> string \<Rightarrow> string" where
  "JoinHostPort host port =
     (if CHR '':'' \<in> set host then ''['' @ host @ '']:'' @ port else host @ '':'' @ port)"

definition parseUpstreamURL :: "(string \<Rightarrow> URL result) \<Rightarrow> string \<Rightarrow> (string \<times> string) result" where
  "parseUpstreamURL url_Parse rawURL =
     (case url_Parse rawURL of
        Inl err \<Rightarrow> Inl (Wrapf ''invalid upstream URL: %w'' [] err)
      | Inr u \<Rightarrow>
          let host = Hostname u; port = Port u
          in if Scheme u = ''amqp''
             then Inr (''tcp'', JoinHostPort host (if port = '''' then ''5672'' else port))
             else if Scheme u = ''amqps''
             then Inr (''tcp+tls'', JoinHostPort host (if port = '''' then ''5671'' else port))
             else Inl (Errorf ''unsupported scheme: %s'' [] [Scheme u]))"

section \<open>The pool key\<close>

text \<open>The verb \<open>%d\<close> on a length.\<close>

fun dec :: "nat \<Rightarrow> string" where
  "dec n = (if n < 10 then [char_of (48 + n)] else dec (n div 10) @ [char_of (48 + n mod 10)])"

declare dec.simps [simp del]

text \<open>The verb \<open>%d\<close> on an \<open>int\<close>.\<close>

definition decInt :: "int \<Rightarrow> string" where
  "decInt n = (if n < 0 then CHR ''-'' # dec (nat (- n)) else dec (nat n))"

definition NUL :: char where
  "NUL = CHR 0x00"

definition getPoolKey :: "string \<Rightarrow> string \<Rightarrow> string \<Rightarrow> string" where
  "getPoolKey username password vhost =
     dec (length username) @ [NUL] @ username @ [NUL] @
     dec (length password) @ [NUL] @ password @ [NUL] @
     dec (length vhost) @ [NUL] @ vhost"

fun undec :: "string \<Rightarrow> nat" where
  "undec s = foldl (\<lambda>n c. 10 * n + (of_char c - 48)) 0 s"

lemma digit: "d < 10 \<Longrightarrow> of_char (char_of (48 + d) :: char) = (48 + d :: nat)"
  by simp

lemma undec_dec: "undec (dec n) = n"
proof (induction n rule: dec.induct)
  case (1 n)
  show ?case
  proof (cases "n < 10")
    case True
    then show ?thesis by (simp add: dec.simps [of n] digit)
  next
    case False
    with 1 show ?thesis by (simp add: dec.simps [of n] digit)
  qed
qed

lemma dec_inj: "dec m = dec n \<longleftrightarrow> m = n"
  by (metis undec_dec)

lemma dec_char: "c \<in> set (dec n) \<Longrightarrow> (48 :: nat) \<le> of_char c \<and> of_char c < (58 :: nat)"
proof (induction n rule: dec.induct)
  case (1 n)
  then consider "c = char_of (48 + n)" "n < 10" | "c \<in> set (dec (n div 10))" "\<not> n < 10" | "c = char_of (48 + n mod 10)"
    by (auto simp: dec.simps [of n] split: if_splits)
  then show ?case using 1 by cases (simp_all add: digit)
qed

lemma dec_nonempty [simp]: "dec n \<noteq> []"
  by (simp add: dec.simps [of n])

text \<open>Reading such a number back.\<close>

fun undecInt :: "string \<Rightarrow> int" where
  "undecInt s = (case s of [] \<Rightarrow> 0 | c # t \<Rightarrow> if c = CHR ''-'' then - int (undec t) else int (undec s))"

lemma decInt_char: "c \<in> set (decInt n) \<Longrightarrow> c = CHR ''-'' \<or> (48 :: nat) \<le> of_char c \<and> of_char c < (58 :: nat)"
  by (auto simp: decInt_def dest: dec_char split: if_splits)

lemma undecInt_decInt: "undecInt (decInt n) = n"
proof (cases "n < 0")
  case True
  then show ?thesis by (simp add: decInt_def undec_dec del: undec.simps)
next
  case False
  obtain c t where ct: "dec (nat n) = c # t" by (metis dec_nonempty neq_Nil_conv)
  have "c \<noteq> CHR ''-''" using dec_char [of c "nat n"] by (auto simp: ct)
  with False ct undec_dec [of "nat n"] show ?thesis by (simp add: decInt_def del: undec.simps)
qed

lemma NUL_dec: "NUL \<notin> set (dec n)"
proof (induction n rule: dec.induct)
  case (1 n)
  have "of_char NUL = (0 :: nat)" by (simp add: NUL_def)
  then have "NUL \<noteq> char_of (48 + d)" if "d < 10" for d :: nat
    using digit [OF that] by (metis add_is_0 zero_neq_numeral)
  with 1 show ?case by (auto simp: dec.simps [of n])
qed

lemma split_at_NUL:
  "NUL \<notin> set xs \<Longrightarrow> NUL \<notin> set ys \<Longrightarrow> xs @ NUL # x = ys @ NUL # y \<longleftrightarrow> xs = ys \<and> x = y"
proof (induction xs arbitrary: ys)
  case Nil
  then show ?case by (cases ys) auto
next
  case (Cons a xs)
  then show ?case by (cases ys) auto
qed

lemma prefixed_inj: "dec (length s) @ NUL # s @ x = dec (length t) @ NUL # t @ y \<longleftrightarrow> s = t \<and> x = y"
  by (auto simp: split_at_NUL NUL_dec dec_inj)

lemma getPoolKey_inj:
  "getPoolKey u p v = getPoolKey u' p' v' \<longleftrightarrow> u = u' \<and> p = p' \<and> v = v'"
  using prefixed_inj [of u _ u'] prefixed_inj [of p _ p'] prefixed_inj [of v "[]" v' "[]"]
  by (auto simp: getPoolKey_def)

end
