(* ===== verification/Amqp_Proxy.thy ===== *)
theory Amqp_Proxy
  imports Proxy_Config Client_Loop "HOL-Library.AList"
begin

text \<open>
  \<open>proxy/proxy.go\<close>: the proxy as a whole. The pool of upstreams per credential set with its
  global limit, the admission of a client (protocol header, handshake, choice of an upstream,
  registration), the life of a client connection, the idle sweep, the accept loop and the shutdown.

  \<open>upstreams\<close>, a Go map from pool keys to slices, is an association list in some order of
  enumeration; nothing proved depends on the order. Upstreams and broker connections are addresses in the
  stores \<open>ups\<close> and \<open>up_conns\<close>, and \<open>fresh\<close> is the next unused address. What lies outside the
  program is the record \<open>net_env\<close>: \<open>url.Parse\<close>, the file system, and dialling, which yields a
  connection together with what its peer will send. The field \<open>listenerTLS\<close> is the TLS configuration of
  the listener (\<open>p.listener.TLSConfig\<close>).
\<close>

section \<open>State\<close>

record net_env =
  url_Parse :: "string \<Rightarrow> URL result"
  files :: tls_files
  net_Dial :: "string \<Rightarrow> (net_conn \<times> reader) result"
  tls_Dial :: "string \<Rightarrow> tls_Config \<Rightarrow> (net_conn \<times> reader) result"

record Proxy =
  config :: Config
  listenerTLS :: "tls_Config option"
  upstreams :: "(string \<times> nat list) list"
  ups :: "nat \<Rightarrow> ManagedUpstream"
  up_conns :: "nat \<Rightarrow> UpstreamConn"
  p_ccs :: "nat \<Rightarrow> ClientConnection"
  listening :: bool
  activeClients :: int
  fresh :: nat

text \<open>\<open>NewProxy\<close>, on the stores as they are when nothing has been allocated.\<close>

definition NewProxy :: "net_env \<Rightarrow> Config \<Rightarrow> Proxy \<Rightarrow> Proxy result" where
  "NewProxy env cfg blank =
     (case NewAMQPListener (files env) cfg of
        Inl err \<Rightarrow> Inl (Wrapf ''failed to create listener: %w'' [] err)
      | Inr tlsConfig \<Rightarrow>
          Inr (blank\<lparr>config := cfg, listenerTLS := tlsConfig, upstreams := [], listening := False, activeClients := 0, fresh := 0\<rparr>))"

text \<open>The part of the state that the goroutines of upstream \<open>i\<close> and its clients share.\<close>

definition world_of :: "Proxy \<Rightarrow> nat \<Rightarrow> world" where
  "world_of p i = \<lparr>mu = ups p i, conns = up_conns p, ccs = p_ccs p\<rparr>"

definition put_world :: "Proxy \<Rightarrow> nat \<Rightarrow> world \<Rightarrow> Proxy" where
  "put_world p i w = p\<lparr>ups := (ups p)(i := mu w), up_conns := conns w, p_ccs := ccs w\<rparr>"

section \<open>Choosing an upstream\<close>

definition upstreamTLSConfig :: "net_env \<Rightarrow> Config \<Rightarrow> tls_Config result" where
  "upstreamTLSConfig env cfg =
     LoadTLSConfig (files env) (TLSCACert cfg) (TLSClientCert cfg) (TLSClientKey cfg) (TLSSkipVerify cfg)"

definition dialUpstream :: "net_env \<Rightarrow> Config \<Rightarrow> string \<Rightarrow> string \<Rightarrow> (net_conn \<times> reader) result" where
  "dialUpstream env cfg network addr =
     (if network = ''tcp+tls''
      then (case upstreamTLSConfig env cfg of
              Inl err \<Rightarrow> Inl err
            | Inr tlsCfg \<Rightarrow> tls_Dial env addr tlsCfg)
      else net_Dial env addr)"

definition pool :: "Proxy \<Rightarrow> string \<Rightarrow> nat list" where
  "pool p key = (case map_of (upstreams p) key of None \<Rightarrow> [] | Some is \<Rightarrow> is)"

definition withCapacity :: "Proxy \<Rightarrow> string \<Rightarrow> nat option" where
  "withCapacity p key = find (\<lambda>i. HasCapacity (ups p i)) (pool p key)"

definition totalUpstreams :: "Proxy \<Rightarrow> nat" where
  "totalUpstreams p = sum_list (map (\<lambda>(key, is). length is) (upstreams p))"

text \<open>The creation of a managed upstream on a connection that has passed the handshake.\<close>

definition addUpstream ::
    "Proxy \<Rightarrow> string \<Rightarrow> string \<Rightarrow> string \<Rightarrow> string \<Rightarrow> UpstreamConn \<Rightarrow> nat \<times> Proxy" where
  "addUpstream p key username password vhost c =
     (let i = fresh p;
          m = newManagedUpstream username password vhost (of_int (PoolMaxChannels (config p)));
          p = p\<lparr>ups := (ups p)(i := m), up_conns := (up_conns p)(i := c), fresh := i + 1\<rparr>;
          p = put_world p i (fst (Start (world_of p i) i))
      in (i, p\<lparr>upstreams := AList.update key (pool p key @ [i]) (upstreams p)\<rparr>))"

text \<open>The part of \<open>getOrCreateManagedUpstream\<close> under the write lock.\<close>

definition getOrCreateLocked ::
    "net_env \<Rightarrow> Proxy \<Rightarrow> string \<Rightarrow> string \<Rightarrow> string \<Rightarrow> nat result \<times> Proxy" where
  "getOrCreateLocked env p username password vhost =
     (let key = getPoolKey username password vhost
      in case withCapacity p key of
           Some i \<Rightarrow> (Inr i, p)
         | None \<Rightarrow>
             if MaxUpstreamConnections (config p) > 0 \<and>
                int (totalUpstreams p) \<ge> MaxUpstreamConnections (config p)
             then (Inl (New ''upstream connection limit reached''), p)
             else (case parseUpstreamURL (url_Parse env) (UpstreamURL (config p)) of
                     Inl err \<Rightarrow> (Inl err, p)
                   | Inr (network, addr) \<Rightarrow>
                       (case dialUpstream env (config p) network addr of
                          Inl err \<Rightarrow> (Inl (Wrapf ''failed to dial upstream: %w'' [] err), p)
                        | Inr (netConn, inp) \<Rightarrow>
                            (case performUpstreamHandshake netConn inp username password vhost of
                               (Some err, c) \<Rightarrow> (Inl (Wrapf ''upstream handshake failed: %w'' [] err), p)
                             | (None, c) \<Rightarrow>
                                 (case addUpstream p key username password vhost c of
                                    (i, p) \<Rightarrow> (Inr i, p))))))"

definition getOrCreateManagedUpstream ::
    "net_env \<Rightarrow> Proxy \<Rightarrow> string \<Rightarrow> string \<Rightarrow> string \<Rightarrow> nat result \<times> Proxy" where
  "getOrCreateManagedUpstream env p username password vhost =
     (case withCapacity p (getPoolKey username password vhost) of
        Some i \<Rightarrow> (Inr i, p)
      | None \<Rightarrow> getOrCreateLocked env p username password vhost)"

section \<open>The life of a client connection\<close>

definition set_cc :: "Proxy \<Rightarrow> nat \<Rightarrow> ClientConnection \<Rightarrow> Proxy" where
  "set_cc p x cc = p\<lparr>p_ccs := (p_ccs p)(x := cc)\<rparr>"

definition set_up :: "Proxy \<Rightarrow> nat \<Rightarrow> ManagedUpstream \<Rightarrow> Proxy" where
  "set_up p i m = p\<lparr>ups := (ups p)(i := m)\<rparr>"

definition unavailable :: Frame where
  "unavailable = method_frame (serializeConnectionClose 503 ''upstream unavailable'')"

text \<open>
  \<open>handleConnection\<close> up to its loop, in the pieces between which other goroutines act on what it reads:
  the protocol header and the client's handshake, which only touch the client's own connection (the
  result says whether it goes on); the choice of an upstream; the registration, before which the
  upstream does not know the client; and the rejection, after one of the two tests that follow.
\<close>

definition clientHandshake :: "ClientConnection \<Rightarrow> bool \<times> ClientConnection" where
  "clientHandshake cc =
     (case ReadFull (Reader cc) 8 of
        (Inl err, r) \<Rightarrow> (False, cc\<lparr>Reader := r\<rparr>)
      | (Inr header, r) \<Rightarrow>
          if header \<noteq> ProtocolHeader then (False, cc\<lparr>Reader := r\<rparr>)
          else (case Handle (cc\<lparr>Reader := r\<rparr>) of
                  (Some err, cc) \<Rightarrow> (False, cc)
                | (None, cc) \<Rightarrow> (cc_Username cc \<noteq> [], cc)))"

definition chooseUpstream ::
    "net_env \<Rightarrow> Proxy \<Rightarrow> nat \<Rightarrow> string \<Rightarrow> string \<Rightarrow> string \<Rightarrow> nat option \<times> Proxy" where
  "chooseUpstream env p x username password vhost =
     (case getOrCreateManagedUpstream env p username password vhost of
        (Inl err, p) \<Rightarrow>
          let cc = p_ccs p x
          in (None, set_cc p x (cc\<lparr>Writer := snd (Flush (snd (WriteFrame bufio_Write (Writer cc) unavailable)))\<rparr>))
      | (Inr i, p) \<Rightarrow> (Some i, p))"

definition registerClient :: "Proxy \<Rightarrow> nat \<Rightarrow> nat \<Rightarrow> Proxy" where
  "registerClient p x i = set_up p i (Register (ups p i) x)"

definition rejectClient :: "int \<Rightarrow> Proxy \<Rightarrow> nat \<Rightarrow> nat \<Rightarrow> Proxy" where
  "rejectClient now p x i =
     (let p = set_up p i (Deregister (ups p i) x now)
      in set_cc p x (snd (DeliverFrame (p_ccs p x) unavailable)))"

text \<open>
  The same with nothing in between: the upstream the client is attached to, or \<open>None\<close> when the
  function returns before its loop. Theory \<open>Proxy_Server\<close> has the pieces as separate steps.
\<close>

definition admitClient :: "net_env \<Rightarrow> int \<Rightarrow> Proxy \<Rightarrow> nat \<Rightarrow> nat option \<times> Proxy" where
  "admitClient env now p x =
     (case clientHandshake (p_ccs p x) of
        (ok, cc) \<Rightarrow>
          let p = set_cc p x cc
          in if \<not> ok then (None, p)
             else (case chooseUpstream env p x (cc_Username cc) (cc_Password cc) (cc_Vhost cc) of
                     (None, p) \<Rightarrow> (None, p)
                   | (Some i, p) \<Rightarrow>
                       let p = registerClient p x i
                       in if stopped (ups p i) \<or> reconnecting (ups p i) then (None, rejectClient now p x i)
                          else (Some i, p)))"

text \<open>The loop on one upstream, until a turn leaves it.\<close>

inductive clientLoop :: "nat \<Rightarrow> world \<Rightarrow> world \<Rightarrow> bool" where
  leave_turn: "Leave w' \<in> set (clientLoop_turn w x) \<Longrightarrow> clientLoop x w w'"
| again_turn: "Next w1 \<in> set (clientLoop_turn w x) \<Longrightarrow> clientLoop x w1 w' \<Longrightarrow> clientLoop x w w'"

text \<open>The two outermost deferred calls: the count of clients and the connection.\<close>

definition finishClient :: "Proxy \<Rightarrow> nat \<Rightarrow> Proxy" where
  "finishClient p x = (set_cc p x (Abort (p_ccs p x)))\<lparr>activeClients := activeClients p - 1\<rparr>"

inductive handleConnection :: "net_env \<Rightarrow> Proxy \<Rightarrow> nat \<Rightarrow> Proxy \<Rightarrow> bool" for env where
  refused: "admitClient env now p x = (None, p') \<Longrightarrow> handleConnection env p x (finishClient p' x)"
| served: "admitClient env now p x = (Some i, p1) \<Longrightarrow> clientLoop x (world_of p1 i) w \<Longrightarrow>
    set es = {(c, u). ChannelMapping (ccs w x) c = Some u} \<Longrightarrow> distinct (map fst es) \<Longrightarrow>
    w' \<in> set (releaseClientChannels (w\<lparr>mu := Deregister (mu w) x later\<rparr>) x es) \<Longrightarrow>
    handleConnection env p x (finishClient (put_world p1 i w') x)"

section \<open>Accepting, sweeping, stopping\<close>

datatype accept_result = Launched Proxy | Refused Proxy | Closing_down Proxy

text \<open>\<open>Start\<close>, the body of its loop on an accepted connection, which becomes client \<open>x\<close>.\<close>

definition acceptConn :: "Proxy \<Rightarrow> nat \<Rightarrow> ClientConnection \<Rightarrow> accept_result" where
  "acceptConn p x cc =
     (if \<not> listening p then Closing_down (set_cc p x (Abort cc))
      else if MaxClientConnections (config p) > 0 \<and> activeClients p \<ge> MaxClientConnections (config p)
      then Refused (set_cc p x (Abort cc))
      else Launched ((set_cc p x cc)\<lparr>activeClients := activeClients p + 1\<rparr>))"

text \<open>\<open>removeIdleUpstreams\<close>: the sweep of one slice, and of all.\<close>

fun sweepPool :: "int \<Rightarrow> int \<Rightarrow> Proxy \<Rightarrow> nat list \<Rightarrow> nat list \<times> Proxy" where
  "sweepPool timeout now p [] = ([], p)"
| "sweepPool timeout now p (i # is) =
     (case markStoppedIfIdle (ups p i) (up_conns p) timeout now of
        (stop, m, h) \<Rightarrow>
          (case sweepPool timeout now (p\<lparr>ups := (ups p)(i := m), up_conns := h\<rparr>) is of
             (kept, p) \<Rightarrow> (if stop then kept else i # kept, p)))"

fun sweepAll :: "int \<Rightarrow> int \<Rightarrow> Proxy \<Rightarrow> (string \<times> nat list) list \<Rightarrow> (string \<times> nat list) list \<times> Proxy" where
  "sweepAll timeout now p [] = ([], p)"
| "sweepAll timeout now p ((key, is) # pools) =
     (case sweepPool timeout now p is of
        (kept, p) \<Rightarrow>
          (case sweepAll timeout now p pools of
             (rest, p) \<Rightarrow> (if kept = [] then rest else (key, kept) # rest, p)))"

definition removeIdleUpstreams :: "int \<Rightarrow> int \<Rightarrow> Proxy \<Rightarrow> Proxy" where
  "removeIdleUpstreams timeout now p =
     (case sweepAll timeout now p (upstreams p) of (pools, p) \<Rightarrow> p\<lparr>upstreams := pools\<rparr>)"

text \<open>\<open>startIdleCleanup\<close>: the idle timeout and the interval between two sweeps.\<close>

definition idleTimeout :: "Config \<Rightarrow> int" where
  "idleTimeout cfg = PoolIdleTimeout cfg * 1000000000"

definition cleanupInterval :: "Config \<Rightarrow> int" where
  "cleanupInterval cfg =
     (if PoolCleanupInterval cfg \<le> 0 then 30 else PoolCleanupInterval cfg) * 1000000000"

text \<open>\<open>Stop\<close>, up to the wait for the clients.\<close>

definition stopUpstream :: "Proxy \<Rightarrow> nat \<Rightarrow> Proxy" where
  "stopUpstream p i =
     (let m = stopWritePump ((ups p i)\<lparr>stopped := True\<rparr>)
      in p\<lparr>ups := (ups p)(i := m), p_ccs := AbortAllClients m (p_ccs p),
           up_conns := closeUpstream (up_conns p) (conn m)\<rparr>)"

definition Stop :: "Proxy \<Rightarrow> Proxy" where
  "Stop p =
     (let p = p\<lparr>listening := False\<rparr>;
          p = foldl stopUpstream p (concat (map snd (upstreams p)))
      in p\<lparr>upstreams := []\<rparr>)"

section \<open>The pool of upstreams\<close>

text \<open>Every upstream of a slice has the credentials its key encodes.\<close>

definition pools_ok :: "Proxy \<Rightarrow> bool" where
  "pools_ok p \<longleftrightarrow> distinct (map fst (upstreams p)) \<and>
     (\<forall>key is i. map_of (upstreams p) key = Some is \<and> i \<in> set is \<longrightarrow>
        i < fresh p \<and> getPoolKey (mu_username (ups p i)) (mu_password (ups p i)) (mu_vhost (ups p i)) = key)"

lemma pools_okD:
  assumes "pools_ok p" "map_of (upstreams p) key = Some ids" "i \<in> set ids"
  shows "i < fresh p \<and> getPoolKey (mu_username (ups p i)) (mu_password (ups p i)) (mu_vhost (ups p i)) = key"
  using assms unfolding pools_ok_def by blast

lemma pool_member:
  assumes "pools_ok p" "i \<in> set (pool p (getPoolKey u pw v))"
  shows "i < fresh p \<and> mu_username (ups p i) = u \<and> mu_password (ups p i) = pw \<and> mu_vhost (ups p i) = v"
proof -
  from assms(2) obtain ids where "map_of (upstreams p) (getPoolKey u pw v) = Some ids" "i \<in> set ids"
    by (cases "map_of (upstreams p) (getPoolKey u pw v)") (auto simp: pool_def)
  from pools_okD [OF assms(1) this] show ?thesis by (simp add: getPoolKey_inj)
qed

lemma withCapacity_Some:
  "withCapacity p key = Some i \<Longrightarrow> i \<in> set (pool p key) \<and> HasCapacity (ups p i)"
  by (auto simp: withCapacity_def find_Some_iff)

lemma withCapacity_None: "withCapacity p key = None \<Longrightarrow> i \<in> set (pool p key) \<Longrightarrow> \<not> HasCapacity (ups p i)"
  by (simp add: withCapacity_def find_None_iff)

lemma pool_upstreams [simp]:
  "pool (p\<lparr>upstreams := AList.update key is al\<rparr>) k = (if k = key then is else pool (p\<lparr>upstreams := al\<rparr>) k)"
  by (simp add: pool_def update_conv')

lemma length_update:
  assumes "distinct (map fst al)"
  shows "sum_list (map (\<lambda>(k, is). length is) (AList.update key js al)) +
      length (case map_of al key of None \<Rightarrow> [] | Some is \<Rightarrow> is) =
    sum_list (map (\<lambda>(k, is). length is) al) + length js"
  using assms
proof (induction al)
  case Nil
  show ?case by simp
next
  case (Cons e al)
  obtain k ids where e: "e = (k, ids)" by (cases e)
  have "map_of al key = None" if "k = key"
    using Cons.prems that by (simp add: e map_of_eq_None_iff)
  with Cons e show ?case by (cases "k = key") auto
qed

text \<open>What \<open>addUpstream\<close> yields.\<close>

lemma addUpstream_fields:
  assumes "addUpstream p key u pw v c = (i, p')"
  shows "i = fresh p" "fresh p' = Suc (fresh p)" "config p' = config p" "p_ccs p' = p_ccs p"
    "upstreams p' = AList.update key (pool p key @ [i]) (upstreams p)"
    "ups p' = (ups p)(i := (newManagedUpstream u pw v (of_int (PoolMaxChannels (config p))))\<lparr>conn := Some i\<rparr>)"
    "up_conns p' = (up_conns p)(i := c)" "activeClients p' = activeClients p" "listening p' = listening p"
  using assms by (auto simp: addUpstream_def Let_def put_world_def world_of_def Start_def pool_def)

lemma addUpstream_pools:
  assumes "pools_ok p" "addUpstream p (getPoolKey u pw v) u pw v c = (i, p')"
  shows "pools_ok p'"
proof -
  note f = addUpstream_fields [OF assms(2)]
  have "distinct (map fst (upstreams p'))"
    using assms(1) by (simp add: f pools_ok_def distinct_update)
  moreover have "j < fresh p' \<and> getPoolKey (mu_username (ups p' j)) (mu_password (ups p' j)) (mu_vhost (ups p' j)) = key"
    if "map_of (upstreams p') key = Some ids" "j \<in> set ids" for key ids j
  proof (cases "j = i")
    case True
    have "i \<notin> set js" if "map_of (upstreams p) k = Some js" for k js
      using pools_okD [OF assms(1) that] f(1) by blast
    with that True have "key = getPoolKey u pw v" by (auto simp: f(5) update_conv' split: if_splits)
    with True show ?thesis by (simp add: f newManagedUpstream_def)
  next
    case False
    with that obtain js where "map_of (upstreams p) key = Some js" "j \<in> set js"
      by (auto simp: f(5) update_conv' pool_def split: if_splits option.splits)
    with pools_okD [OF assms(1)] False show ?thesis by (simp add: f less_Suc_eq)
  qed
  ultimately show ?thesis unfolding pools_ok_def by blast
qed

lemma addUpstream_total:
  "pools_ok p \<Longrightarrow> addUpstream p key u pw v c = (i, p') \<Longrightarrow> totalUpstreams p' = totalUpstreams p + 1"
  using length_update [of "upstreams p" key "pool p key @ [i]"]
  by (simp add: totalUpstreams_def addUpstream_fields pools_ok_def) (simp add: pool_def)

text \<open>The outcomes of the locked part.\<close>

lemma getOrCreateLocked_cases:
  assumes "getOrCreateLocked env p u pw v = (r, p')"
  obtains (found) i where "withCapacity p (getPoolKey u pw v) = Some i" "r = Inr i" "p' = p"
  | (failed) err where "withCapacity p (getPoolKey u pw v) = None" "r = Inl err" "p' = p"
  | (created) i c where "withCapacity p (getPoolKey u pw v) = None" "r = Inr i"
      "addUpstream p (getPoolKey u pw v) u pw v c = (i, p')"
      "\<not> (MaxUpstreamConnections (config p) > 0 \<and> int (totalUpstreams p) \<ge> MaxUpstreamConnections (config p))"
  using assms by (auto simp: getOrCreateLocked_def Let_def split: option.splits if_splits sum.splits prod.splits)

lemma getOrCreate_locked:
  "getOrCreateManagedUpstream env p u pw v = getOrCreateLocked env p u pw v"
  by (simp add: getOrCreateManagedUpstream_def getOrCreateLocked_def Let_def split: option.splits)

lemma getOrCreateLocked_pool:
  assumes "pools_ok p" "getOrCreateLocked env p u pw v = (Inr i, p')"
  shows "pools_ok p' \<and> mu_username (ups p' i) = u \<and> mu_password (ups p' i) = pw \<and> mu_vhost (ups p' i) = v \<and>
    i \<in> set (pool p' (getPoolKey u pw v)) \<and> (\<forall>j < fresh p. ups p' j = ups p j) \<and> p_ccs p' = p_ccs p \<and>
    (if i < fresh p then p' = p \<and> HasCapacity (ups p i)
     else \<forall>j \<in> set (pool p (getPoolKey u pw v)). \<not> HasCapacity (ups p j))"
  using assms(2)
proof (cases rule: getOrCreateLocked_cases)
  case (found j)
  with withCapacity_Some [OF found(1)] pool_member [OF assms(1), of i u pw v] assms(1) show ?thesis by auto
next
  case (failed err)
  then show ?thesis by simp
next
  case (created j c)
  note f = addUpstream_fields [OF created(3)]
  from created(2) have i: "i = j" by simp
  have "mu_username (ups p' i) = u" "mu_password (ups p' i) = pw" "mu_vhost (ups p' i) = v"
    by (simp_all add: i f newManagedUpstream_def)
  moreover have "i \<in> set (pool p' (getPoolKey u pw v))"
    by (simp add: i f(5) pool_def update_conv')
  moreover have "\<not> i < fresh p" "\<forall>j < fresh p. ups p' j = ups p j" "p_ccs p' = p_ccs p"
    using i f by auto
  ultimately show ?thesis
    using addUpstream_pools [OF assms(1) created(3)] withCapacity_None [OF created(1)] by simp
qed

section \<open>Admission\<close>

lemma Register_fields [simp]:
  "mu_username (Register m x) = mu_username m" "mu_password (Register m x) = mu_password m"
  "mu_vhost (Register m x) = mu_vhost m" "stopped (Register m x) = stopped m"
  "reconnecting (Register m x) = reconnecting m" "clients (Register m x) = clients m @ [x]"
  "lastEmptyTime (Register m x) = None"
  by (simp_all add: Register_def)

text \<open>A client that has passed the handshake, and one that has got an upstream.\<close>

lemma clientHandshake_True:
  "clientHandshake cc = (True, cc') \<longleftrightarrow>
     (\<exists>r. ReadFull (Reader cc) 8 = (Inr ProtocolHeader, r) \<and> Handle (cc\<lparr>Reader := r\<rparr>) = (None, cc') \<and> cc_Username cc' \<noteq> [])"
  by (auto simp: clientHandshake_def split: prod.splits sum.splits option.splits if_splits)

lemma chooseUpstream_Some:
  "chooseUpstream env p x u pw v = (Some i, p') \<longleftrightarrow> getOrCreateManagedUpstream env p u pw v = (Inr i, p')"
  by (auto simp: chooseUpstream_def Let_def split: prod.splits sum.splits)

lemma registerClient_flags [simp]:
  "stopped (ups (registerClient p x i) j) = stopped (ups p j)" "reconnecting (ups (registerClient p x i) j) = reconnecting (ups p j)"
  "x \<in> set (clients (ups (registerClient p x i) i))" "p_ccs (registerClient p x i) = p_ccs p"
  by (simp_all add: registerClient_def set_up_def)

text \<open>The runs of \<open>admitClient\<close> that attach the client.\<close>

lemma admitClient_Some:
  assumes "admitClient env now p x = (Some i, p')"
  obtains cc p1 where "clientHandshake (p_ccs p x) = (True, cc)"
    "getOrCreateManagedUpstream env (set_cc p x cc) (cc_Username cc) (cc_Password cc) (cc_Vhost cc) = (Inr i, p1)"
    "p' = registerClient p1 x i" "\<not> stopped (ups p1 i)" "\<not> reconnecting (ups p1 i)"
proof -
  obtain ok cc where c: "clientHandshake (p_ccs p x) = (ok, cc)" by fastforce
  obtain e p1 where g: "chooseUpstream env (set_cc p x cc) x (cc_Username cc) (cc_Password cc) (cc_Vhost cc) = (e, p1)" by fastforce
  from assms c g have "ok" "e = Some i" "p' = registerClient p1 x i" "\<not> stopped (ups p1 i)" "\<not> reconnecting (ups p1 i)"
    by (auto simp: admitClient_def Let_def split: option.splits if_splits)
  with that c g show thesis by (simp add: chooseUpstream_Some)
qed

lemma pools_ok_set_cc [simp]: "pools_ok (set_cc p x cc) = pools_ok p"
  by (simp add: pools_ok_def set_cc_def)

lemma pools_ok_set_up:
  assumes "pools_ok p" "mu_username m = mu_username (ups p i)" "mu_password m = mu_password (ups p i)"
    "mu_vhost m = mu_vhost (ups p i)"
  shows "pools_ok (set_up p i m)"
  using assms unfolding pools_ok_def set_up_def by simp

text \<open>The counters that only \<open>Start\<close> and the end of a connection touch.\<close>

lemma getOrCreate_active:
  "getOrCreateManagedUpstream env p u pw v = (r, p') \<Longrightarrow> activeClients p' = activeClients p"
  unfolding getOrCreate_locked
  by (erule getOrCreateLocked_cases) (simp_all add: addUpstream_fields)

lemma chooseUpstream_active: "chooseUpstream env p x u pw v = (r, p') \<Longrightarrow> activeClients p' = activeClients p"
  using getOrCreate_active by (auto simp: chooseUpstream_def set_cc_def Let_def split: prod.splits sum.splits)

lemma admitClient_active:
  assumes "admitClient env now p x = (r, p')"
  shows "activeClients p' = activeClients p"
proof -
  obtain ok cc where c: "clientHandshake (p_ccs p x) = (ok, cc)" by fastforce
  obtain e p1 where g: "chooseUpstream env (set_cc p x cc) x (cc_Username cc) (cc_Password cc) (cc_Vhost cc) = (e, p1)" by fastforce
  from assms c g chooseUpstream_active [OF g] show ?thesis
    by (cases e) (auto simp: admitClient_def rejectClient_def registerClient_def set_cc_def set_up_def Let_def split: if_splits)
qed

section \<open>The idle sweep and the shutdown\<close>

definition idle :: "int \<Rightarrow> int \<Rightarrow> ManagedUpstream \<Rightarrow> bool" where
  "idle timeout now m \<longleftrightarrow>
     (\<exists>t. lastEmptyTime m = Some t \<and> timeout \<le> now - t) \<and> clients m = [] \<and> usedChannels m = {}"

definition halted :: "ManagedUpstream \<Rightarrow> ManagedUpstream" where
  "halted m = (stopWritePump (m\<lparr>stopped := True\<rparr>))\<lparr>conn := None\<rparr>"

lemma markStoppedIfIdle_idle:
  "markStoppedIfIdle m h timeout now =
     (if idle timeout now m then (True, halted m, closeUpstream h (conn m)) else (False, m, h))"
  by (auto simp: markStoppedIfIdle_def idle_def halted_def stopWritePump_def Let_def split: option.splits)

lemma halted_fields [simp]:
  "stopped (halted m)" "writeDone (halted m) \<in> doneClosed (halted m)" "conn (halted m) = None"
  "mu_username (halted m) = mu_username m" "mu_password (halted m) = mu_password m" "mu_vhost (halted m) = mu_vhost m"
  by (simp_all add: halted_def stopWritePump_def)

lemma closeUpstream_closed: "closed (wr (uc_Writer (h a))) \<Longrightarrow> closed (wr (uc_Writer (closeUpstream h c a)))"
  by (simp add: closeUpstream_def Conn_Close_def split: option.splits)

lemma closeUpstream_same [simp]: "closed (wr (uc_Writer (closeUpstream h (Some a) a)))"
  by (simp add: closeUpstream_def Conn_Close_def)

lemma sweepPool_effect:
  assumes "distinct is" "sweepPool timeout now p is = (kept, p')"
  shows "kept = filter (\<lambda>i. \<not> idle timeout now (ups p i)) is \<and>
    (\<forall>j. ups p' j = (if j \<in> set is \<and> idle timeout now (ups p j) then halted (ups p j) else ups p j)) \<and>
    (\<forall>a. closed (wr (uc_Writer (up_conns p a))) \<longrightarrow> closed (wr (uc_Writer (up_conns p' a)))) \<and>
    (\<forall>j \<in> set is. \<forall>a. idle timeout now (ups p j) \<and> conn (ups p j) = Some a \<longrightarrow>
       closed (wr (uc_Writer (up_conns p' a)))) \<and>
    p_ccs p' = p_ccs p \<and> fresh p' = fresh p"
  using assms
proof (induction "is" arbitrary: p kept)
  case Nil
  then show ?case by simp
next
  case (Cons i ids)
  let ?I = "idle timeout now (ups p i)"
  define p1 where "p1 = p\<lparr>ups := (ups p)(i := if ?I then halted (ups p i) else ups p i),
    up_conns := if ?I then closeUpstream (up_conns p) (conn (ups p i)) else up_conns p\<rparr>"
  from Cons.prems(2) obtain k1 where k1: "sweepPool timeout now p1 ids = (k1, p')" "kept = (if ?I then k1 else i # k1)"
    by (cases ?I) (auto simp: markStoppedIfIdle_idle p1_def split: prod.splits)
  have others: "ups p1 j = ups p j" if "j \<in> set ids" for j
    using that Cons.prems(1) by (auto simp: p1_def)
  have flt: "filter (\<lambda>j. \<not> idle timeout now (ups p1 j)) ids = filter (\<lambda>j. \<not> idle timeout now (ups p j)) ids"
    using others by (intro filter_cong) simp_all
  have mono: "closed (wr (uc_Writer (up_conns p a))) \<Longrightarrow> closed (wr (uc_Writer (up_conns p1 a)))" for a
    by (simp add: p1_def closeUpstream_closed)
  have here: "closed (wr (uc_Writer (up_conns p1 a)))" if ?I "conn (ups p i) = Some a" for a
    using that by (simp add: p1_def)
  from Cons.IH [OF _ k1(1)] Cons.prems(1) have IH:
    "k1 = filter (\<lambda>j. \<not> idle timeout now (ups p1 j)) ids"
    "\<And>j. ups p' j = (if j \<in> set ids \<and> idle timeout now (ups p1 j) then halted (ups p1 j) else ups p1 j)"
    "\<And>a. closed (wr (uc_Writer (up_conns p1 a))) \<Longrightarrow> closed (wr (uc_Writer (up_conns p' a)))"
    "\<And>j a. j \<in> set ids \<Longrightarrow> idle timeout now (ups p1 j) \<Longrightarrow> conn (ups p1 j) = Some a \<Longrightarrow>
       closed (wr (uc_Writer (up_conns p' a)))"
    "p_ccs p' = p_ccs p1" "fresh p' = fresh p1" by auto
  have u: "ups p' j = (if j \<in> set (i # ids) \<and> idle timeout now (ups p j) then halted (ups p j) else ups p j)" for j
    using others [of j] Cons.prems(1) by (cases "j = i") (simp_all add: IH(2) p1_def)
  have c: "closed (wr (uc_Writer (up_conns p' a)))"
    if "j \<in> set (i # ids)" "idle timeout now (ups p j)" "conn (ups p j) = Some a" for j a
    using that here [of a] IH(3) [of a] IH(4) [of j a] others [of j] by (cases "j = i") auto
  have "p_ccs p' = p_ccs p" "fresh p' = fresh p" using IH(5,6) by (simp_all add: p1_def)
  with u c k1(2) IH(1) flt mono IH(3) show ?case by auto
qed

lemma sweepPool_append:
  "sweepPool timeout now p (xs @ ys) =
     (case sweepPool timeout now p xs of (k1, p1) \<Rightarrow>
       (case sweepPool timeout now p1 ys of (k2, p2) \<Rightarrow> (k1 @ k2, p2)))"
  by (induction xs arbitrary: p) (auto split: prod.splits)

lemma sweepAll_concat:
  "sweepAll timeout now p pools = (rest, p') \<Longrightarrow>
   sweepPool timeout now p (concat (map snd pools)) = (concat (map snd rest), p')"
proof (induction pools arbitrary: p rest)
  case (Cons e pools)
  obtain key ids where e: "e = (key, ids)" by (cases e)
  obtain kept p1 where k: "sweepPool timeout now p ids = (kept, p1)" by fastforce
  obtain rest1 where "sweepAll timeout now p1 pools = (rest1, p')" "rest = (if kept = [] then rest1 else (key, kept) # rest1)"
    using Cons.prems k by (auto simp: e split: prod.splits)
  with Cons.IH [of p1 rest1] k show ?case by (auto simp: e sweepPool_append)
qed simp

lemma sweepAll_nonempty:
  "sweepAll timeout now p pools = (rest, p') \<Longrightarrow> (key, ids) \<in> set rest \<Longrightarrow> ids \<noteq> []"
  by (induction pools arbitrary: p rest) (auto split: prod.splits if_splits)

text \<open>Stopping a list of upstreams.\<close>

lemma stopUpstream_fields [simp]:
  "upstreams (stopUpstream p i) = upstreams p" "activeClients (stopUpstream p i) = activeClients p"
  "listening (stopUpstream p i) = listening p"
  by (simp_all add: stopUpstream_def Let_def)

definition down :: "Proxy \<Rightarrow> nat \<Rightarrow> bool" where
  "down p i \<longleftrightarrow> stopped (ups p i) \<and> writeDone (ups p i) \<in> doneClosed (ups p i) \<and>
     (\<forall>a. conn (ups p i) = Some a \<longrightarrow> closed (wr (uc_Writer (up_conns p a)))) \<and>
     (\<forall>x \<in> set (clients (ups p i)). closed (wr (Writer (p_ccs p x))))"

lemma stopUpstream_down: "down (stopUpstream p i) i"
  by (auto simp: down_def stopUpstream_def Let_def stopWritePump_def AbortAllClients_apply)

lemma stopUpstream_keeps: "down p j \<Longrightarrow> down (stopUpstream p i) j"
  using stopUpstream_down [of p i]
  by (cases "i = j") (auto simp: down_def stopUpstream_def Let_def AbortAllClients_apply closeUpstream_closed)

lemma stop_all: "i \<in> set is \<or> down p i \<Longrightarrow> down (foldl stopUpstream p is) i"
  by (induction "is" arbitrary: p) (auto simp: stopUpstream_down stopUpstream_keeps)

section \<open>Examples\<close>

definition cfg_ex :: Config where
  "cfg_ex = \<lparr>ListenAddress = ''0.0.0.0'', ListenPort = 5673, AdminPort = 9099, PoolIdleTimeout = 5,
     PoolMaxChannels = 100, MaxUpstreamConnections = 1, MaxClientConnections = 2, PoolCleanupInterval = 0,
     UpstreamURL = ''amqp://broker'', TLSCert = '''', TLSKey = '''', TLSCACert = '''', TLSClientCert = '''',
     TLSClientKey = '''', TLSSkipVerify = False\<rparr>"

definition env_ex :: net_env where
  "env_ex = \<lparr>url_Parse = (\<lambda>s. Inr \<lparr>Scheme = ''amqp'', Hostname = ''broker'', Port = ''''\<rparr>),
     files = \<lparr>os_ReadFile = (\<lambda>s. Inl EOF), AppendCertsFromPEM = (\<lambda>b. False), LoadX509KeyPair = (\<lambda>c k. Inl EOF)\<rparr>,
     net_Dial = (\<lambda>a. Inl EOF), tls_Dial = (\<lambda>a c. Inl EOF)\<rparr>"

definition proxy_ex :: Proxy where
  "proxy_ex = \<lparr>config = cfg_ex, listenerTLS = None, upstreams = [(getPoolKey ''guest'' ''guest'' ''/'', [0])],
     ups = (\<lambda>i. (mu_ex 100)\<lparr>conn := Some 0, lastEmptyTime := Some 0\<rparr>),
     up_conns = conns (world_ex []), p_ccs = ccs (world_ex []), listening = True, activeClients = 2, fresh = 1\<rparr>"

lemma proxy_ex_pools: "pools_ok proxy_ex"
  by (auto simp: pools_ok_def proxy_ex_def mu_ex_def newManagedUpstream_def split: if_splits)

lemma proxy_ex_total: "totalUpstreams proxy_ex = 1"
  by (simp add: totalUpstreams_def proxy_ex_def)

lemma proxy_ex_capacity:
  "withCapacity proxy_ex key = (if key = getPoolKey ''guest'' ''guest'' ''/'' then Some 0 else None)"
  by (simp add: withCapacity_def pool_def proxy_ex_def HasCapacity_def mu_ex_def newManagedUpstream_def)

text \<open>A proxy with an upstream for user \<open>u\<close>, and a client 9 that is about to send its handshake.\<close>

definition proxy_hs :: Proxy where
  "proxy_hs = proxy_ex\<lparr>upstreams := [(getPoolKey ''u'' ''p'' ''/'', [0])],
     ups := (\<lambda>i. (newManagedUpstream ''u'' ''p'' ''/'' 100)\<lparr>conn := Some 0\<rparr>),
     p_ccs := (\<lambda>x. handshake_client\<lparr>Reader :=
       \<lparr>rdata = ProtocolHeader @ rdata (Reader handshake_client), rend = EOF\<rparr>\<rparr>)\<rparr>"

lemma proxy_hs_handshake:
  assumes "p_ccs p x = p_ccs proxy_hs 9"
  shows "\<exists>cc. clientHandshake (p_ccs p x) = (True, cc) \<and> cc_Username cc = ''u'' \<and> cc_Password cc = ''p'' \<and> cc_Vhost cc = ''/''"
proof -
  let ?r = "\<lparr>rdata = rdata (Reader handshake_client), rend = EOF\<rparr>"
  have r: "ReadFull (Reader (p_ccs p x)) 8 = (Inr ProtocolHeader, ?r)"
    by (simp add: assms) (simp add: ReadFull_ok_iff proxy_hs_def ProtocolHeader_def bytes_of_def)
  have "(p_ccs p x)\<lparr>Reader := ?r\<rparr> = handshake_client"
    by (simp add: assms) (simp add: proxy_hs_def handshake_client_def NewClientConnection_def)
  then obtain cc where "Handle ((p_ccs p x)\<lparr>Reader := ?r\<rparr>) = (None, cc)"
    "cc_Username cc = ''u''" "cc_Password cc = ''p''" "cc_Vhost cc = ''/''"
    using Handle_run [OF handshake_client_facts] by fastforce
  with r show ?thesis by (auto simp: clientHandshake_True)
qed

section \<open>Properties\<close>



text \<open>
  The global limit on upstreams. Whatever other goroutines did between the unlocked and the
  locked search, the locked part never exceeds the configured limit, and when all upstreams of the
  credentials are full at the limit it refuses with the limit error and changes nothing.
\<close>

theorem upstream_limit:
  assumes "pools_ok p" "MaxUpstreamConnections (config p) > 0" "getOrCreateLocked env p u pw v = (r, p')"
    and "int (totalUpstreams p) \<le> MaxUpstreamConnections (config p)"
  shows "int (totalUpstreams p') \<le> MaxUpstreamConnections (config p') \<and>
    (withCapacity p (getPoolKey u pw v) = None \<and> int (totalUpstreams p) = MaxUpstreamConnections (config p) \<longrightarrow>
      r = Inl (New ''upstream connection limit reached'') \<and> p' = p)"
proof -
  have "int (totalUpstreams p') \<le> MaxUpstreamConnections (config p')"
    using assms(3)
  proof (cases rule: getOrCreateLocked_cases)
    case (created i c)
    from addUpstream_total [OF assms(1) created(3)] addUpstream_fields(3) [OF created(3)] created(4) assms(2)
    show ?thesis by simp
  qed (use assms in auto)
  moreover have "r = Inl (New ''upstream connection limit reached'') \<and> p' = p"
    if "withCapacity p (getPoolKey u pw v) = None" "int (totalUpstreams p) = MaxUpstreamConnections (config p)"
    using assms(2,3) that by (simp add: getOrCreateLocked_def)
  ultimately show ?thesis by blast
qed

theorem upstream_limit_witness:
  "getOrCreateLocked env_ex proxy_ex ''u'' ''p'' ''/'' = (Inl (New ''upstream connection limit reached''), proxy_ex)"
proof -
  obtain r p' where g: "getOrCreateLocked env_ex proxy_ex ''u'' ''p'' ''/'' = (r, p')" by fastforce
  have "MaxUpstreamConnections (config proxy_ex) = 1" by (simp add: proxy_ex_def cfg_ex_def)
  with upstream_limit [OF proxy_ex_pools _ g] g show ?thesis
    by (simp add: proxy_ex_total proxy_ex_capacity getPoolKey_inj)
qed

text \<open>
  The end of a connection. However a client connection ends, refused or served, its
  network connection is closed and the count of active clients goes down by exactly one.
\<close>

theorem handleConnection_end:
  assumes "handleConnection env p x p'"
  shows "closed (wr (Writer (p_ccs p' x))) \<and> activeClients p' = activeClients p - 1"
  using assms
  by cases (auto simp: finishClient_def set_cc_def put_world_def dest: admitClient_active)

theorem handleConnection_end_witness:
  "\<exists>p'. handleConnection env_ex proxy_ex 9 p' \<and> closed (wr (Writer (p_ccs p' 9))) \<and> activeClients p' = 1"
proof -
  have "Reader (p_ccs proxy_ex 9) = \<lparr>rdata = [], rend = EOF\<rparr>"
    by (simp add: proxy_ex_def world_ex_def NewClientConnection_def)
  then obtain p1 where "admitClient env_ex 0 proxy_ex 9 = (None, p1)"
    by (simp add: admitClient_def clientHandshake_def ReadFull_def)
  then have h: "handleConnection env_ex proxy_ex 9 (finishClient p1 9)" by (rule handleConnection.refused)
  from handleConnection_end [OF h] h show ?thesis by (auto simp: proxy_ex_def)
qed

text \<open>
  The limit on clients. Accepting never lets the count of active clients exceed the
  configured limit: at the limit the connection is closed at once and nothing is launched,
  and after the listener was closed nothing is launched either.
\<close>

theorem accept_limit:
  assumes "MaxClientConnections (config p) > 0" "activeClients p \<le> MaxClientConnections (config p)"
  shows "(\<forall>p'. acceptConn p x cc = Launched p' \<longrightarrow>
      listening p \<and> activeClients p' = activeClients p + 1 \<and> activeClients p' \<le> MaxClientConnections (config p') \<and>
      p_ccs p' x = cc) \<and>
    (activeClients p = MaxClientConnections (config p) \<and> listening p \<longrightarrow>
      (\<exists>p'. acceptConn p x cc = Refused p' \<and> closed (wr (Writer (p_ccs p' x))) \<and> activeClients p' = activeClients p))"
  using assms by (auto simp: acceptConn_def set_cc_def)

theorem accept_limit_witness:
  "\<exists>p'. acceptConn proxy_ex 9 (ccs (world_ex []) 9) = Refused p' \<and> activeClients p' = 2"
proof -
  have "MaxClientConnections (config proxy_ex) = 2" "activeClients proxy_ex = 2" "listening proxy_ex"
    by (simp_all add: proxy_ex_def cfg_ex_def)
  with accept_limit [of proxy_ex 9 "ccs (world_ex []) 9"] show ?thesis by auto
qed

text \<open>
  (C27) The idle sweep removes exactly the idle upstreams: those without clients and without
  channels in use for at least the timeout. Each of them is stopped, its pump told to stop and its
  connection closed; all others are kept in their order and unchanged, and no client is touched.
\<close>

theorem removeIdle_exact:
  assumes "distinct (concat (map snd (upstreams p)))"
  shows "let p' = removeIdleUpstreams timeout now p in
    concat (map snd (upstreams p')) =
      filter (\<lambda>i. \<not> idle timeout now (ups p i)) (concat (map snd (upstreams p))) \<and>
    (\<forall>i \<in> set (concat (map snd (upstreams p))).
       if idle timeout now (ups p i)
       then stopped (ups p' i) \<and> writeDone (ups p' i) \<in> doneClosed (ups p' i) \<and> conn (ups p' i) = None \<and>
         (\<forall>a. conn (ups p i) = Some a \<longrightarrow> closed (wr (uc_Writer (up_conns p' a))))
       else ups p' i = ups p i) \<and>
    p_ccs p' = p_ccs p"
proof -
  obtain rest p1 where s: "sweepAll timeout now p (upstreams p) = (rest, p1)" by fastforce
  define ids where "ids = concat (map snd (upstreams p))"
  from sweepPool_effect [OF assms sweepAll_concat [OF s]] show ?thesis
    unfolding ids_def [symmetric] removeIdleUpstreams_def Let_def s by simp
qed

theorem removeIdle_exact_witness:
  "upstreams (removeIdleUpstreams 5 7 proxy_ex) = [] \<and> stopped (ups (removeIdleUpstreams 5 7 proxy_ex) 0)"
proof -
  have i: "idle 5 7 (ups proxy_ex 0)" by (simp add: idle_def proxy_ex_def mu_ex_def newManagedUpstream_def)
  have u: "concat (map snd (upstreams proxy_ex)) = [0]" by (simp add: proxy_ex_def)
  let ?p = "removeIdleUpstreams 5 7 proxy_ex"
  have "concat (map snd (upstreams ?p)) = [] \<and> stopped (ups ?p 0)"
    using removeIdle_exact [of proxy_ex 5 7] i u by (simp add: Let_def)
  moreover have "ids \<noteq> []" if "(key, ids) \<in> set (upstreams ?p)" for key ids
    using that sweepAll_nonempty [of 5 7 proxy_ex "upstreams proxy_ex" _ _ key ids]
    by (auto simp: removeIdleUpstreams_def split: prod.splits)
  ultimately have "\<not> (key, ids) \<in> set (upstreams ?p)" for key ids by force
  then have "upstreams ?p = []" by (metis list.set_intros(1) neq_Nil_conv surj_pair)
  with \<open>concat (map snd (upstreams ?p)) = [] \<and> stopped (ups ?p 0)\<close> show ?thesis by simp
qed

text \<open>
  (C28) Shutdown. \<open>Stop\<close> stops every upstream of every pool: the flag is set, the pump told to
  stop, the connection to the broker closed and every registered client disconnected;
  afterwards the pool is empty and nothing new is accepted.
\<close>

theorem Stop_complete:
  "(\<forall>i \<in> set (concat (map snd (upstreams p))).
      stopped (ups (Stop p) i) \<and> writeDone (ups (Stop p) i) \<in> doneClosed (ups (Stop p) i) \<and>
      (\<forall>a. conn (ups (Stop p) i) = Some a \<longrightarrow> closed (wr (uc_Writer (up_conns (Stop p) a)))) \<and>
      (\<forall>x \<in> set (clients (ups (Stop p) i)). closed (wr (Writer (p_ccs (Stop p) x))))) \<and>
   upstreams (Stop p) = [] \<and> (\<forall>x cc. \<exists>p'. acceptConn (Stop p) x cc = Closing_down p')"
proof -
  have "down (Stop p) i" if "i \<in> set (concat (map snd (upstreams p)))" for i
    using stop_all [of i "concat (map snd (upstreams p))" "p\<lparr>listening := False\<rparr>"] that
    by (simp add: Stop_def Let_def down_def)
  moreover have "\<not> listening (foldl stopUpstream q is)" if "\<not> listening q" for q "is"
    using that by (induction "is" arbitrary: q) simp_all
  ultimately show ?thesis by (auto simp: down_def acceptConn_def) (simp_all add: Stop_def Let_def)
qed

theorem Stop_complete_witness:
  "stopped (ups (Stop proxy_ex) 0) \<and> upstreams (Stop proxy_ex) = []"
proof -
  have "0 \<in> set (concat (map snd (upstreams proxy_ex)))" by (simp add: proxy_ex_def)
  with Stop_complete [of proxy_ex] show ?thesis by blast
qed

end
