(* ===== verification/Loop_Bounds.thy ===== *)
theory Loop_Bounds
  imports Amqp_Proxy
begin

text \<open>
  The two loops that read frames, \<open>readLoop\<close> (\<open>proxy/managed_upstream.go\<close>) and the loop of
  \<open>handleConnection\<close> (\<open>proxy/proxy.go\<close>), end. Both are \<open>for\<close> loops without a condition; what ends them
  is that every turn takes at least a frame's eight bytes of overhead from the connection. The locale
  \<open>frame_loop\<close> has the argument once, and both loops are instances. The second
  half of the theory is the typing of the shared state: whatever is queued can be encoded, no queue and no buffer
  outgrows its capacity, and every goroutine keeps it so.
\<close>

section \<open>Loops that consume frames\<close>

text \<open>
  \<open>again w w1\<close>: a turn goes on with \<open>w1\<close>; \<open>leave w w1\<close>: a turn ends the loop. \<open>ready w n\<close>: the
  loop cannot get stuck on the next \<open>n\<close> bytes.
\<close>

locale frame_loop =
  fixes again :: "'w \<Rightarrow> 'w \<Rightarrow> bool"
    and leave :: "'w \<Rightarrow> 'w \<Rightarrow> bool"
    and input :: "'w \<Rightarrow> nat"
    and ready :: "'w \<Rightarrow> nat \<Rightarrow> bool"
  assumes consumes: "again w w1 \<Longrightarrow> input w1 + 8 \<le> input w"
    and progress: "ready w (input w) \<Longrightarrow>
      (\<exists>w1. again w w1 \<and> ready w1 (input w1)) \<or> (\<exists>w1. leave w w1)"
begin

lemma turns_bound: "(again ^^ n) w w' \<Longrightarrow> input w' + 8 * n \<le> input w"
proof (induction n arbitrary: w')
  case (Suc n)
  then obtain w1 where "(again ^^ n) w w1" "again w1 w'" by auto
  with Suc.IH [of w1] consumes [of w1 w'] show ?case by simp
qed simp

lemma wf_again: "wfP (\<lambda>w1 w. again w w1)"
  by (rule wfp_if_convertible_to_nat [of _ input]) (use consumes in fastforce)

lemma returns:
  assumes "ready w (input w)"
  shows "\<exists>w1 w2. again\<^sup>*\<^sup>* w w1 \<and> leave w1 w2"
  using assms
proof (induction "input w" arbitrary: w rule: less_induct)
  case less
  from progress [OF less.prems] show ?case
  proof
    assume "\<exists>w1. again w w1 \<and> ready w1 (input w1)"
    then obtain w1 where w1: "again w w1" "ready w1 (input w1)" by blast
    from consumes [OF w1(1)] have "input w1 < input w" by simp
    from less.hyps [OF this w1(2)] w1(1) show ?case by (meson converse_rtranclp_into_rtranclp)
  next
    assume "\<exists>w1. leave w w1"
    then show ?case by blast
  qed
qed

end

section \<open>The two loops\<close>

definition read_input :: "world \<Rightarrow> nat" where
  "read_input w = (case conn (mu w) of None \<Rightarrow> 0 | Some a \<Rightarrow> length (rdata (uc_Reader (conns w a))))"

definition client_input :: "nat \<Rightarrow> world \<Rightarrow> nat" where
  "client_input x w = length (rdata (Reader (ccs w x)))"

text \<open>
  Queueing a frame does not block: the upstream drops frames, its pump has been told to stop, or
  the queue has room for a frame per eight bytes; and the search for a free channel number returns.
\<close>

definition unblocked :: "world \<Rightarrow> nat \<Rightarrow> bool" where
  "unblocked w n \<longleftrightarrow> maxChannels (mu w) \<noteq> - 1 \<and>
     (stopped (mu w) \<or> reconnecting (mu w) \<or> writeDone (mu w) \<in> doneClosed (mu w) \<or>
      length (writeCh (mu w)) + n div 8 \<le> writeCh_cap)"

lemma parsed_input:
  assumes "ParseFrame r = (Inr f, r')"
  shows "length (rdata r') + 8 \<le> length (rdata r)" "frame_ok f"
  using ParseFrame_Inr [OF assms] by (simp_all add: length_frame_bytes)

text \<open>Queueing leaves the fields that \<open>unblocked\<close> reads, and takes at most one place.\<close>

lemma queue_unblocked:
  assumes "unblocked w n" "8 \<le> n" "k + 8 \<le> n"
  shows "\<exists>m \<in> set (writeFrameToUpstream (mu w) f). \<forall>w'. mu w' = m \<longrightarrow> unblocked w' k"
proof -
  have "k div 8 + 1 \<le> n div 8" using assms(3) by (metis div_le_mono div_add_self2 zero_neq_numeral)
  with assms show ?thesis
    by (cases "length (writeCh (mu w)) < writeCh_cap") (auto simp: unblocked_def writeFrameToUpstream_def)
qed

lemma unblocked_less: "unblocked w n \<Longrightarrow> k \<le> n \<Longrightarrow> unblocked w k"
  using div_le_mono [of k n 8] by (auto simp: unblocked_def)

lemma unblocked_mu: "unblocked w n \<Longrightarrow> maxChannels (mu w') = maxChannels (mu w) \<Longrightarrow> stopped (mu w') = stopped (mu w) \<Longrightarrow>
    reconnecting (mu w') = reconnecting (mu w) \<Longrightarrow> writeDone (mu w') = writeDone (mu w) \<Longrightarrow>
    doneClosed (mu w') = doneClosed (mu w) \<Longrightarrow> writeCh (mu w') = writeCh (mu w) \<Longrightarrow> unblocked w' n"
  by (simp add: unblocked_def)

text \<open>The dispatch of a frame leaves the connections alone, and can be chosen not to block.\<close>

lemma dispatch_mu:
  assumes "w' \<in> set (readLoop_dispatch w f)"
  shows "conns w' = conns w" "mu w' = mu w \<or> mu w' \<in> set (writeFrameToUpstream (mu w) heartbeat) \<or>
    mu w' = snd (closeOkReceived (mu w) (Channel f))"
  using assms
  by (cases "closeOkReceived (mu w) (Channel f)";
      auto simp: readLoop_dispatch_def Let_def split: if_splits option.splits)+

lemma dispatch_conn: "w' \<in> set (readLoop_dispatch w f) \<Longrightarrow> conn (mu w') = conn (mu w)"
  using dispatch_mu(2) [of w' w f] by (auto dest: writeFrameToUpstream_cases)

lemma dispatch_unblocked:
  assumes "unblocked w n" "8 \<le> n" "k + 8 \<le> n"
  shows "\<exists>w' \<in> set (readLoop_dispatch w f). unblocked w' k"
proof (cases "Type f = FrameTypeHeartbeat")
  case True
  from queue_unblocked [OF assms, of heartbeat] obtain m where
    "m \<in> set (writeFrameToUpstream (mu w) heartbeat)" "unblocked (w\<lparr>mu := m\<rparr>) k" by force
  with True show ?thesis by (force simp: readLoop_dispatch_def)
next
  case False
  then obtain w' where w': "w' \<in> set (readLoop_dispatch w f)" using dispatch_single [of f w] by auto
  have "mu w' = mu w \<or> mu w' = snd (closeOkReceived (mu w) (Channel f))"
    using w' False by (cases "closeOkReceived (mu w) (Channel f)")
      (auto simp: readLoop_dispatch_def Let_def split: if_splits option.splits)
  then have "unblocked w' n" using assms(1) by (auto intro: unblocked_mu)
  with w' unblocked_less [of w' n k] assms(3) show ?thesis by auto
qed

section \<open>readLoop\<close>

lemma read_turn_parsed:
  assumes "conn (mu w) = Some a" "ParseFrame (uc_Reader (conns w a)) = (Inr f, r)"
  shows "readLoop_turn w = map Again (readLoop_dispatch (w\<lparr>conns := (conns w)(a := (conns w a)\<lparr>uc_Reader := r\<rparr>)\<rparr>) f)"
  by (simp add: readLoop_turn_def assms)

interpretation read_loop: frame_loop "\<lambda>w w1. Again w1 \<in> set (readLoop_turn w)"
  "\<lambda>w w1. \<exists>b. Return w1 b \<in> set (readLoop_turn w)" read_input unblocked
proof
  fix w w1
  assume t: "Again w1 \<in> set (readLoop_turn w)"
  then obtain a f r where a: "conn (mu w) = Some a" "ParseFrame (uc_Reader (conns w a)) = (Inr f, r)"
    by (cases "conn (mu w)"; cases "ParseFrame (uc_Reader (conns w (the (conn (mu w)))))")
       (auto simp: readLoop_turn_def Let_def split: sum.splits if_splits prod.splits)
  let ?w = "w\<lparr>conns := (conns w)(a := (conns w a)\<lparr>uc_Reader := r\<rparr>)\<rparr>"
  have "w1 \<in> set (readLoop_dispatch ?w f)" using t by (auto simp: read_turn_parsed [OF a])
  from dispatch_mu(1) [OF this] dispatch_conn [OF this] parsed_input(1) [OF a(2)] a(1)
  show "read_input w1 + 8 \<le> read_input w" by (simp add: read_input_def)
next
  fix w
  assume u: "unblocked w (read_input w)"
  show "(\<exists>w1. Again w1 \<in> set (readLoop_turn w) \<and> unblocked w1 (read_input w1)) \<or>
      (\<exists>w1 b. Return w1 b \<in> set (readLoop_turn w))"
  proof (cases "conn (mu w)")
    case None
    then show ?thesis by (auto simp: readLoop_turn_def)
  next
    case (Some a)
    obtain e r where p: "ParseFrame (uc_Reader (conns w a)) = (e, r)" by fastforce
    show ?thesis
    proof (cases e)
      case (Inl err)
      with Some p show ?thesis by (auto simp: readLoop_turn_def Let_def split: prod.splits) (metis surj_pair)
    next
      case (Inr f)
      let ?w = "w\<lparr>conns := (conns w)(a := (conns w a)\<lparr>uc_Reader := r\<rparr>)\<rparr>"
      have n: "length (rdata r) + 8 \<le> read_input w" using parsed_input(1) p Some Inr by (simp add: read_input_def)
      have "unblocked ?w (read_input w)" using u by (simp add: unblocked_def)
      from dispatch_unblocked [OF this _ n, of f] n obtain w1 where
        w1: "w1 \<in> set (readLoop_dispatch ?w f)" "unblocked w1 (length (rdata r))" by auto
      then have "read_input w1 = length (rdata r)"
        using dispatch_mu(1) [OF w1(1)] dispatch_conn [OF w1(1)] Some by (simp add: read_input_def)
      with w1 read_turn_parsed [OF Some p [unfolded Inr]] show ?thesis by auto
    qed
  qed
qed

section \<open>The loop of handleConnection\<close>

lemma scan_up_total:
  assumes "mx \<noteq> - 1"
  shows "\<exists>r. scan_up free s mx = Some r"
proof (cases "\<exists>i. s \<le> i \<and> i \<le> mx \<and> free i")
  case True
  then obtain i where "free i" "s \<le> i" "i \<le> mx" by blast
  with scan_up_found [of free i mx s] show ?thesis by auto
next
  case False
  with scan_up_none [of mx s free] assms show ?thesis by auto
qed

lemma AllocateChannel_total:
  assumes "maxChannels m \<noteq> - 1"
  shows "\<exists>r m'. AllocateChannel m c x = Some (r, m')"
  using scan_up_total [OF assms, of "free_chan m" "hint_of m"]
  by (auto simp: AllocateChannel_def allocateLocked_scan split: option.splits)

lemma openChannel_fields:
  assumes "openChannel w x f = Some (e, w')"
  shows "maxChannels (mu w') = maxChannels (mu w)" "stopped (mu w') = stopped (mu w)"
    "reconnecting (mu w') = reconnecting (mu w)" "writeDone (mu w') = writeDone (mu w)"
    "doneClosed (mu w') = doneClosed (mu w)" "writeCh (mu w') = writeCh (mu w)" "conns w' = conns w"
    "Reader (ccs w' y) = Reader (ccs w y)" "Writer (ccs w' y) = Writer (ccs w y)"
proof -
  obtain r m where a: "AllocateChannel (mu w) (Channel f) x = Some (r, m)" and w': "mu w' = m"
    using assms by (auto simp: openChannel_def split: option.splits sum.splits)
  have "m = mu w \<or> allocateLocked (mu w) (Channel f) x = Some (r, m)"
    using a by (auto simp: AllocateChannel_def split: if_splits)
  with allocateLocked_frame [of "mu w" "Channel f" x r m] w' show "maxChannels (mu w') = maxChannels (mu w)"
    "stopped (mu w') = stopped (mu w)" "reconnecting (mu w') = reconnecting (mu w)" "writeDone (mu w') = writeDone (mu w)"
    "doneClosed (mu w') = doneClosed (mu w)" "writeCh (mu w') = writeCh (mu w)" by auto
  show "conns w' = conns w" "Reader (ccs w' y) = Reader (ccs w y)" "Writer (ccs w' y) = Writer (ccs w y)"
    using assms by (auto simp: openChannel_def MapChannel_def Let_def split: option.splits sum.splits)
qed

lemma forwardFrame_fields:
  assumes "w' \<in> set (forwardFrame w x f)"
  shows "mu w' \<in> set (writeFrameToUpstream (mu w) (remap (ccs w x) f))" "conns w' = conns w"
    "Reader (ccs w' y) = Reader (ccs w y)" "Writer (ccs w' y) = Writer (ccs w y)"
  using assms
  by (auto simp: forwardFrame_def Let_def dropClientChannel_def markChannelSafety_def RecordChannelOperation_def
      split: option.splits if_splits)

lemma forwardFrame_unblocked:
  assumes "unblocked w n" "8 \<le> n" "k + 8 \<le> n"
  shows "\<exists>w' \<in> set (forwardFrame w x f). unblocked w' k"
proof -
  from queue_unblocked [OF assms, of "remap (ccs w x) f"] obtain m where
    m: "m \<in> set (writeFrameToUpstream (mu w) (remap (ccs w x) f))" "\<And>w'. mu w' = m \<Longrightarrow> unblocked w' k" by blast
  then obtain w' where "w' \<in> set (forwardFrame w x f)" "mu w' = m" by (force simp: forwardFrame_def Let_def)
  with m(2) show ?thesis by blast
qed

lemma handleFrame_unblocked:
  assumes "unblocked w n" "8 \<le> n" "k + 8 \<le> n"
  shows "(\<exists>w'. Next w' \<in> set (handleFrame w x f) \<and> unblocked w' k) \<or> (\<exists>w'. Leave w' \<in> set (handleFrame w x f))"
proof -
  obtain r m where "AllocateChannel (mu w) (Channel f) x = Some (r, m)"
    using AllocateChannel_total [of "mu w" "Channel f" x] assms(1) by (auto simp: unblocked_def)
  then obtain e w1 where o: "openChannel w x f = Some (e, w1)" by (cases r) (auto simp: openChannel_def)
  have "unblocked w1 n" using assms(1) openChannel_fields(1-6) [OF o] by (simp add: unblocked_def)
  from forwardFrame_unblocked [OF this assms(2,3), of x f] forwardFrame_unblocked [OF assms, of x f]
    unblocked_less [OF assms(1), of k] assms(3) o show ?thesis
    by (cases e) (auto simp: handleFrame_def)
qed

lemma handleFrame_input: "Next w' \<in> set (handleFrame w x f) \<Longrightarrow> Reader (ccs w' x) = Reader (ccs w x)"
  by (erule handleFrame_cases) (simp_all add: openChannel_fields forwardFrame_fields)

interpretation client_loop: frame_loop "\<lambda>w w1. Next w1 \<in> set (clientLoop_turn w x)"
  "\<lambda>w w1. Leave w1 \<in> set (clientLoop_turn w x)" "client_input x" unblocked for x
proof
  fix w w1
  assume t: "Next w1 \<in> set (clientLoop_turn w x)"
  obtain e r where p: "ParseFrame (Reader (ccs w x)) = (e, r)" by fastforce
  with t obtain f where f: "e = Inr f" "Next w1 \<in> set (handleFrame (w\<lparr>ccs := (ccs w)(x := (ccs w x)\<lparr>Reader := r\<rparr>)\<rparr>) x f)"
    by (cases e) (auto simp: clientLoop_turn_def)
  from handleFrame_input [OF f(2)] parsed_input(1) [OF p [unfolded f(1)]]
  show "client_input x w1 + 8 \<le> client_input x w" by (simp add: client_input_def)
next
  fix w
  assume u: "unblocked w (client_input x w)"
  obtain e r where p: "ParseFrame (Reader (ccs w x)) = (e, r)" by fastforce
  let ?w = "w\<lparr>ccs := (ccs w)(x := (ccs w x)\<lparr>Reader := r\<rparr>)\<rparr>"
  show "(\<exists>w1. Next w1 \<in> set (clientLoop_turn w x) \<and> unblocked w1 (client_input x w1)) \<or>
      (\<exists>w1. Leave w1 \<in> set (clientLoop_turn w x))"
  proof (cases e)
    case (Inl err)
    with p show ?thesis by (simp add: clientLoop_turn_def)
  next
    case (Inr f)
    have n: "length (rdata r) + 8 \<le> client_input x w" using parsed_input(1) p Inr by (simp add: client_input_def)
    have "unblocked ?w (client_input x w)" using u by (simp add: unblocked_def)
    from handleFrame_unblocked [OF this _ n, of x f] n handleFrame_input [of _ ?w x f] p Inr show ?thesis
      by (fastforce simp: clientLoop_turn_def client_input_def)
  qed
qed

lemma readLoop_rtranclp:
  "(\<lambda>w w1. Again w1 \<in> set (readLoop_turn w))\<^sup>*\<^sup>* w w1 \<Longrightarrow> Return w2 b \<in> set (readLoop_turn w1) \<Longrightarrow> readLoop w w2 b"
  by (induction rule: converse_rtranclp_induct) (auto intro: readLoop.intros)

lemma clientLoop_rtranclp:
  "(\<lambda>w w1. Next w1 \<in> set (clientLoop_turn w x))\<^sup>*\<^sup>* w w1 \<Longrightarrow> Leave w2 \<in> set (clientLoop_turn w1 x) \<Longrightarrow> clientLoop x w w2"
  by (induction rule: converse_rtranclp_induct) (auto intro: clientLoop.intros)

section \<open>The typing of the shared state\<close>

text \<open>
  Every queued frame has a payload that can be encoded, the queue respects the capacity of its Go channel, and
  no buffered writer holds more than its buffer.
\<close>

definition fits :: "bufio_writer \<Rightarrow> bool" where
  "fits b \<longleftrightarrow> length (buf b) \<le> buf_size"

definition typed :: "world \<Rightarrow> bool" where
  "typed w \<longleftrightarrow> list_all frame_ok (writeCh (mu w)) \<and> length (writeCh (mu w)) \<le> writeCh_cap \<and>
     (\<forall>a. fits (uc_Writer (conns w a))) \<and> (\<forall>x. fits (Writer (ccs w x)))"

lemma fits_Flush: "fits b \<Longrightarrow> fits (snd (Flush b))"
  by (auto simp: fits_def Flush_def split: option.splits prod.splits)

lemma fits_Write: "fits b \<Longrightarrow> fits (snd (bufio_Write b p))"
  using Write_loop_fits [of b p]
  by (cases "Write_loop b p") (auto simp: fits_def bufio_Write_def split: option.splits)

lemma fits_Writes: "fits b \<Longrightarrow> fits (snd (Writes bufio_Write b ps))"
proof (induction ps arbitrary: b)
  case (Cons p ps)
  obtain e b' where w: "bufio_Write b p = (e, b')" by fastforce
  with fits_Write [OF Cons.prems, of p] have "fits b'" by simp
  with Cons.IH w show ?case by (cases e) simp_all
qed simp

lemma fits_WriteFrame: "fits b \<Longrightarrow> fits (snd (WriteFrame bufio_Write b f))"
  by (cases "frame_ok f") (simp_all add: WriteFrame_Writes fits_Writes buffered.WriteFrame_too_large)

lemma fits_DeliverFrame: "fits (Writer cc) \<Longrightarrow> fits (Writer (snd (DeliverFrame cc f)))"
proof -
  assume a: "fits (Writer cc)"
  obtain e b where w: "WriteFrame bufio_Write (Writer cc) f = (e, b)" by fastforce
  with fits_WriteFrame [OF a, of f] have "fits b" by simp
  with fits_Flush [of b] w show ?thesis by (cases e; cases "Flush b") (simp_all add: DeliverFrame_def)
qed

lemma fits_close [simp]: "fits (b\<lparr>wr := c\<rparr>) = fits b"
  by (simp add: fits_def)

lemma fits_Abort [simp]: "fits (Writer (Abort cc)) = fits (Writer cc)"
  by (simp add: Abort_def)

lemma fits_closeUpstream: "(\<And>a. fits (uc_Writer (h a))) \<Longrightarrow> fits (uc_Writer (closeUpstream h c a))"
  by (simp add: closeUpstream_def split: option.splits)

text \<open>Queueing.\<close>

definition queue_typed :: "ManagedUpstream \<Rightarrow> bool" where
  "queue_typed m \<longleftrightarrow> list_all frame_ok (writeCh m) \<and> length (writeCh m) \<le> writeCh_cap"

lemma typed_iff:
  "typed w \<longleftrightarrow> queue_typed (mu w) \<and> (\<forall>a. fits (uc_Writer (conns w a))) \<and> (\<forall>x. fits (Writer (ccs w x)))"
  by (simp add: typed_def queue_typed_def)

lemma queue_typed_write: "queue_typed m \<Longrightarrow> frame_ok f \<Longrightarrow> m' \<in> set (writeFrameToUpstream m f) \<Longrightarrow> queue_typed m'"
  by (auto simp: queue_typed_def writeFrameToUpstream_def split: if_splits)

lemma queue_typed_cong: "writeCh m' = writeCh m \<Longrightarrow> queue_typed m' = queue_typed m"
  by (simp add: queue_typed_def)

lemma frame_ok_fixed [simp]: "frame_ok heartbeat" "frame_ok (closeFrame u)" "frame_ok (remap cc f) = frame_ok f"
  by (simp_all add: heartbeat_def closeFrame_def frame_ok_def MaxFrameSize_def remap_def split: option.splits)

lemma typed_dispatch:
  assumes "typed w" "w' \<in> set (readLoop_dispatch w f)"
  shows "typed w'"
proof -
  have "queue_typed (mu w')"
    using dispatch_mu(2) [OF assms(2)] assms(1) queue_typed_write [of "mu w" heartbeat]
    by (auto simp: typed_iff queue_typed_cong [of "snd (closeOkReceived (mu w) (Channel f))" "mu w"])
  moreover have "fits (Writer (foldl (deliverAbort f) cs xs x))" if "\<And>x. fits (Writer (cs x))" for cs xs x
    using that
  proof (induction xs arbitrary: cs)
    case (Cons y ys)
    then show ?case by (simp add: deliverAbort_apply fits_DeliverFrame)
  qed simp
  then have "fits (Writer (ccs w' x))" for x
    using assms by (cases "closeOkReceived (mu w) (Channel f)")
      (auto simp: typed_iff readLoop_dispatch_def Let_def deliver_def fits_DeliverFrame split: if_splits option.splits)
  ultimately show ?thesis using assms(1) dispatch_mu(1) [OF assms(2)] by (simp add: typed_iff)
qed

lemma typed_failure: "typed w \<Longrightarrow> typed (snd (handleUpstreamFailure w))"
  by (auto simp: typed_def handleUpstreamFailure_def AbortAllClients_apply fits_closeUpstream)

lemma typed_read_turn:
  assumes "typed w" "t \<in> set (readLoop_turn w)"
  shows "typed (turn_world t)"
proof (cases "conn (mu w)")
  case None
  with assms show ?thesis by (auto simp: readLoop_turn_def)
next
  case (Some a)
  obtain e r where p: "ParseFrame (uc_Reader (conns w a)) = (e, r)" by fastforce
  let ?w = "w\<lparr>conns := (conns w)(a := (conns w a)\<lparr>uc_Reader := r\<rparr>)\<rparr>"
  have w: "typed ?w" using assms(1) by (simp add: typed_def)
  show ?thesis
  proof (cases e)
    case (Inl err)
    with Some p assms(2) w typed_failure [OF w] show ?thesis
      by (cases "handleUpstreamFailure ?w") (auto simp: readLoop_turn_def Let_def split: if_splits)
  next
    case (Inr f)
    with assms(2) read_turn_parsed [OF Some p [unfolded Inr]] typed_dispatch [OF w] show ?thesis by auto
  qed
qed

lemma typed_deliver: "typed w \<Longrightarrow> typed (w\<lparr>ccs := deliver (ccs w) x f\<rparr>)"
  by (simp add: typed_def deliver_def fits_DeliverFrame)

lemma typed_client_turn:
  assumes "typed w" "t \<in> set (clientLoop_turn w x)"
  shows "typed (client_world t)"
proof -
  obtain e r where p: "ParseFrame (Reader (ccs w x)) = (e, r)" by fastforce
  let ?w = "w\<lparr>ccs := (ccs w)(x := (ccs w x)\<lparr>Reader := r\<rparr>)\<rparr>"
  have w: "typed ?w" using assms(1) by (simp add: typed_def)
  show ?thesis
  proof (cases e)
    case (Inl err)
    with p assms(2) w show ?thesis by (auto simp: clientLoop_turn_def)
  next
    case (Inr f)
    have fw: "typed w2" if "typed w1" "w2 \<in> set (forwardFrame w1 x f)" for w1 w2
      using that forwardFrame_fields [OF that(2)] queue_typed_write [of "mu w1" "remap (ccs w1 x) f"]
        parsed_input(2) [OF p [unfolded Inr]] by (simp add: typed_iff)
    have op: "typed w1" if "openChannel ?w x f = Some (err, w1)" for err w1
      using w openChannel_fields [OF that] by (simp add: typed_def)
    from p Inr assms(2) have "t \<in> set (handleFrame ?w x f)" by (simp add: clientLoop_turn_def)
    then show ?thesis
    proof (cases rule: handleFrame_cases)
      case close
      with typed_deliver [OF w] show ?thesis by simp
    next
      case (opened w1 w2)
      with fw [OF op [OF opened(4)] opened(5)] show ?thesis by simp
    next
      case (other w2)
      with fw [OF w other(4)] show ?thesis by simp
    next
      case (full e w1)
      with op [OF full(3)] show ?thesis by simp
    qed (use w in simp)
  qed
qed

lemma typed_release:
  "typed w \<Longrightarrow> w' \<in> set (releaseClientChannels w x es) \<Longrightarrow> typed w'"
proof (induction es arbitrary: w)
  case (Cons e es)
  obtain c u where e: "e = (c, u)" by (cases e)
  obtain b m where m: "ScheduleChannelCloseIfOwnedBy (mu w) u x = (b, m)" by fastforce
  have "writeCh m = writeCh (mu w)"
    using m by (auto simp: ScheduleChannelCloseIfOwnedBy_def split: option.splits if_splits)
  then have q: "queue_typed m" using Cons.prems(1) by (simp add: typed_iff queue_typed_def)
  from Cons.prems(2) e obtain w1 where w1: "w1 \<in> set (releaseOne w x (c, u))" "w' \<in> set (releaseClientChannels w1 x es)"
    by auto
  then obtain m' where "mu w1 = m'" "m' = m \<or> m' \<in> set (writeFrameToUpstream m (closeFrame u))"
    "conns w1 = conns w" "ccs w1 = (ccs w)(x := UnmapChannel (ccs w x) c)"
    using m by (auto simp: releaseOne_def split: if_splits)
  moreover have "Writer (UnmapChannel (ccs w x) c) = Writer (ccs w x)"
    by (simp add: UnmapChannel_def split: option.splits)
  ultimately have "typed w1"
    using Cons.prems(1) q queue_typed_write [OF q frame_ok_fixed(2)] by (auto simp: typed_iff)
  with Cons.IH w1(2) show ?case by blast
qed simp

lemma drain_typed:
  "pump_drain b q = (r, b', q') \<Longrightarrow> fits b \<Longrightarrow> list_all frame_ok q \<Longrightarrow>
     fits b' \<and> list_all frame_ok q' \<and> length q' \<le> length q"
proof (induction q arbitrary: b)
  case (Cons f q)
  obtain e b1 where w: "WriteFrame bufio_Write b f = (e, b1)" by fastforce
  with fits_WriteFrame [OF Cons.prems(2), of f] have "fits b1" by simp
  with Cons w show ?case by (cases e) (auto simp: le_SucI)
qed simp

lemma typed_set_pump:
  "typed w \<Longrightarrow> fits b \<Longrightarrow> list_all frame_ok q \<Longrightarrow> length q \<le> writeCh_cap \<Longrightarrow> typed (set_pump w a b q)"
  by (simp add: typed_def set_pump_def)

lemma typed_pump_failed: "typed w \<Longrightarrow> typed (turn_world (pump_failed w))"
  using typed_failure [of w] by (cases "handleUpstreamFailure w") (simp add: pump_failed_def)

lemma typed_pump_turn:
  assumes "typed w" "t \<in> set (writePump_turn a d w)"
  shows "typed (turn_world t)"
proof (cases "t = Return w False")
  case False
  with assms(2) obtain f q where q: "writeCh (mu w) = f # q"
    by (cases "writeCh (mu w)") (auto simp: writePump_turn_def split: if_splits)
  obtain e b where w: "WriteFrame bufio_Write (uc_Writer (conns w a)) f = (e, b)" by fastforce
  obtain e1 b1 q1 where p: "pump_drain b q = (e1, b1, q1)" using prod_cases3 by blast
  obtain e2 b2 where fl: "Flush b1 = (e2, b2)" by fastforce
  have ok: "list_all frame_ok q" "Suc (length q) \<le> writeCh_cap" "fits (uc_Writer (conns w a))"
    using assms(1) q by (auto simp: typed_def)
  have b: "fits b" using fits_WriteFrame [OF ok(3), of f] w by simp
  note d = drain_typed [OF p b ok(1)]
  have b2: "fits b2" using fits_Flush [of b1] d fl by simp
  have "typed (set_pump w a b q)" "typed (set_pump w a b1 q1)" "typed (set_pump w a b2 q1)"
    using b b2 d ok by (auto intro!: typed_set_pump [OF assms(1)])
  with False assms(2) q w p fl typed_pump_failed show ?thesis
    by (cases e; cases e1; cases e2) (auto simp: writePump_turn_def split: if_splits)
qed (use assms in simp)

lemma typed_install: "typed w \<Longrightarrow> installConn w a d now = Reconnected w' p \<Longrightarrow> typed w'"
  by (auto simp: installConn_def Let_def typed_def resetState_def split: if_splits)

section \<open>Properties\<close>

text \<open>
  (C13) Termination. The read loop and the client loop run at most one turn per eight bytes of input, so
  neither goes on for ever on the bytes of a connection that has ended; and as long as queueing
  does not block (with the queue's room, or frames being dropped) and the limit is below 65535,
  each runs to its end from any state.
\<close>

theorem loops_terminate:
  assumes "unblocked w (read_input w)" "unblocked w (client_input x w)"
  shows "(\<forall>n w1. ((\<lambda>w w1. Again w1 \<in> set (readLoop_turn w)) ^^ n) w w1 \<longrightarrow> 8 * n \<le> read_input w) \<and>
    (\<forall>n w1. ((\<lambda>w w1. Next w1 \<in> set (clientLoop_turn w x)) ^^ n) w w1 \<longrightarrow> 8 * n \<le> client_input x w) \<and>
    (\<exists>w1 b. readLoop w w1 b) \<and> (\<exists>w1. clientLoop x w w1)"
proof (intro conjI)
  show "\<forall>n w1. ((\<lambda>w w1. Again w1 \<in> set (readLoop_turn w)) ^^ n) w w1 \<longrightarrow> 8 * n \<le> read_input w"
    using read_loop.turns_bound by fastforce
  show "\<forall>n w1. ((\<lambda>w w1. Next w1 \<in> set (clientLoop_turn w x)) ^^ n) w w1 \<longrightarrow> 8 * n \<le> client_input x w"
    using client_loop.turns_bound by fastforce
  show "\<exists>w1 b. readLoop w w1 b" using read_loop.returns [OF assms(1)] readLoop_rtranclp by blast
  show "\<exists>w1. clientLoop x w w1" using client_loop.returns [OF assms(2)] clientLoop_rtranclp by blast
qed

theorem loops_terminate_witness:
  "(\<exists>w1 b. readLoop (world_ex (frame_bytes heartbeat)) w1 b) \<and> (\<exists>w1. clientLoop 7 (world_ex (frame_bytes heartbeat)) w1)"
proof -
  have "read_input (world_ex (frame_bytes heartbeat)) = 8"
    by (simp add: read_input_def length_frame_bytes heartbeat_def)
  moreover have "client_input 7 (world_ex (frame_bytes heartbeat)) = 0"
    by (simp add: client_input_def world_ex_def Let_def MapChannel_def NewClientConnection_def)
  moreover have "unblocked (world_ex inp) n" if "n \<le> 8" for inp n
    using that div_le_mono [OF that, of 8]
    by (simp add: unblocked_def writeCh_cap_def) (simp add: world_ex_def mu_ex_def newManagedUpstream_def)
  ultimately show ?thesis using loops_terminate [of "world_ex (frame_bytes heartbeat)" 7] by simp
qed

text \<open>
  (C19) Typing. In a well-typed world (every queued frame can be encoded, at most 256 of them, no buffer
  over its size) every turn of every goroutine, the cleanup after a client and a reconnect lead to a
  well-typed world. So whatever a peer sends, the pump never meets a frame that it cannot write.
\<close>

theorem typed_preserved:
  assumes "typed w"
  shows "(\<forall>t \<in> set (readLoop_turn w). typed (turn_world t)) \<and>
    (\<forall>t \<in> set (clientLoop_turn w x). typed (client_world t)) \<and>
    (\<forall>t \<in> set (writePump_turn a d w). typed (turn_world t)) \<and>
    (\<forall>w' \<in> set (releaseClientChannels w x es). typed w') \<and>
    (\<forall>w' p. installConn w a d now = Reconnected w' p \<longrightarrow> typed w')"
  using typed_read_turn [OF assms] typed_client_turn [OF assms] typed_pump_turn [OF assms] typed_release [OF assms]
    typed_install [OF assms] by blast

lemma typed_world_ex: "typed (world_ex inp)"
proof -
  have "fits (Writer (ccs (world_ex inp) x))" for x
    by (simp add: fits_def world_ex_def MapChannel_def NewClientConnection_def NewWriter_def Let_def)
  then show ?thesis
    by (simp add: typed_def) (simp add: fits_def world_ex_def NewWriter_def)
qed

theorem typed_preserved_witness:
  "\<exists>t. set (readLoop_turn (world_ex (frame_bytes heartbeat))) = {t} \<and> typed (turn_world t)"
proof -
  have "ParseFrame (uc_Reader (conns (world_ex (frame_bytes heartbeat)) 0)) = (Inr heartbeat, \<lparr>rdata = [], rend = EOF\<rparr>)"
    by (simp add: ParseFrame_ok_iff)
  moreover have "writeFrameToUpstream (mu (world_ex inp)) f = [(mu (world_ex inp))\<lparr>writeCh := [f]\<rparr>]" for inp f
    by (simp add: writeFrameToUpstream_def writeCh_cap_def) (simp add: world_ex_def mu_ex_def newManagedUpstream_def)
  moreover have "Type heartbeat = FrameTypeHeartbeat" by (simp add: heartbeat_def)
  ultimately obtain t where t: "readLoop_turn (world_ex (frame_bytes heartbeat)) = [t]"
    by (simp add: readLoop_turn_def readLoop_dispatch_def)
  with typed_preserved [OF typed_world_ex, of "frame_bytes heartbeat"] show ?thesis by auto
qed

end
