(* ===== verification/Proxy_Server.thy ===== *)
theory Proxy_Server
  imports Loop_Bounds
begin

text \<open>
  The running server: \<open>Start\<close>, \<open>Stop\<close> and \<open>startIdleCleanup\<close> of \<open>proxy/proxy.go\<close>, the listeners of
  \<open>proxy/listener.go\<close>, and the part of \<open>main\<close> (\<open>main.go\<close>) that ties them to the signal and to the
  end of the process. All goroutines of the process, those of the clients and upstreams included,
  are the step relation \<open>sstep\<close> on one state, which consists of the proxy and of the places that the goroutines have
  reached. The admission of a client is split where another goroutine may change what it relies on; the other
  steps are whole turns. Opening the socket is the parameter \<open>net_Listen\<close> (\<open>None\<close> on success).
\<close>

section \<open>Listeners\<close>

datatype listener = Plain_listener string | TLS_listener string tls_Config

definition listenAddr :: "Config \<Rightarrow> string" where
  "listenAddr cfg = ListenAddress cfg @ '':'' @ decInt (ListenPort cfg)"

definition StartPlain :: "(string \<Rightarrow> go_error option) \<Rightarrow> Config \<Rightarrow> listener result" where
  "StartPlain net_Listen cfg =
     (let addr = listenAddr cfg
      in case net_Listen addr of Some err \<Rightarrow> Inl err | None \<Rightarrow> Inr (Plain_listener addr))"

definition StartTLS :: "(string \<Rightarrow> go_error option) \<Rightarrow> Config \<Rightarrow> tls_Config option \<Rightarrow> listener result" where
  "StartTLS net_Listen cfg tls =
     (case tls of
        None \<Rightarrow> Inl (Errorf ''TLS config not available'' [] [])
      | Some c \<Rightarrow>
          let addr = listenAddr cfg
          in case net_Listen addr of Some err \<Rightarrow> Inl err | None \<Rightarrow> Inr (TLS_listener addr c))"

text \<open>The beginning of \<open>Start\<close>.\<close>

definition openListener :: "(string \<Rightarrow> go_error option) \<Rightarrow> Proxy \<Rightarrow> listener result" where
  "openListener net_Listen p =
     (case (if TLSCert (config p) \<noteq> '''' \<and> TLSKey (config p) \<noteq> ''''
            then StartTLS net_Listen (config p) (listenerTLS p)
            else StartPlain net_Listen (config p)) of
        Inl err \<Rightarrow> Inl (Wrapf ''failed to start listener: %w'' [] err)
      | Inr l \<Rightarrow> Inr l)"

text \<open>\<open>errors.Is(err, net.ErrClosed)\<close>: the error itself or one that it wraps.\<close>

fun isClosedError :: "go_error \<Rightarrow> bool" where
  "isClosedError ErrClosed = True"
| "isClosedError (Wrapf msg args err) = isClosedError err"
| "isClosedError err = False"

section \<open>The process\<close>

text \<open>
  The goroutine of a client: before its handshake is done; after it, with the user name, password and virtual host
  that \<open>handleConnection\<close> copies into its locals; with an upstream chosen; registered there; after the
  first of the two tests that follow; in its loop; and past it with the deferred calls to do.
\<close>

datatype cphase = Handshaking | Negotiated string string string | Chosen nat | Registered nat | Tested nat |
  Attached nat | Leaving nat

text \<open>
  The call of \<open>Start\<close> in \<open>main\<close>; the goroutine that waits for the signal and calls \<open>Stop\<close>, which
  ends because the clients are gone or because 30 s have passed (\<open>True\<close>); and the process.
\<close>

datatype start_phase = Not_started | Accepting | Returned "go_error option"
datatype stop_phase = Not_stopped | Draining | Stop_done bool
datatype status = Running | Fatal go_error | Panicked | Exit_ok

record server =
  prox :: Proxy
  starting :: start_phase
  serving :: "nat \<rightharpoonup> cphase"
  cleaning :: bool
  stopping :: stop_phase
  status :: status

definition new_server :: "Proxy \<Rightarrow> server" where
  "new_server p = \<lparr>prox = p, starting = Not_started, serving = Map.empty, cleaning = False,
     stopping = Not_stopped, status = Running\<rparr>"

text \<open>\<open>dialFn\<close>, the closure that \<open>getOrCreateManagedUpstream\<close> gives an upstream for its reconnects.\<close>

definition dialFn :: "net_env \<Rightarrow> Config \<Rightarrow> string \<Rightarrow> string \<Rightarrow> ManagedUpstream \<Rightarrow> UpstreamConn result" where
  "dialFn env cfg network addr m =
     (case dialUpstream env cfg network addr of
        Inl err \<Rightarrow> Inl err
      | Inr (nc, inp) \<Rightarrow>
          (case performUpstreamHandshake nc inp (mu_username m) (mu_password m) (mu_vhost m) of
             (Some err, c) \<Rightarrow> Inl err
           | (None, c) \<Rightarrow> Inr c))"

text \<open>\<open>Start\<close> up to its loop: the listener is set and the cleanup goroutine launched, or the call returns.\<close>

definition startProxy :: "(string \<Rightarrow> go_error option) \<Rightarrow> server \<Rightarrow> server" where
  "startProxy net_Listen s =
     (case openListener net_Listen (prox s) of
        Inl err \<Rightarrow> s\<lparr>starting := Returned (Some err)\<rparr>
      | Inr l \<Rightarrow>
          s\<lparr>prox := (prox s)\<lparr>listening := True\<rparr>, starting := Accepting,
            cleaning := PoolIdleTimeout (config (prox s)) > 0\<rparr>)"

text \<open>\<open>startIdleCleanup\<close>, a tick of its ticker.\<close>

definition cleanupTick :: "int \<Rightarrow> Proxy \<Rightarrow> Proxy" where
  "cleanupTick now p = removeIdleUpstreams (idleTimeout (config p)) now p"

text \<open>
  The steps. Those of an upstream are possible for every address below \<open>fresh\<close>; an address that
  holds no running upstream only adds steps. An accept that fails for a reason other than the closed
  listener changes nothing, and the listener reports that it is closed only after \<open>Stop\<close> has closed it.
\<close>

inductive sstep :: "net_env \<Rightarrow> (string \<Rightarrow> go_error option) \<Rightarrow> server \<Rightarrow> server \<Rightarrow> bool" for env net_Listen where
  \<comment> \<open>\<open>Start\<close>, and its accept loop\<close>
  start: "starting s = Not_started \<Longrightarrow> sstep env net_Listen s (startProxy net_Listen s)"
| accepted: "starting s = Accepting \<Longrightarrow> serving s x = None \<Longrightarrow> acceptConn (prox s) x cc = Launched p \<Longrightarrow>
    sstep env net_Listen s (s\<lparr>prox := p, serving := (serving s)(x \<mapsto> Handshaking)\<rparr>)"
| refused: "starting s = Accepting \<Longrightarrow> serving s x = None \<Longrightarrow> acceptConn (prox s) x cc = Refused p \<Longrightarrow>
    sstep env net_Listen s (s\<lparr>prox := p\<rparr>)"
| stale_accept: "starting s = Accepting \<Longrightarrow> serving s x = None \<Longrightarrow> acceptConn (prox s) x cc = Closing_down p \<Longrightarrow>
    sstep env net_Listen s (s\<lparr>prox := p, starting := Returned None, cleaning := False\<rparr>)"
| accept_closed: "starting s = Accepting \<Longrightarrow> \<not> listening (prox s) \<Longrightarrow> isClosedError err \<Longrightarrow>
    sstep env net_Listen s (s\<lparr>starting := Returned None, cleaning := False\<rparr>)"
  \<comment> \<open>\<open>handleConnection\<close>\<close>
| negotiate: "serving s x = Some Handshaking \<Longrightarrow> clientHandshake (p_ccs (prox s) x) = (True, cc) \<Longrightarrow>
    sstep env net_Listen s (s\<lparr>prox := set_cc (prox s) x cc,
      serving := (serving s)(x \<mapsto> Negotiated (cc_Username cc) (cc_Password cc) (cc_Vhost cc))\<rparr>)"
| handshake_fails: "serving s x = Some Handshaking \<Longrightarrow> clientHandshake (p_ccs (prox s) x) = (False, cc) \<Longrightarrow>
    sstep env net_Listen s (s\<lparr>prox := finishClient (set_cc (prox s) x cc) x, serving := (serving s)(x := None)\<rparr>)"
| choose: "serving s x = Some (Negotiated u pw v) \<Longrightarrow> chooseUpstream env (prox s) x u pw v = (Some i, p) \<Longrightarrow>
    sstep env net_Listen s (s\<lparr>prox := p, serving := (serving s)(x \<mapsto> Chosen i)\<rparr>)"
| no_upstream: "serving s x = Some (Negotiated u pw v) \<Longrightarrow> chooseUpstream env (prox s) x u pw v = (None, p) \<Longrightarrow>
    sstep env net_Listen s (s\<lparr>prox := finishClient p x, serving := (serving s)(x := None)\<rparr>)"
| register: "serving s x = Some (Chosen i) \<Longrightarrow>
    sstep env net_Listen s (s\<lparr>prox := registerClient (prox s) x i, serving := (serving s)(x \<mapsto> Registered i)\<rparr>)"
| not_stopped: "serving s x = Some (Registered i) \<Longrightarrow> \<not> stopped (ups (prox s) i) \<Longrightarrow>
    sstep env net_Listen s (s\<lparr>serving := (serving s)(x \<mapsto> Tested i)\<rparr>)"
| not_reconnecting: "serving s x = Some (Tested i) \<Longrightarrow> \<not> reconnecting (ups (prox s) i) \<Longrightarrow>
    sstep env net_Listen s (s\<lparr>serving := (serving s)(x \<mapsto> Attached i)\<rparr>)"
| turn_away: "serving s x = Some (Registered i) \<and> stopped (ups (prox s) i) \<or>
      serving s x = Some (Tested i) \<and> reconnecting (ups (prox s) i) \<Longrightarrow>
    sstep env net_Listen s (s\<lparr>prox := finishClient (rejectClient now (prox s) x i) x, serving := (serving s)(x := None)\<rparr>)"
| client: "serving s x = Some (Attached i) \<Longrightarrow> Next w \<in> set (clientLoop_turn (world_of (prox s) i) x) \<Longrightarrow>
    sstep env net_Listen s (s\<lparr>prox := put_world (prox s) i w\<rparr>)"
| client_leaves: "serving s x = Some (Attached i) \<Longrightarrow> Leave w \<in> set (clientLoop_turn (world_of (prox s) i) x) \<Longrightarrow>
    sstep env net_Listen s (s\<lparr>prox := put_world (prox s) i w, serving := (serving s)(x \<mapsto> Leaving i)\<rparr>)"
| client_done: "serving s x = Some (Leaving i) \<Longrightarrow>
    set es = {(c, u). ChannelMapping (p_ccs (prox s) x) c = Some u} \<Longrightarrow> distinct (map fst es) \<Longrightarrow>
    w \<in> set (releaseClientChannels ((world_of (prox s) i)\<lparr>mu := Deregister (ups (prox s) i) x now\<rparr>) x es) \<Longrightarrow>
    sstep env net_Listen s (s\<lparr>prox := finishClient (put_world (prox s) i w) x, serving := (serving s)(x := None)\<rparr>)"
  \<comment> \<open>the goroutines of an upstream\<close>
| read: "i < fresh (prox s) \<Longrightarrow> t \<in> set (readLoop_turn (world_of (prox s) i)) \<Longrightarrow>
    sstep env net_Listen s (s\<lparr>prox := put_world (prox s) i (turn_world t)\<rparr>)"
| pump: "i < fresh (prox s) \<Longrightarrow> t \<in> set (writePump_turn a d (world_of (prox s) i)) \<Longrightarrow>
    sstep env net_Listen s (s\<lparr>prox := put_world (prox s) i (turn_world t)\<rparr>)"
| attempt: "i < fresh (prox s) \<Longrightarrow> reconnecting (ups (prox s) i) \<Longrightarrow> \<not> stopped (ups (prox s) i) \<Longrightarrow>
    sstep env net_Listen s (s\<lparr>prox := set_up (prox s) i
      ((ups (prox s) i)\<lparr>reconnectTotal := reconnectTotal (ups (prox s) i) + 1\<rparr>)\<rparr>)"
| reconnect: "i < fresh (prox s) \<Longrightarrow> reconnecting (ups (prox s) i) \<Longrightarrow>
    parseUpstreamURL (url_Parse env) (UpstreamURL (config (prox s))) = Inr (network, addr) \<Longrightarrow>
    dialFn env (config (prox s)) network addr (ups (prox s) i) = Inr c \<Longrightarrow>
    p = (prox s)\<lparr>up_conns := (up_conns (prox s))(fresh (prox s) := c), fresh := fresh (prox s) + 1\<rparr> \<Longrightarrow>
    installConn (world_of p i) (fresh (prox s)) d now = Reconnected w pd \<Longrightarrow>
    sstep env net_Listen s (s\<lparr>prox := put_world p i w\<rparr>)"
| panic: "i < fresh (prox s) \<Longrightarrow> reconnecting (ups (prox s) i) \<Longrightarrow> installConn (world_of (prox s) i) a d now = Panic w \<Longrightarrow>
    sstep env net_Listen s (s\<lparr>status := Panicked\<rparr>)"
  \<comment> \<open>\<open>startIdleCleanup\<close>\<close>
| tick: "cleaning s \<Longrightarrow>
    sstep env net_Listen s (s\<lparr>prox := cleanupTick now (prox s)\<rparr>)"
  \<comment> \<open>\<open>Stop\<close>, called once, on the signal, and its wait for the clients\<close>
| signal: "stopping s = Not_stopped \<Longrightarrow> sstep env net_Listen s (s\<lparr>prox := Stop (prox s), stopping := Draining\<rparr>)"
| drained: "stopping s = Draining \<Longrightarrow> serving s = Map.empty \<Longrightarrow>
    sstep env net_Listen s (s\<lparr>stopping := Stop_done False\<rparr>)"
| drain_timeout: "stopping s = Draining \<Longrightarrow> sstep env net_Listen s (s\<lparr>stopping := Stop_done True\<rparr>)"
  \<comment> \<open>the end of \<open>main\<close>, and the \<open>log.Fatal\<close> of the admin server\<close>
| fatal: "starting s = Returned (Some err) \<Longrightarrow> sstep env net_Listen s (s\<lparr>status := Fatal err\<rparr>)"
| exit_main: "starting s = Returned None \<Longrightarrow> stopping s = Stop_done late \<Longrightarrow>
    sstep env net_Listen s (s\<lparr>status := Exit_ok\<rparr>)"
| admin_fatal: "sstep env net_Listen s (s\<lparr>status := Fatal err\<rparr>)"

inductive reaches :: "net_env \<Rightarrow> (string \<Rightarrow> go_error option) \<Rightarrow> server \<Rightarrow> server \<Rightarrow> bool" for env net_Listen where
  refl: "reaches env net_Listen s s"
| more: "reaches env net_Listen s s1 \<Longrightarrow> status s1 = Running \<Longrightarrow> sstep env net_Listen s1 s2 \<Longrightarrow>
    reaches env net_Listen s s2"

lemma reaches_step:
  "reaches env L s s1 \<Longrightarrow> sstep env L s1 s2 \<Longrightarrow> status s1 = Running \<Longrightarrow> reaches env L s s2"
  by (rule reaches.more)

section \<open>What the goroutines leave alone\<close>

definition creds :: "ManagedUpstream \<Rightarrow> string \<times> string \<times> string" where
  "creds m = (mu_username m, mu_password m, mu_vhost m)"

lemma creds_misc [simp]:
  "creds (m\<lparr>writeCh := q\<rparr>) = creds m" "creds (m\<lparr>reconnecting := b\<rparr>) = creds m" "creds (m\<lparr>nextHint := n\<rparr>) = creds m"
  "creds (m\<lparr>reconnectTotal := t\<rparr>) = creds m" "creds (claimChannel m u c x) = creds m" "creds (Register m x) = creds m"
  "creds (Deregister m x now) = creds m" "creds (snd (ScheduleChannelCloseIfOwnedBy m u x)) = creds m"
  "creds (snd (closeOkReceived m u)) = creds m" "creds (halted m) = creds m"
  by (simp_all add: creds_def claimChannel_def Register_def Deregister_def ScheduleChannelCloseIfOwnedBy_def
      closeOkReceived_def Let_def split: option.splits)

lemma creds_queue: "m' \<in> set (writeFrameToUpstream m f) \<Longrightarrow> creds m' = creds m"
  by (auto dest!: writeFrameToUpstream_cases)

lemma creds_failure: "creds (mu (snd (handleUpstreamFailure w))) = creds (mu w)"
  by (simp add: handleUpstreamFailure_def)

lemma creds_read:
  assumes "t \<in> set (readLoop_turn w)"
  shows "creds (mu (turn_world t)) = creds (mu w)"
proof (cases "conn (mu w)")
  case None
  with assms show ?thesis by (simp add: readLoop_turn_def)
next
  case (Some a)
  obtain e r where p: "ParseFrame (uc_Reader (conns w a)) = (e, r)" by fastforce
  let ?w = "w\<lparr>conns := (conns w)(a := (conns w a)\<lparr>uc_Reader := r\<rparr>)\<rparr>"
  show ?thesis
  proof (cases e)
    case (Inl err)
    with Some p assms creds_failure [of ?w] show ?thesis
      by (cases "handleUpstreamFailure ?w") (auto simp: readLoop_turn_def Let_def split: if_splits)
  next
    case (Inr f)
    from assms read_turn_parsed [OF Some p [unfolded Inr]] obtain w' where
      "t = Again w'" "w' \<in> set (readLoop_dispatch ?w f)" by auto
    with dispatch_mu(2) [of w' ?w f] show ?thesis by (auto dest: creds_queue)
  qed
qed

lemma creds_allocate: "AllocateChannel m c x = Some (r, m') \<Longrightarrow> creds m' = creds m"
  using allocateLocked_Inl [of m c x _ m'] allocateLocked_Inr(1) [of m c x _ m']
  by (cases r) (auto simp: AllocateChannel_def split: if_splits)

lemma creds_open: "openChannel w x f = Some (e, w') \<Longrightarrow> creds (mu w') = creds (mu w)"
  by (auto simp: openChannel_def dest!: creds_allocate split: option.splits sum.splits)

lemma creds_client:
  assumes "t \<in> set (clientLoop_turn w x)"
  shows "creds (mu (client_world t)) = creds (mu w)"
proof -
  obtain e r where p: "ParseFrame (Reader (ccs w x)) = (e, r)" by fastforce
  let ?w = "w\<lparr>ccs := (ccs w)(x := (ccs w x)\<lparr>Reader := r\<rparr>)\<rparr>"
  show ?thesis
  proof (cases e)
    case (Inl err)
    with p assms show ?thesis by (simp add: clientLoop_turn_def)
  next
    case (Inr f)
    with p assms have "t \<in> set (handleFrame ?w x f)" by (simp add: clientLoop_turn_def)
    then show ?thesis
      by (cases rule: handleFrame_cases)
        (auto dest!: creds_open forwardFrame_fields(1) creds_queue)
  qed
qed

lemma creds_release: "w' \<in> set (releaseClientChannels w x es) \<Longrightarrow> creds (mu w') = creds (mu w)"
proof (induction es arbitrary: w)
  case (Cons e es)
  obtain c u where e: "e = (c, u)" by (cases e)
  from Cons.prems e obtain w1 where w1: "w1 \<in> set (releaseOne w x (c, u))" "w' \<in> set (releaseClientChannels w1 x es)"
    by auto
  obtain b m where m: "ScheduleChannelCloseIfOwnedBy (mu w) u x = (b, m)" by fastforce
  from creds_misc(8) [of "mu w" u x] m have "creds m = creds (mu w)" by simp
  with w1(1) m have "creds (mu w1) = creds (mu w)" by (auto simp: releaseOne_def dest: creds_queue split: if_splits)
  with Cons.IH w1(2) show ?case by simp
qed simp

lemma creds_pump_failed: "creds (mu (turn_world (pump_failed w))) = creds (mu w)"
  using creds_failure [of w] by (cases "handleUpstreamFailure w") (simp add: pump_failed_def)

lemma writePump_turn_cases:
  assumes "t \<in> set (writePump_turn a d w)"
  obtains (stopped) "t = Return w False" | (failed) b q where "t = pump_failed (set_pump w a b q)"
  | (written) b q where "t = Again (set_pump w a b q)"
proof (cases "t = Return w False")
  case False
  with assms obtain f q where q: "writeCh (mu w) = f # q"
    by (cases "writeCh (mu w)") (auto simp: writePump_turn_def split: if_splits)
  obtain e b where w: "WriteFrame bufio_Write (uc_Writer (conns w a)) f = (e, b)" by fastforce
  obtain e1 b1 q1 where p: "pump_drain b q = (e1, b1, q1)" using prod_cases3 by blast
  obtain e2 b2 where "Flush b1 = (e2, b2)" by fastforce
  with False assms q w p that show thesis
    by (cases e; cases e1; cases e2) (auto simp: writePump_turn_def split: if_splits)
qed (use that in blast)

lemma creds_pump: "t \<in> set (writePump_turn a d w) \<Longrightarrow> creds (mu (turn_world t)) = creds (mu w)"
  by (erule writePump_turn_cases) (simp_all add: creds_pump_failed set_pump_def)

lemma creds_install: "installConn w a d now = Reconnected w' pd \<Longrightarrow> creds (mu w') = creds (mu w)"
  by (auto simp: installConn_def Let_def resetState_def creds_def split: if_splits)

section \<open>The invariant\<close>

lemma pools_ok_iff:
  "pools_ok p \<longleftrightarrow> distinct (map fst (upstreams p)) \<and>
     (\<forall>(key, ids) \<in> set (upstreams p). \<forall>i \<in> set ids. i < fresh p \<and> (case creds (ups p i) of (u, pw, v) \<Rightarrow> getPoolKey u pw v = key))"
  unfolding pools_ok_def creds_def by (fastforce dest: map_of_SomeD intro: map_of_is_SomeI)

lemma pools_ok_creds:
  assumes "pools_ok p" "\<And>j. creds (ups p' j) = creds (ups p j)" "upstreams p' = upstreams p" "fresh p \<le> fresh p'"
  shows "pools_ok p'"
  using assms unfolding pools_ok_iff by fastforce

text \<open>The limits, on a proxy with \<open>n\<close> goroutines of clients.\<close>

definition limits_ok :: "Proxy \<Rightarrow> bool" where
  "limits_ok p \<longleftrightarrow> pools_ok p \<and>
     (MaxClientConnections (config p) > 0 \<longrightarrow> activeClients p \<le> MaxClientConnections (config p)) \<and>
     (MaxUpstreamConnections (config p) > 0 \<longrightarrow> int (totalUpstreams p) \<le> MaxUpstreamConnections (config p))"

text \<open>\<open>same_limits p p'\<close>: nothing that the limits speak of has changed.\<close>

definition same_limits :: "Proxy \<Rightarrow> Proxy \<Rightarrow> bool" where
  "same_limits p p' \<longleftrightarrow> config p' = config p \<and> upstreams p' = upstreams p \<and> fresh p \<le> fresh p' \<and>
     activeClients p' = activeClients p \<and> listening p' = listening p \<and> (\<forall>j. creds (ups p' j) = creds (ups p j))"

lemma limits_ok_same: "limits_ok p \<Longrightarrow> same_limits p p' \<Longrightarrow> limits_ok p'"
  using pools_ok_creds [of p p'] by (simp add: limits_ok_def same_limits_def totalUpstreams_def)

lemma same_limits_world: "creds (mu w) = creds (ups p i) \<Longrightarrow> same_limits p (put_world p i w)"
  by (simp add: same_limits_def put_world_def)

lemma same_limits_set_up: "creds m = creds (ups p i) \<Longrightarrow> same_limits p (set_up p i m)"
  by (simp add: same_limits_def set_up_def)

lemma same_limits_set_cc [simp]: "same_limits p (set_cc p x cc)"
  by (simp add: same_limits_def set_cc_def)

lemma limits_ok_getOrCreate:
  assumes "limits_ok p" "getOrCreateManagedUpstream env p u pw v = (r, p')"
  shows "limits_ok p' \<and> config p' = config p \<and> activeClients p' = activeClients p \<and> listening p' = listening p"
  using assms(2) unfolding getOrCreate_locked
proof (cases rule: getOrCreateLocked_cases)
  case (created i c)
  from assms(1) have "pools_ok p" by (simp add: limits_ok_def)
  with assms(1) created(4) addUpstream_pools [OF _ created(3)] addUpstream_total [OF _ created(3)]
    addUpstream_fields [OF created(3)] show ?thesis by (auto simp: limits_ok_def)
qed (use assms(1) in auto)

text \<open>The choice of an upstream may add one; the other pieces of the admission are neutral.\<close>

lemma limits_ok_choose:
  assumes "limits_ok p" "chooseUpstream env p x u pw v = (r, p')"
  shows "limits_ok p' \<and> config p' = config p \<and> activeClients p' = activeClients p \<and> listening p' = listening p"
proof -
  obtain e p1 where g: "getOrCreateManagedUpstream env p u pw v = (e, p1)" by fastforce
  note l = limits_ok_getOrCreate [OF assms(1) g]
  from assms(2) g have "p' = p1 \<or> (\<exists>cc. p' = set_cc p1 x cc)"
    by (cases e) (auto simp: chooseUpstream_def Let_def)
  with l limits_ok_same [OF _ same_limits_set_cc] show ?thesis by (auto simp: set_cc_def)
qed

lemma same_limits_trans: "same_limits p q \<Longrightarrow> same_limits q r \<Longrightarrow> same_limits p r"
  by (simp add: same_limits_def)

lemma same_limits_register [simp]: "same_limits p (registerClient p x i)"
  by (simp add: registerClient_def same_limits_set_up)

lemma same_limits_reject [simp]: "same_limits p (rejectClient now p x i)"
  using same_limits_trans [OF same_limits_set_up same_limits_set_cc] by (simp add: rejectClient_def Let_def)

text \<open>The sweep and the shutdown only remove upstreams.\<close>

lemma sweepPool_frame:
  assumes "sweepPool timeout now p ids = (kept, p')"
  shows "set kept \<subseteq> set ids \<and> length kept \<le> length ids \<and> same_limits p p'"
  using assms
proof (induction ids arbitrary: p kept)
  case (Cons i ids)
  obtain b m h where m: "markStoppedIfIdle (ups p i) (up_conns p) timeout now = (b, m, h)" using prod_cases3 by blast
  let ?p = "p\<lparr>ups := (ups p)(i := m), up_conns := h\<rparr>"
  obtain k where k: "sweepPool timeout now ?p ids = (k, p')" "kept = (if b then k else i # k)"
    using Cons.prems m by (auto split: prod.splits)
  have "creds m = creds (ups p i)" using m by (auto simp: markStoppedIfIdle_idle split: if_splits)
  with Cons.IH [OF k(1)] k(2) show ?case by (auto simp: same_limits_def)
qed (simp add: same_limits_def)

lemma sweepAll_frame:
  assumes "sweepAll timeout now p pools = (rest, p')"
  shows "same_limits p p' \<and> set (map fst rest) \<subseteq> set (map fst pools) \<and>
    (distinct (map fst pools) \<longrightarrow> distinct (map fst rest)) \<and>
    (\<forall>(key, ids) \<in> set rest. \<exists>js. (key, js) \<in> set pools \<and> set ids \<subseteq> set js) \<and>
    sum_list (map (\<lambda>(key, ids). length ids) rest) \<le> sum_list (map (\<lambda>(key, ids). length ids) pools)"
  using assms
proof (induction pools arbitrary: p rest)
  case (Cons e pools)
  obtain key ids where e: "e = (key, ids)" by (cases e)
  obtain kept p1 where k: "sweepPool timeout now p ids = (kept, p1)" by fastforce
  obtain rest1 where r: "sweepAll timeout now p1 pools = (rest1, p')" "rest = (if kept = [] then rest1 else (key, kept) # rest1)"
    using Cons.prems k by (auto simp: e split: prod.splits)
  from sweepPool_frame [OF k] Cons.IH [OF r(1)] r(2) show ?case
    by (auto simp: e dest: same_limits_trans split: if_splits)
qed (simp add: same_limits_def)

lemma limits_ok_sweep:
  assumes "limits_ok p"
  shows "limits_ok (removeIdleUpstreams timeout now p)"
    "config (removeIdleUpstreams timeout now p) = config p"
    "activeClients (removeIdleUpstreams timeout now p) = activeClients p"
    "listening (removeIdleUpstreams timeout now p) = listening p"
proof -
  obtain rest p1 where s: "sweepAll timeout now p (upstreams p) = (rest, p1)" by fastforce
  note f = sweepAll_frame [OF s]
  then have q: "same_limits p p1" by blast
  let ?p = "p1\<lparr>upstreams := rest\<rparr>"
  have r: "removeIdleUpstreams timeout now p = ?p" by (simp add: removeIdleUpstreams_def s)
  have "int (totalUpstreams ?p) \<le> int (totalUpstreams p)" using f by (simp add: totalUpstreams_def)
  moreover have "pools_ok ?p"
    using assms f q unfolding limits_ok_def pools_ok_iff same_limits_def by fastforce
  ultimately show "limits_ok (removeIdleUpstreams timeout now p)"
    using assms q by (auto simp: r limits_ok_def same_limits_def)
  show "config (removeIdleUpstreams timeout now p) = config p"
    "activeClients (removeIdleUpstreams timeout now p) = activeClients p"
    "listening (removeIdleUpstreams timeout now p) = listening p"
    using q by (simp_all add: r same_limits_def)
qed

lemma Stop_fields [simp]:
  "upstreams (Stop p) = []" "activeClients (Stop p) = activeClients p" "config (Stop p) = config p"
  "\<not> listening (Stop p)" "fresh (Stop p) = fresh p" "listenerTLS (Stop p) = listenerTLS p"
proof -
  have "activeClients (foldl stopUpstream q ids) = activeClients q \<and> config (foldl stopUpstream q ids) = config q \<and>
    listening (foldl stopUpstream q ids) = listening q \<and> fresh (foldl stopUpstream q ids) = fresh q \<and>
    listenerTLS (foldl stopUpstream q ids) = listenerTLS q" for q ids
    by (induction ids arbitrary: q) (simp_all add: stopUpstream_def Let_def)
  then show "upstreams (Stop p) = []" "activeClients (Stop p) = activeClients p" "config (Stop p) = config p"
    "\<not> listening (Stop p)" "fresh (Stop p) = fresh p" "listenerTLS (Stop p) = listenerTLS p" by (simp_all add: Stop_def Let_def)
qed

lemma limits_ok_Stop: "limits_ok p \<Longrightarrow> limits_ok (Stop p)"
  by (simp add: limits_ok_def pools_ok_def totalUpstreams_def)

section \<open>The invariant of the process\<close>

definition server_ok :: "server \<Rightarrow> bool" where
  "server_ok s \<longleftrightarrow> limits_ok (prox s) \<and> finite (dom (serving s)) \<and>
     activeClients (prox s) = int (card (dom (serving s)))"

lemma acceptConn_limits:
  assumes "limits_ok p"
  shows "acceptConn p x cc = Launched p' \<Longrightarrow> limits_ok p' \<and> activeClients p' = activeClients p + 1 \<and> listening p"
    and "acceptConn p x cc = Refused p' \<Longrightarrow> limits_ok p' \<and> activeClients p' = activeClients p \<and> listening p' = listening p"
    and "acceptConn p x cc = Closing_down p' \<Longrightarrow> limits_ok p' \<and> activeClients p' = activeClients p \<and> \<not> listening p \<and> \<not> listening p'"
proof -
  have "limits_ok (set_cc p x c)" for c by (rule limits_ok_same [OF assms same_limits_set_cc])
  then show "acceptConn p x cc = Launched p' \<Longrightarrow> limits_ok p' \<and> activeClients p' = activeClients p + 1 \<and> listening p"
    "acceptConn p x cc = Refused p' \<Longrightarrow> limits_ok p' \<and> activeClients p' = activeClients p \<and> listening p' = listening p"
    "acceptConn p x cc = Closing_down p' \<Longrightarrow> limits_ok p' \<and> activeClients p' = activeClients p \<and> \<not> listening p \<and> \<not> listening p'"
    by (auto simp: acceptConn_def limits_ok_def set_cc_def pools_ok_def totalUpstreams_def split: if_splits)
qed

lemma finishClient_limits:
  assumes "limits_ok p"
  shows "limits_ok (finishClient p x)" "activeClients (finishClient p x) = activeClients p - 1"
    "listening (finishClient p x) = listening p"
  using limits_ok_same [OF assms same_limits_set_cc, of x "Abort (p_ccs p x)"]
  by (auto simp: finishClient_def limits_ok_def set_cc_def pools_ok_def totalUpstreams_def)

text \<open>The steps that only change the state shared with an upstream.\<close>

lemma inner_steps:
  shows "t \<in> set (readLoop_turn (world_of p i)) \<Longrightarrow> same_limits p (put_world p i (turn_world t))"
    and "t \<in> set (writePump_turn a d (world_of p i)) \<Longrightarrow> same_limits p (put_world p i (turn_world t))"
    and "t' \<in> set (clientLoop_turn (world_of p i) x) \<Longrightarrow> same_limits p (put_world p i (client_world t'))"
    and "w \<in> set (releaseClientChannels ((world_of p i)\<lparr>mu := Deregister (ups p i) x now\<rparr>) x es) \<Longrightarrow>
      same_limits p (put_world p i w)"
    and "installConn (world_of (p\<lparr>up_conns := h, fresh := fresh p + 1\<rparr>) i) a d now = Reconnected w pd \<Longrightarrow>
      same_limits p (put_world (p\<lparr>up_conns := h, fresh := fresh p + 1\<rparr>) i w)"
  by (auto dest!: creds_read creds_pump creds_client creds_release creds_install
      simp: same_limits_def put_world_def world_of_def)

lemma server_ok_same: "server_ok s \<Longrightarrow> same_limits (prox s) p \<Longrightarrow> dom (serving s') = dom (serving s) \<Longrightarrow> prox s' = p \<Longrightarrow> server_ok s'"
  using limits_ok_same [of "prox s" p] by (simp add: server_ok_def same_limits_def)

lemma dom_set [simp]: "serving s x = Some ph \<Longrightarrow> insert x (dom (serving s)) = dom (serving s)"
  by (simp add: insert_absorb domI)

lemma server_ok_leave:
  assumes "server_ok s" "serving s x = Some ph" "limits_ok p" "activeClients p = activeClients (prox s)"
  shows "server_ok (s\<lparr>prox := finishClient p x, serving := (serving s)(x := None)\<rparr>)"
proof -
  have "x \<in> dom (serving s)" "finite (dom (serving s))" using assms(1,2) by (auto simp: server_ok_def)
  then have "int (card (dom (serving s) - {x})) = int (card (dom (serving s))) - 1"
    by (metis card_Suc_Diff1 add_diff_cancel_left' of_nat_Suc)
  with assms finishClient_limits [OF assms(3)] show ?thesis by (simp add: server_ok_def)
qed

lemma sstep_server_ok:
  assumes "sstep env L s s'" "server_ok s"
  shows "server_ok s'"
proof -
  have l: "limits_ok (prox s)" using assms(2) by (simp add: server_ok_def)
  show ?thesis
    using assms
  proof cases
    case start
    then show ?thesis using assms(2)
      by (simp add: startProxy_def server_ok_def limits_ok_def pools_ok_def totalUpstreams_def split: sum.splits)
  next
    case (accepted x cc p)
    then show ?thesis using acceptConn_limits(1) [OF l accepted(4)] assms(2)
      by (simp add: server_ok_def domIff)
  next
    case (refused x cc p)
    then show ?thesis using acceptConn_limits(2) [OF l refused(4)] assms(2) by (simp add: server_ok_def)
  next
    case (stale_accept x cc p)
    then show ?thesis using acceptConn_limits(3) [OF l stale_accept(4)] assms(2) by (simp add: server_ok_def)
  next
    case (negotiate x cc)
    then show ?thesis by (simp add: server_ok_same [OF assms(2) same_limits_set_cc])
  next
    case (handshake_fails x cc)
    from server_ok_leave [OF assms(2) handshake_fails(2) limits_ok_same [OF l same_limits_set_cc]] handshake_fails(1)
    show ?thesis by (simp add: set_cc_def)
  next
    case (choose x u pw v i p)
    then show ?thesis using limits_ok_choose [OF l choose(3)] assms(2) by (simp add: server_ok_def)
  next
    case (no_upstream x u pw v p)
    with limits_ok_choose [OF l no_upstream(3)] server_ok_leave [OF assms(2) no_upstream(2)] show ?thesis by simp
  next
    case (register x i)
    then show ?thesis by (simp add: server_ok_same [OF assms(2) same_limits_register])
  next
    case (not_stopped x i)
    then show ?thesis using assms(2) by (simp add: server_ok_def)
  next
    case (not_reconnecting x i)
    then show ?thesis using assms(2) by (simp add: server_ok_def)
  next
    case (turn_away x i now)
    then obtain ph where ph: "serving s x = Some ph" by blast
    have "same_limits (prox s) (rejectClient now (prox s) x i)" by simp
    with server_ok_leave [OF assms(2) ph] limits_ok_same [OF l] turn_away(1) show ?thesis
      by (simp add: same_limits_def)
  next
    case (client x i w)
    with inner_steps(3) [OF client(3)] show ?thesis by (auto intro: server_ok_same [OF assms(2)])
  next
    case (client_leaves x i w)
    with inner_steps(3) [OF client_leaves(3)] show ?thesis by (simp add: server_ok_same [OF assms(2)])
  next
    case (client_done x i es w now)
    from inner_steps(4) [OF client_done(5)] have "same_limits (prox s) (put_world (prox s) i w)" .
    with server_ok_leave [OF assms(2) client_done(2)] limits_ok_same [OF l] client_done(1) show ?thesis
      by (simp add: same_limits_def)
  next
    case (read i t)
    with inner_steps(1) [OF read(3)] show ?thesis by (auto intro: server_ok_same [OF assms(2)])
  next
    case (pump i t a d)
    with inner_steps(2) [OF pump(3)] show ?thesis by (auto intro: server_ok_same [OF assms(2)])
  next
    case (attempt i)
    have "same_limits (prox s) (prox s')" unfolding attempt(1) by (simp add: same_limits_set_up)
    with attempt show ?thesis by (auto intro: server_ok_same [OF assms(2)])
  next
    case (reconnect i network addr c p d now w pd)
    with inner_steps(5) [OF reconnect(7) [unfolded reconnect(6)]] show ?thesis
      by (auto intro: server_ok_same [OF assms(2)])
  next
    case (tick now)
    with limits_ok_sweep [OF l] assms(2) show ?thesis by (simp add: server_ok_def cleanupTick_def)
  next
    case signal
    with limits_ok_Stop [OF l] assms(2) show ?thesis by (simp add: server_ok_def)
  qed (use assms(2) in \<open>simp_all add: server_ok_def limits_ok_def pools_ok_def totalUpstreams_def\<close>)
qed

lemma server_ok_reaches: "reaches env L s s' \<Longrightarrow> server_ok s \<Longrightarrow> server_ok s'"
  by (induction rule: reaches.induct) (auto dest: sstep_server_ok)

lemma server_ok_new: "NewProxy env cfg blank = Inr p \<Longrightarrow> server_ok (new_server p)"
  by (auto simp: NewProxy_def server_ok_def limits_ok_def pools_ok_def totalUpstreams_def new_server_def split: sum.splits)

section \<open>The end of the process\<close>

text \<open>
  The listener is open only while \<open>Start\<close> accepts; once \<open>Stop\<close> has seen all clients leave, with the
  listener closed, no client appears again; and a regular exit comes after both calls have returned.
\<close>

definition life_ok :: "server \<Rightarrow> bool" where
  "life_ok s \<longleftrightarrow> (listening (prox s) \<longrightarrow> starting s = Accepting) \<and>
     (stopping s = Stop_done False \<and> starting s \<noteq> Not_started \<and> \<not> listening (prox s) \<longrightarrow> serving s = Map.empty) \<and>
     (starting s = Not_started \<longrightarrow> serving s = Map.empty) \<and>
     (status s = Exit_ok \<longrightarrow> starting s = Returned None \<and> (\<exists>late. stopping s = Stop_done late))"

lemma sstep_listening:
  assumes "sstep env L s s'" "server_ok s"
  shows "listening (prox s') = listening (prox s) \<or>
    \<not> listening (prox s) \<and> starting s = Not_started \<and> starting s' = Accepting \<and> stopping s' = stopping s \<and>
      serving s' = serving s \<and> status s' = status s \<or>
    stopping s = Not_stopped \<and> stopping s' = Draining \<and> \<not> listening (prox s') \<and>
      starting s' = starting s \<and> serving s' = serving s \<and> status s' = status s"
proof -
  have l: "limits_ok (prox s)" using assms(2) by (simp add: server_ok_def)
  show ?thesis
    using assms(1)
  proof cases
    case (accepted x cc p)
    then show ?thesis by (auto simp: acceptConn_def set_cc_def split: if_splits)
  next
    case start
    then show ?thesis by (simp add: startProxy_def split: sum.splits)
  qed (use limits_ok_choose [OF l] acceptConn_limits(2,3) [OF l] limits_ok_sweep(4) [OF l] in
      \<open>auto simp: put_world_def set_up_def finishClient_def set_cc_def cleanupTick_def registerClient_def rejectClient_def Let_def\<close>)
qed

lemma sstep_life_ok:
  assumes "sstep env L s s'" "server_ok s" "life_ok s" "status s = Running"
  shows "life_ok s'"
  using assms(1)
proof cases
  case start
  with assms(3,4) show ?thesis by (auto simp: startProxy_def life_ok_def split: sum.splits)
next
  case (accepted x cc p)
  then have "listening (prox s)" "listening p" by (auto simp: acceptConn_def set_cc_def split: if_splits)
  with accepted assms(3,4) show ?thesis by (simp add: life_ok_def)
next
  case (stale_accept x cc p)
  then have "\<not> listening (prox s)" "\<not> listening p" by (auto simp: acceptConn_def set_cc_def split: if_splits)
  with stale_accept assms(3,4) show ?thesis by (simp add: life_ok_def)
qed (use sstep_listening [OF assms(1,2)] assms(3,4) in \<open>auto simp: life_ok_def\<close>)

lemma life_ok_reaches: "reaches env L s s' \<Longrightarrow> server_ok s \<Longrightarrow> life_ok s \<Longrightarrow> life_ok s'"
  by (induction rule: reaches.induct) (auto dest: sstep_life_ok server_ok_reaches)

lemma life_ok_new: "NewProxy env cfg blank = Inr p \<Longrightarrow> life_ok (new_server p)"
  by (auto simp: NewProxy_def life_ok_def new_server_def split: sum.splits)

text \<open>With \<open>Stop\<close> done and the listener open, nothing ends the accept loop.\<close>

lemma stuck_step:
  assumes "sstep env L s s'" "server_ok s" "starting s = Accepting" "stopping s = Stop_done late" "listening (prox s)"
    "status s \<noteq> Exit_ok"
  shows "starting s' = Accepting \<and> stopping s' = Stop_done late \<and> listening (prox s') \<and> status s' \<noteq> Exit_ok"
  using assms(1)
proof cases
  case (stale_accept x cc p)
  with assms(5) show ?thesis by (auto simp: acceptConn_def split: if_splits)
qed (use sstep_listening [OF assms(1,2)] assms(3-6) in auto)

lemma stuck_reaches:
  "reaches env L s s' \<Longrightarrow> server_ok s \<Longrightarrow> starting s = Accepting \<Longrightarrow> stopping s = Stop_done late \<Longrightarrow> listening (prox s) \<Longrightarrow>
   status s \<noteq> Exit_ok \<Longrightarrow>
   starting s' = Accepting \<and> stopping s' = Stop_done late \<and> listening (prox s') \<and> status s' \<noteq> Exit_ok"
  by (induction rule: reaches.induct) (auto dest: stuck_step server_ok_reaches)

section \<open>How a client comes to its loop\<close>

text \<open>A run during which client \<open>x\<close> is being served all the time, by one goroutine.\<close>

inductive serves :: "net_env \<Rightarrow> (string \<Rightarrow> go_error option) \<Rightarrow> nat \<Rightarrow> server \<Rightarrow> server \<Rightarrow> bool" for env net_Listen x where
  stay: "serving s x \<noteq> None \<Longrightarrow> serves env net_Listen x s s"
| onward: "serves env net_Listen x s s1 \<Longrightarrow> status s1 = Running \<Longrightarrow> sstep env net_Listen s1 s2 \<Longrightarrow> serving s2 x \<noteq> None \<Longrightarrow>
    serves env net_Listen x s s2"

lemma serves_trans: "serves env L x s1 s2 \<Longrightarrow> serves env L x s s1 \<Longrightarrow> serves env L x s s2"
  by (induction rule: serves.induct) (auto intro: serves.onward)

lemma serves_reaches: "serves env L x s1 s2 \<Longrightarrow> reaches env L s s1 \<Longrightarrow> reaches env L s s2"
  by (induction rule: serves.induct) (auto intro: reaches.more)

lemma reaches_trans: "reaches env L s1 s2 \<Longrightarrow> reaches env L s s1 \<Longrightarrow> reaches env L s s2"
  by (induction rule: reaches.induct) (auto intro: reaches.more)

text \<open>What a goroutine has done or tested in the step from \<open>t\<close> to \<open>t'\<close> that brings it into a phase.\<close>

fun entered :: "net_env \<Rightarrow> nat \<Rightarrow> cphase \<Rightarrow> server \<Rightarrow> server \<Rightarrow> bool" where
  "entered env x (Negotiated u pw v) t t' \<longleftrightarrow> serving t x = Some Handshaking \<and>
     (\<exists>cc. clientHandshake (p_ccs (prox t) x) = (True, cc) \<and> u = cc_Username cc \<and> pw = cc_Password cc \<and> v = cc_Vhost cc)"
| "entered env x (Chosen i) t t' \<longleftrightarrow>
     (\<exists>u pw v. serving t x = Some (Negotiated u pw v) \<and> getOrCreateManagedUpstream env (prox t) u pw v = (Inr i, prox t'))"
| "entered env x (Registered i) t t' \<longleftrightarrow> serving t x = Some (Chosen i) \<and> x \<in> set (clients (ups (prox t') i))"
| "entered env x (Tested i) t t' \<longleftrightarrow> serving t x = Some (Registered i) \<and> \<not> stopped (ups (prox t) i)"
| "entered env x (Attached i) t t' \<longleftrightarrow> serving t x = Some (Tested i) \<and> \<not> reconnecting (ups (prox t) i)"
| "entered env x (Leaving i) t t' \<longleftrightarrow> serving t x = Some (Attached i)"
| "entered env x Handshaking t t' \<longleftrightarrow> serving t x = None"

lemma phase_entry:
  assumes "sstep env L t t'" "serving t' x = Some ph" "serving t x \<noteq> Some ph"
  shows "entered env x ph t t'"
  using assms
  by cases (auto simp: chooseUpstream_Some startProxy_def split: if_splits sum.splits)

lemma phase_before:
  assumes "reaches env L s0 s" "serving s x = Some ph" "serving s0 x \<noteq> Some ph"
  obtains t t' where "reaches env L s0 t" "serving t' x = Some ph" "entered env x ph t t'" "serves env L x t' s"
    "serving t x \<noteq> None \<Longrightarrow> serves env L x t t'"
proof -
  from assms have "\<exists>t t'. reaches env L s0 t \<and> status t = Running \<and> sstep env L t t' \<and> serving t' x = Some ph \<and>
      serving t x \<noteq> Some ph \<and> serves env L x t' s"
  proof (induction rule: reaches.induct)
    case (more s0 s1 s2)
    show ?case
    proof (cases "serving s1 x = Some ph")
      case True
      with more obtain t t' where "reaches env L s0 t" "status t = Running" "sstep env L t t'" "serving t' x = Some ph"
        "serving t x \<noteq> Some ph" "serves env L x t' s1" by blast
      with more.hyps(2,3) more.prems show ?thesis by (blast intro: serves.onward)
    next
      case False
      with more.hyps more.prems show ?thesis by (blast intro: serves.stay)
    qed
  qed simp
  then obtain t t' where t: "reaches env L s0 t" "status t = Running" "sstep env L t t'" "serving t' x = Some ph"
    "serving t x \<noteq> Some ph" "serves env L x t' s" by blast
  have "serves env L x t t'" if "serving t x \<noteq> None"
    using serves.onward [OF serves.stay t(2,3)] that t(4) by simp
  with t that phase_entry [OF t(3-5)] show thesis by blast
qed

text \<open>An upstream keeps its credentials.\<close>

definition keeps :: "Proxy \<Rightarrow> Proxy \<Rightarrow> bool" where
  "keeps p p' \<longleftrightarrow> fresh p \<le> fresh p' \<and> (\<forall>j < fresh p. creds (ups p' j) = creds (ups p j))"

lemma keeps_same: "same_limits p p' \<Longrightarrow> keeps p p'"
  by (simp add: same_limits_def keeps_def)

lemma keeps_trans: "keeps p q \<Longrightarrow> keeps q r \<Longrightarrow> keeps p r"
  by (fastforce simp: keeps_def)

lemma keeps_getOrCreate: "getOrCreateManagedUpstream env p u pw v = (r, p') \<Longrightarrow> keeps p p'"
  unfolding getOrCreate_locked
proof (erule getOrCreateLocked_cases)
  fix i c
  assume "addUpstream p (getPoolKey u pw v) u pw v c = (i, p')"
  from addUpstream_fields [OF this] show "keeps p p'" by (auto simp: keeps_def)
qed (simp_all add: keeps_def)

lemma keeps_choose: "chooseUpstream env p x u pw v = (r, p') \<Longrightarrow> keeps p p'"
  using keeps_getOrCreate [of env p u pw v] keeps_trans [OF _ keeps_same [OF same_limits_set_cc]]
  by (auto simp: chooseUpstream_def Let_def split: prod.splits sum.splits)

lemma keeps_sweep: "keeps p (removeIdleUpstreams timeout now p)"
proof -
  obtain rest p1 where s: "sweepAll timeout now p (upstreams p) = (rest, p1)" by fastforce
  with sweepAll_frame [OF s] show ?thesis by (simp add: removeIdleUpstreams_def keeps_def same_limits_def)
qed

lemma keeps_Stop: "keeps p (Stop p)"
proof -
  have "creds (ups (foldl stopUpstream q ids) j) = creds (ups q j) \<and> fresh (foldl stopUpstream q ids) = fresh q" for q ids j
    by (induction ids arbitrary: q) (simp_all add: stopUpstream_def Let_def creds_def stopWritePump_def)
  then show ?thesis by (simp add: Stop_def Let_def keeps_def)
qed

lemma keeps_finish: "keeps p q \<Longrightarrow> keeps p (finishClient q x)"
  by (simp add: keeps_def finishClient_def set_cc_def)

lemma sstep_keeps:
  assumes "sstep env L s s'"
  shows "keeps (prox s) (prox s')"
  using assms
proof cases
  case (client x i w)
  with inner_steps(3) [OF client(3)] show ?thesis by (simp add: keeps_same)
next
  case (client_leaves x i w)
  with inner_steps(3) [OF client_leaves(3)] show ?thesis by (simp add: keeps_same)
next
  case (reconnect i network addr c p d now w pd)
  with inner_steps(5) [OF reconnect(7) [unfolded reconnect(6)]] show ?thesis by (simp add: keeps_same)
next
  case (attempt i)
  then show ?thesis by (simp add: keeps_same same_limits_set_up)
next
  case (read i t)
  with inner_steps(1) [OF read(3)] show ?thesis by (simp add: keeps_same)
next
  case (pump i t a d)
  with inner_steps(2) [OF pump(3)] show ?thesis by (simp add: keeps_same)
next
  case (client_done x i es w now)
  with keeps_finish [OF keeps_same [OF inner_steps(4) [OF client_done(5)]]] show ?thesis by simp
next
  case (turn_away x i now)
  with keeps_finish [OF keeps_same [OF same_limits_reject]] show ?thesis by simp
next
  case (no_upstream x u pw v p)
  with keeps_finish [OF keeps_choose [OF no_upstream(3)]] show ?thesis by simp
next
  case (accepted x cc p)
  then show ?thesis by (auto simp: acceptConn_def keeps_def set_cc_def split: if_splits)
next
  case (refused x cc p)
  then show ?thesis by (auto simp: acceptConn_def keeps_def set_cc_def split: if_splits)
next
  case (stale_accept x cc p)
  then show ?thesis by (auto simp: acceptConn_def keeps_def set_cc_def split: if_splits)
qed (auto simp: startProxy_def set_cc_def finishClient_def cleanupTick_def keeps_same keeps_choose
    keeps_sweep keeps_Stop, simp_all add: keeps_def startProxy_def split: sum.splits if_splits)

lemma reaches_keeps: "reaches env L s s' \<Longrightarrow> keeps (prox s) (prox s')"
proof (induction rule: reaches.induct)
  case (refl s)
  show ?case by (simp add: keeps_def)
next
  case (more s s1 s2)
  then show ?case by (blast intro: keeps_trans sstep_keeps)
qed

text \<open>With nothing in between, the steps of the admission are \<open>admitClient\<close>.\<close>

lemma admit_run:
  assumes "serving s x = Some Handshaking" "status s = Running" "admitClient env now (prox s) x = (Some i, p)"
  shows "reaches env L s (s\<lparr>prox := p, serving := (serving s)(x \<mapsto> Attached i)\<rparr>)"
proof -
  from assms(3) obtain cc p1 where a: "clientHandshake (p_ccs (prox s) x) = (True, cc)"
    "getOrCreateManagedUpstream env (set_cc (prox s) x cc) (cc_Username cc) (cc_Password cc) (cc_Vhost cc) = (Inr i, p1)"
    "p = registerClient p1 x i" "\<not> stopped (ups p1 i)" "\<not> reconnecting (ups p1 i)"
    by (rule admitClient_Some)
  define s1 where "s1 = s\<lparr>prox := set_cc (prox s) x cc,
    serving := (serving s)(x \<mapsto> Negotiated (cc_Username cc) (cc_Password cc) (cc_Vhost cc))\<rparr>"
  define s2 where "s2 = s1\<lparr>prox := p1, serving := (serving s1)(x \<mapsto> Chosen i)\<rparr>"
  define s3 where "s3 = s2\<lparr>prox := registerClient (prox s2) x i, serving := (serving s2)(x \<mapsto> Registered i)\<rparr>"
  define s4 where "s4 = s3\<lparr>serving := (serving s3)(x \<mapsto> Tested i)\<rparr>"
  define s5 where "s5 = s4\<lparr>serving := (serving s4)(x \<mapsto> Attached i)\<rparr>"
  note defs = s1_def s2_def s3_def s4_def s5_def
  have run: "status s1 = Running" "status s2 = Running" "status s3 = Running" "status s4 = Running"
    by (simp_all add: defs assms(2))
  have "sstep env L s s1" unfolding s1_def by (rule sstep.negotiate [OF assms(1) a(1)])
  with assms(2) have "reaches env L s s1" by (blast intro: reaches.intros)
  moreover have "sstep env L s1 s2" unfolding s2_def
    by (rule sstep.choose) (use a(2) in \<open>simp_all add: s1_def chooseUpstream_Some\<close>)
  ultimately have "reaches env L s s2" using run(1) by (rule reaches_step)
  moreover have "sstep env L s2 s3" unfolding s3_def by (rule sstep.register) (simp add: s2_def)
  ultimately have "reaches env L s s3" using run(2) by (rule reaches_step)
  moreover have "sstep env L s3 s4" unfolding s4_def
    by (rule sstep.not_stopped) (use a(4) in \<open>simp_all add: s3_def s2_def\<close>)
  ultimately have "reaches env L s s4" using run(3) by (rule reaches_step)
  moreover have "sstep env L s4 s5" unfolding s5_def
    by (rule sstep.not_reconnecting) (use a(5) in \<open>simp_all add: s4_def s3_def s2_def\<close>)
  ultimately have "reaches env L s s5" using run(4) by (rule reaches_step)
  moreover have "s5 = s\<lparr>prox := p, serving := (serving s)(x \<mapsto> Attached i)\<rparr>"
    by (simp add: defs a(3))
  ultimately show ?thesis by simp
qed

section \<open>Examples\<close>

definition proxy_new :: Proxy where
  "proxy_new = proxy_ex\<lparr>upstreams := [], listening := False, activeClients := 0, fresh := 0\<rparr>"

lemma NewProxy_ex: "NewProxy env cfg_ex proxy_ex = Inr proxy_new"
  by (simp add: NewProxy_def NewAMQPListener_def cfg_ex_def proxy_new_def proxy_ex_def)

lemma proxy_new_listens: "\<exists>l. openListener (\<lambda>_. None) proxy_new = Inr l"
  by (simp add: openListener_def StartPlain_def proxy_new_def proxy_ex_def cfg_ex_def)

definition up_ex :: server where
  "up_ex = (new_server proxy_new)\<lparr>prox := proxy_new\<lparr>listening := True\<rparr>, starting := Accepting, cleaning := True\<rparr>"

lemma up_ex_fields [simp]:
  "prox up_ex = proxy_new\<lparr>listening := True\<rparr>" "starting up_ex = Accepting" "stopping up_ex = Not_stopped"
  "serving up_ex = Map.empty" "status up_ex = Running"
  by (simp_all add: up_ex_def new_server_def)

lemma up_ex_reached: "reaches env (\<lambda>_. None) (new_server proxy_new) up_ex"
proof -
  obtain l where "openListener (\<lambda>_. None) proxy_new = Inr l" using proxy_new_listens by blast
  then have "sstep env (\<lambda>_. None) (new_server proxy_new) up_ex"
    using sstep.start [of "new_server proxy_new" env "\<lambda>_. None"]
    by (simp add: up_ex_def new_server_def startProxy_def) (simp add: proxy_new_def proxy_ex_def cfg_ex_def)
  then show ?thesis by (auto intro: reaches.intros simp: new_server_def)
qed

text \<open>A broker that answers, and the first client of a proxy, of user \<open>u\<close>.\<close>

definition env_up :: net_env where
  "env_up = env_ex\<lparr>net_Dial := (\<lambda>a. Inr (new_conn, \<lparr>rdata = concat (map frame_bytes server_script), rend = EOF\<rparr>))\<rparr>"

lemma admits_first:
  assumes "p_ccs p x = p_ccs proxy_hs 9" "config p = cfg_ex" "upstreams p = []"
  shows "\<exists>i p'. admitClient env_up 0 p x = (Some i, p')"
proof -
  from proxy_hs_handshake [of p x] assms(1) obtain cc where cc: "clientHandshake (p_ccs p x) = (True, cc)"
    "cc_Username cc = ''u''" "cc_Password cc = ''p''" "cc_Vhost cc = ''/''" by blast
  let ?q = "set_cc p x cc"
  obtain c where c: "performUpstreamHandshake new_conn \<lparr>rdata = concat (map frame_bytes server_script), rend = EOF\<rparr>
      ''u'' ''p'' ''/'' = (None, c)"
    using handshake_run [OF _ client_script_ok, of new_conn "''u''" "''p''" "''/''" "[]" EOF]
    by (auto simp: live_conn_def new_conn_def)
  obtain i p1 where a: "addUpstream ?q (getPoolKey ''u'' ''p'' ''/'') ''u'' ''p'' ''/'' c = (i, p1)" by fastforce
  have q: "config ?q = cfg_ex" "upstreams ?q = []" using assms(2,3) by (simp_all add: set_cc_def)
  have "parseUpstreamURL (url_Parse env_up) (UpstreamURL cfg_ex) = Inr (''tcp'', JoinHostPort ''broker'' ''5672'')"
    by (simp add: parseUpstreamURL_def env_up_def env_ex_def)
  then have "getOrCreateManagedUpstream env_up ?q ''u'' ''p'' ''/'' = (Inr i, p1)"
    by (simp add: getOrCreate_locked getOrCreateLocked_def withCapacity_def pool_def q totalUpstreams_def cfg_ex_def
        dialUpstream_def env_up_def c a)
  then have "chooseUpstream env_up ?q x ''u'' ''p'' ''/'' = (Some i, p1)" by (simp add: chooseUpstream_Some)
  moreover have "\<not> stopped (ups p1 i)" "\<not> reconnecting (ups p1 i)"
    by (simp_all add: addUpstream_fields [OF a] newManagedUpstream_def)
  ultimately show ?thesis using cc by (simp add: admitClient_def)
qed

section \<open>Properties\<close>

text \<open>
  (C10) The invariant of the running server. In every state that the process reaches, under every
  interleaving of its goroutines: the counter \<open>activeClients\<close> is the number of client goroutines, and it and the number of
  upstreams are within their configured limits; and every upstream in a pool was opened with the
  credentials of its key.
\<close>

theorem server_invariant:
  assumes "NewProxy env cfg blank = Inr p" "reaches env net_Listen (new_server p) s"
  shows "pools_ok (prox s) \<and> finite (dom (serving s)) \<and> activeClients (prox s) = int (card (dom (serving s))) \<and>
    (MaxClientConnections (config (prox s)) > 0 \<longrightarrow> activeClients (prox s) \<le> MaxClientConnections (config (prox s))) \<and>
    (MaxUpstreamConnections (config (prox s)) > 0 \<longrightarrow>
       int (totalUpstreams (prox s)) \<le> MaxUpstreamConnections (config (prox s)))"
  using server_ok_reaches [OF assms(2) server_ok_new [OF assms(1)]] unfolding server_ok_def limits_ok_def by blast

theorem server_invariant_witness:
  "\<exists>s. reaches env_ex (\<lambda>_. None) (new_server proxy_new) s \<and> serving s = [9 \<mapsto> Handshaking] \<and> activeClients (prox s) = 1"
proof -
  obtain p where p: "acceptConn (prox up_ex) 9 (p_ccs proxy_ex 9) = Launched p"
    by (simp add: acceptConn_def) (simp add: proxy_new_def proxy_ex_def cfg_ex_def)
  let ?s = "up_ex\<lparr>prox := p, serving := [9 \<mapsto> Handshaking]\<rparr>"
  have "sstep env_ex (\<lambda>_. None) up_ex ?s" using sstep.accepted [of up_ex 9, OF _ _ p, of env_ex "\<lambda>_. None"] by simp
  with up_ex_reached have r: "reaches env_ex (\<lambda>_. None) (new_server proxy_new) ?s" by (rule reaches_step) simp
  from server_invariant [OF NewProxy_ex r] r show ?thesis by (intro exI [of _ ?s]) simp
qed

text \<open>
  (C18) How a client comes to be served. In every state that the process reaches, under every
  interleaving of the steps, a client in its loop on upstream \<open>i\<close> has before, in this order and
  while its goroutine was running: sent the exact protocol header and completed the handshake with a
  non-empty user name; been registered at \<open>i\<close>; then seen \<open>i\<close> not stopped; and then seen \<open>i\<close> not
  reconnecting. And \<open>i\<close> was opened, and still is, with the user name, password and virtual host
  of this handshake. What the tests saw may be outdated by the time the loop begins.
\<close>

theorem attached_client:
  assumes "NewProxy env cfg blank = Inr p" "reaches env net_Listen (new_server p) s" "serving s x = Some (Attached i)"
  shows "\<exists>s1 s2 s3 s4 r cc. reaches env net_Listen (new_server p) s1 \<and> serves env net_Listen x s1 s2 \<and>
    serves env net_Listen x s2 s3 \<and> serves env net_Listen x s3 s4 \<and> serves env net_Listen x s4 s \<and>
    serving s1 x = Some Handshaking \<and> ReadFull (Reader (p_ccs (prox s1) x)) 8 = (Inr ProtocolHeader, r) \<and>
    Handle ((p_ccs (prox s1) x)\<lparr>Reader := r\<rparr>) = (None, cc) \<and> cc_Username cc \<noteq> [] \<and>
    serving s2 x = Some (Registered i) \<and> x \<in> set (clients (ups (prox s2) i)) \<and>
    serving s3 x = Some (Registered i) \<and> \<not> stopped (ups (prox s3) i) \<and>
    serving s4 x = Some (Tested i) \<and> \<not> reconnecting (ups (prox s4) i) \<and>
    creds (ups (prox s) i) = (cc_Username cc, cc_Password cc, cc_Vhost cc)"
proof -
  have n: "serving (new_server p) x \<noteq> Some ph" for ph by (simp add: new_server_def)
  note before = phase_before [OF _ _ n]
  from before [OF assms(2,3)] obtain s4 u4 where s4: "reaches env net_Listen (new_server p) s4"
    "entered env x (Attached i) s4 u4" "serves env net_Listen x u4 s" "serving s4 x \<noteq> None \<Longrightarrow> serves env net_Listen x s4 u4"
    by metis
  then have p4: "serving s4 x = Some (Tested i)" "\<not> reconnecting (ups (prox s4) i)" by simp_all
  from before [OF s4(1) p4(1)] obtain s3 u3 where s3: "reaches env net_Listen (new_server p) s3"
    "entered env x (Tested i) s3 u3" "serves env net_Listen x u3 s4" "serving s3 x \<noteq> None \<Longrightarrow> serves env net_Listen x s3 u3"
    by metis
  then have p3: "serving s3 x = Some (Registered i)" "\<not> stopped (ups (prox s3) i)" by simp_all
  from before [OF s3(1) p3(1)] obtain t2 s2 where s2: "reaches env net_Listen (new_server p) t2" "serving s2 x = Some (Registered i)"
    "entered env x (Registered i) t2 s2" "serves env net_Listen x s2 s3" "serving t2 x \<noteq> None \<Longrightarrow> serves env net_Listen x t2 s2"
    by metis
  then have p2: "serving t2 x = Some (Chosen i)" "x \<in> set (clients (ups (prox s2) i))" by simp_all
  from before [OF s2(1) p2(1)] obtain t1 u1 where t1: "reaches env net_Listen (new_server p) t1" "serving u1 x = Some (Chosen i)"
    "entered env x (Chosen i) t1 u1" "serves env net_Listen x u1 t2" "serving t1 x \<noteq> None \<Longrightarrow> serves env net_Listen x t1 u1"
    by metis
  then obtain u pw v where p1: "serving t1 x = Some (Negotiated u pw v)"
    "getOrCreateManagedUpstream env (prox t1) u pw v = (Inr i, prox u1)" by auto
  from before [OF t1(1) p1(1)] obtain s1 u0 where s1: "reaches env net_Listen (new_server p) s1"
    "entered env x (Negotiated u pw v) s1 u0" "serves env net_Listen x u0 t1" "serving s1 x \<noteq> None \<Longrightarrow> serves env net_Listen x s1 u0"
    by metis
  then obtain cc r where p0: "serving s1 x = Some Handshaking" "ReadFull (Reader (p_ccs (prox s1) x)) 8 = (Inr ProtocolHeader, r)"
    "Handle ((p_ccs (prox s1) x)\<lparr>Reader := r\<rparr>) = (None, cc)" "cc_Username cc \<noteq> []"
    "(u, pw, v) = (cc_Username cc, cc_Password cc, cc_Vhost cc)" by (auto simp: clientHandshake_True)
  have chain: "serves env net_Listen x s1 t1" "serves env net_Listen x t1 u1" "serves env net_Listen x u1 s2"
    "serves env net_Listen x s2 s3" "serves env net_Listen x s3 s4" "serves env net_Listen x s4 s"
    using s1(3,4) t1(4,5) s2(4,5) s3(3,4) s4(3,4) p0(1) p1(1) p2(1) p3(1) p4(1) by (auto intro: serves_trans)
  have "pools_ok (prox t1)"
    using server_ok_reaches [OF t1(1) server_ok_new [OF assms(1)]] by (simp add: server_ok_def limits_ok_def)
  from getOrCreateLocked_pool [OF this p1(2) [unfolded getOrCreate_locked]]
  have up: "creds (ups (prox u1) i) = (u, pw, v)" "i < fresh (prox u1)"
    using pool_member [of "prox u1" i u pw v] by (auto simp: creds_def)
  have "reaches env net_Listen u1 s"
    using serves_reaches [OF _ reaches.refl] chain(3-6) by (blast intro: serves_trans)
  with up reaches_keeps have "creds (ups (prox s) i) = (cc_Username cc, cc_Password cc, cc_Vhost cc)"
    using p0(5) by (fastforce simp: keeps_def)
  with s1(1) p0 p2(2) p3 p4 s2(2) serves_trans [OF chain(3) serves_trans [OF chain(2,1)]] chain(4-6) show ?thesis by blast
qed

theorem attached_client_witness:
  "\<exists>s i s4. reaches env_up (\<lambda>_. None) (new_server proxy_new) s \<and> serving s 9 = Some (Attached i) \<and>
     reaches env_up (\<lambda>_. None) (new_server proxy_new) s4 \<and> serving s4 9 = Some (Tested i) \<and> \<not> reconnecting (ups (prox s4) i)"
proof -
  obtain p where p: "acceptConn (prox up_ex) 9 (p_ccs proxy_hs 9) = Launched p"
    by (simp add: acceptConn_def) (simp add: proxy_new_def proxy_ex_def cfg_ex_def)
  define s1 where "s1 = up_ex\<lparr>prox := p, serving := [9 \<mapsto> Handshaking]\<rparr>"
  have "sstep env_up (\<lambda>_. None) up_ex s1"
    using sstep.accepted [of up_ex 9, OF _ _ p, of env_up "\<lambda>_. None"] by (simp add: s1_def)
  with up_ex_reached have r1: "reaches env_up (\<lambda>_. None) (new_server proxy_new) s1" by (rule reaches_step) simp
  have "p_ccs p 9 = p_ccs proxy_hs 9" "config p = cfg_ex" "upstreams p = []"
    using p by (auto simp: acceptConn_def set_cc_def proxy_new_def proxy_ex_def split: if_splits)
  from admits_first [OF this] obtain i p' where a: "admitClient env_up 0 p 9 = (Some i, p')" by blast
  define s where "s = s1\<lparr>prox := p', serving := (serving s1)(9 \<mapsto> Attached i)\<rparr>"
  have "reaches env_up (\<lambda>_. None) s1 s" unfolding s_def
    by (rule admit_run [of _ _ _ 0]) (use a in \<open>simp_all add: s1_def\<close>)
  from reaches_trans [OF this r1] have r: "reaches env_up (\<lambda>_. None) (new_server proxy_new) s" .
  have at: "serving s 9 = Some (Attached i)" by (simp add: s_def)
  from attached_client [OF NewProxy_ex r at] obtain t1 t2 t3 s4 where
    c: "reaches env_up (\<lambda>_. None) (new_server proxy_new) t1" "serves env_up (\<lambda>_. None) 9 t1 t2" "serves env_up (\<lambda>_. None) 9 t2 t3"
      "serves env_up (\<lambda>_. None) 9 t3 s4" "serving s4 9 = Some (Tested i)" "\<not> reconnecting (ups (prox s4) i)"
    by blast
  from c(1-4) have "reaches env_up (\<lambda>_. None) (new_server proxy_new) s4" by (blast intro: serves_reaches)
  with r at c(5,6) show ?thesis by blast
qed

text \<open>
  (C20) Regular exit. The process ends regularly only after \<open>Start\<close> and \<open>Stop\<close> have returned,
  with the listener closed; and unless the wait of 30 s ran out, every client
  goroutine has finished, so that no connection is cut off in the middle.
\<close>

theorem exit_drained:
  assumes "NewProxy env cfg blank = Inr p" "reaches env net_Listen (new_server p) s" "status s = Exit_ok"
  shows "starting s = Returned None \<and> \<not> listening (prox s) \<and>
    (\<exists>late. stopping s = Stop_done late \<and> (late \<or> serving s = Map.empty \<and> activeClients (prox s) = 0))"
proof -
  have ok: "server_ok s" "life_ok s"
    using server_ok_reaches [OF assms(2) server_ok_new] life_ok_reaches [OF assms(2) server_ok_new life_ok_new] assms(1)
    by blast+
  then have "starting s = Returned None" "\<exists>late. stopping s = Stop_done late" "\<not> listening (prox s)"
    using assms(3) by (auto simp: life_ok_def)
  with ok show ?thesis by (auto simp: life_ok_def server_ok_def)
qed

theorem exit_drained_witness:
  "\<exists>s. reaches env_ex (\<lambda>_. None) (new_server proxy_new) s \<and> status s = Exit_ok \<and> \<not> listening (prox s)"
proof -
  define s1 where "s1 = up_ex\<lparr>prox := Stop (prox up_ex), stopping := Draining\<rparr>"
  define s2 where "s2 = s1\<lparr>stopping := Stop_done False\<rparr>"
  define s3 where "s3 = s2\<lparr>starting := Returned None, cleaning := False\<rparr>"
  define s4 where "s4 = s3\<lparr>status := Exit_ok\<rparr>"
  note defs = s1_def s2_def s3_def s4_def
  have "sstep env_ex (\<lambda>_. None) up_ex s1" unfolding s1_def by (rule sstep.signal) simp
  with up_ex_reached have "reaches env_ex (\<lambda>_. None) (new_server proxy_new) s1" by (rule reaches_step) simp
  moreover have "sstep env_ex (\<lambda>_. None) s1 s2" unfolding s2_def by (rule sstep.drained) (simp_all add: s1_def)
  ultimately have "reaches env_ex (\<lambda>_. None) (new_server proxy_new) s2" by (rule reaches_step) (simp add: defs)
  moreover have "sstep env_ex (\<lambda>_. None) s2 s3" unfolding s3_def
    by (rule sstep.accept_closed [of _ ErrClosed]) (simp_all add: defs)
  ultimately have "reaches env_ex (\<lambda>_. None) (new_server proxy_new) s3" by (rule reaches_step) (simp add: defs)
  moreover have "sstep env_ex (\<lambda>_. None) s3 s4" unfolding s4_def
    by (rule sstep.exit_main [of _ False]) (simp_all add: defs)
  ultimately have r: "reaches env_ex (\<lambda>_. None) (new_server proxy_new) s4" by (rule reaches_step) (simp add: defs)
  have x: "status s4 = Exit_ok" by (simp add: s4_def)
  from exit_drained [OF NewProxy_ex r x] r x show ?thesis by blast
qed

text \<open>
  (C37) A signal that comes before \<open>Start\<close> has opened the listener is lost. \<open>Stop\<close> then finds no listener and no client, and
  returns; \<open>Start\<close> opens the listener afterwards, and from then on the process never exits
  regularly, since \<open>Stop\<close> is called only once.
\<close>

theorem signal_lost:
  assumes "NewProxy env cfg blank = Inr p" "openListener net_Listen p = Inr l"
  shows "\<exists>s. reaches env net_Listen (new_server p) s \<and> stopping s = Stop_done False \<and> starting s = Accepting \<and>
    listening (prox s) \<and>
    (\<forall>s'. reaches env net_Listen s s' \<longrightarrow> status s' \<noteq> Exit_ok \<and> starting s' = Accepting \<and> listening (prox s'))"
proof -
  define s1 where "s1 = (new_server p)\<lparr>prox := Stop p, stopping := Draining\<rparr>"
  define s2 where "s2 = s1\<lparr>stopping := Stop_done False\<rparr>"
  define s3 where "s3 = s2\<lparr>prox := (Stop p)\<lparr>listening := True\<rparr>, starting := Accepting, cleaning := PoolIdleTimeout (config p) > 0\<rparr>"
  note defs = s1_def s2_def s3_def new_server_def
  have "sstep env net_Listen (new_server p) s1"
    using sstep.signal [of "new_server p" env net_Listen] by (simp add: defs)
  moreover have "sstep env net_Listen s1 s2" unfolding s2_def by (rule sstep.drained) (simp_all add: defs)
  moreover have "openListener net_Listen (Stop p) = openListener net_Listen p" by (simp add: openListener_def)
  with assms(2) have "openListener net_Listen (prox s2) = Inr l" by (simp add: defs)
  then have "sstep env net_Listen s2 s3" using sstep.start [of s2 env net_Listen] by (simp add: defs startProxy_def)
  moreover have "status (new_server p) = Running" "status s1 = Running" "status s2 = Running" by (simp_all add: defs)
  ultimately have r: "reaches env net_Listen (new_server p) s3"
    using reaches.refl [of env net_Listen "new_server p"] by (blast intro: reaches_step)
  have "server_ok s3" using server_ok_reaches [OF r server_ok_new [OF assms(1)]] .
  with r stuck_reaches [of env net_Listen s3 _ False] show ?thesis by (intro exI [of _ s3]) (simp add: defs)
qed

theorem signal_lost_witness:
  "\<exists>s. reaches env_ex (\<lambda>_. None) (new_server proxy_new) s \<and> stopping s = Stop_done False \<and> starting s = Accepting \<and>
    listening (prox s)"
proof -
  obtain l where "openListener (\<lambda>_. None) proxy_new = Inr l" using proxy_new_listens by blast
  from signal_lost [OF NewProxy_ex this] show ?thesis by blast
qed

text \<open>
  A client that was still in its handshake when \<open>Stop\<close> ran is not disconnected: when its handshake
  completes it gets a new upstream, dialled after the shutdown and not stopped by it, and \<open>Stop\<close>
  waits for that client.
\<close>

theorem late_upstream:
  assumes "stopping s = Not_stopped" "serving s x = Some Handshaking" "status s = Running"
    and "admitClient env now (Stop (prox s)) x = (Some i, p')"
  shows "\<exists>s'. reaches env net_Listen s s' \<and> stopping s' = Draining \<and> serving s' x = Some (Attached i) \<and>
    i = fresh (prox s) \<and> concat (map snd (upstreams (prox s'))) = [i] \<and> \<not> stopped (ups (prox s') i) \<and>
    writeDone (ups (prox s') i) \<notin> doneClosed (ups (prox s') i) \<and> x \<in> set (clients (ups (prox s') i))"
proof -
  define s1 where "s1 = s\<lparr>prox := Stop (prox s), stopping := Draining\<rparr>"
  define s2 where "s2 = s1\<lparr>prox := p', serving := (serving s1)(x \<mapsto> Attached i)\<rparr>"
  have "sstep env net_Listen s s1" unfolding s1_def by (rule sstep.signal [OF assms(1)])
  with assms(3) have "reaches env net_Listen s s1" by (auto intro: reaches.intros)
  moreover have "reaches env net_Listen s1 s2" unfolding s2_def
    by (rule admit_run [of _ _ _ now]) (use assms(2-4) in \<open>simp_all add: s1_def\<close>)
  ultimately have r: "reaches env net_Listen s s2" by (blast intro: reaches_trans)
  obtain cc p1 where a: "getOrCreateLocked env (set_cc (Stop (prox s)) x cc) (cc_Username cc) (cc_Password cc) (cc_Vhost cc) = (Inr i, p1)"
    "p' = registerClient p1 x i" "\<not> stopped (ups p1 i)"
    using assms(4) by (rule admitClient_Some) (auto simp: getOrCreate_locked)
  have e: "upstreams (set_cc (Stop (prox s)) x cc) = []" "fresh (set_cc (Stop (prox s)) x cc) = fresh (prox s)"
    by (simp_all add: set_cc_def)
  from a(1) have "i = fresh (prox s) \<and> concat (map snd (upstreams p1)) = [i] \<and> writeDone (ups p1 i) \<notin> doneClosed (ups p1 i)"
  proof (cases rule: getOrCreateLocked_cases)
    case (found j)
    then show ?thesis by (simp add: withCapacity_def pool_def e)
  next
    case (created j c)
    with addUpstream_fields [OF created(3)] e show ?thesis by (simp add: pool_def newManagedUpstream_def)
  qed simp
  with a(2,3) r show ?thesis by (intro exI [of _ s2]) (auto simp: s2_def s1_def registerClient_def set_up_def Register_def)
qed

text \<open>A server whose client 9 has connected and not yet sent its handshake.\<close>

definition server_hs :: server where
  "server_hs = (new_server proxy_hs)\<lparr>starting := Accepting, serving := [9 \<mapsto> Handshaking]\<rparr>"

lemma late_admission: "\<exists>i p'. admitClient env_up 0 (Stop proxy_hs) 9 = (Some i, p')"
proof -
  have "p_ccs (Stop proxy_hs) 9 = p_ccs proxy_hs 9"
    by (simp add: Stop_def Let_def stopUpstream_def AbortAllClients_def stopWritePump_def proxy_hs_def proxy_ex_def
        newManagedUpstream_def)
  then show ?thesis by (rule admits_first) (simp_all add: proxy_hs_def proxy_ex_def)
qed

theorem late_upstream_witness:
  "\<exists>s' i. reaches env_up (\<lambda>_. None) server_hs s' \<and> stopping s' = Draining \<and> serving s' 9 = Some (Attached i) \<and>
    \<not> stopped (ups (prox s') i)"
proof -
  obtain i p' where "admitClient env_up 0 (Stop (prox server_hs)) 9 = (Some i, p')"
    using late_admission by (auto simp: server_hs_def new_server_def)
  moreover have "stopping server_hs = Not_stopped" "serving server_hs 9 = Some Handshaking" "status server_hs = Running"
    by (simp_all add: server_hs_def new_server_def)
  ultimately show ?thesis using late_upstream [of server_hs 9 env_up 0 i p' "\<lambda>_. None"] by blast
qed

text \<open>
  (C40) The listener. On an address that can be bound, \<open>Start\<close> never fails; it opens a TLS listener with the
  configured key pair exactly when certificate and key are configured, and that listener demands a
  client certificate exactly when a CA certificate is configured, which is documented as the CA of the
  upstream. Without a key pair the CA certificate has no effect on the clients.
\<close>

theorem listener_mode:
  assumes "NewProxy env cfg blank = Inr p" "net_Listen (listenAddr cfg) = None"
  shows "case openListener net_Listen p of
      Inl err \<Rightarrow> False
    | Inr (Plain_listener addr) \<Rightarrow> addr = listenAddr cfg \<and> (TLSCert cfg = [] \<or> TLSKey cfg = [])
    | Inr (TLS_listener addr c) \<Rightarrow> addr = listenAddr cfg \<and> TLSCert cfg \<noteq> [] \<and> TLSKey cfg \<noteq> [] \<and>
        (\<exists>cert. LoadX509KeyPair (files env) (TLSCert cfg) (TLSKey cfg) = Inr cert \<and> Certificates c = [cert]) \<and>
        (RequireAndVerifyClientCert c \<longleftrightarrow> TLSCACert cfg \<noteq> [])"
proof -
  obtain t where t: "NewAMQPListener (files env) cfg = Inr t" "listenerTLS p = t" "config p = cfg"
    using assms(1) by (auto simp: NewProxy_def split: sum.splits)
  show ?thesis
  proof (cases "TLSCert cfg \<noteq> [] \<and> TLSKey cfg \<noteq> []")
    case False
    with t(3) assms(2) show ?thesis by (auto simp: openListener_def StartPlain_def)
  next
    case True
    then obtain cert c where c: "LoadX509KeyPair (files env) (TLSCert cfg) (TLSKey cfg) = Inr cert" "t = Some c"
      "Certificates c = [cert]" "RequireAndVerifyClientCert c \<longleftrightarrow> TLSCACert cfg \<noteq> []"
      using t(1) by (auto simp: NewAMQPListener_def empty_tls_def Let_def split: sum.splits if_splits)
    with True t assms(2) show ?thesis by (simp add: openListener_def StartTLS_def Let_def)
  qed
qed

theorem listener_mode_witness:
  "openListener (\<lambda>_. None) proxy_new = Inr (Plain_listener (listenAddr cfg_ex))"
  using listener_mode [OF NewProxy_ex [of env_ex], of "\<lambda>_. None"]
  by (auto simp: cfg_ex_def split: sum.splits listener.splits)

end
