(* ===== verification/Metrics.thy ===== *)
theory Metrics
  imports Amqp_Proxy
begin

text \<open>
  \<open>proxy/metrics.go\<close>: the numbers that the metrics endpoint reports, collected under the proxy's
  lock in the record \<open>snapshot\<close>, and the text of the response, in the Prometheus format. A reader of
  that format, which skips the comments and splits each line at the space, is the reference that the
  text is checked against.
\<close>

section \<open>Collecting\<close>

record snapshot =
  s_activeClients :: int
  upstreamTotal :: nat
  upstreamReconnecting :: nat
  channelsUsed :: nat
  channelsPendingClose :: nat
  reconnectAttempts :: int

text \<open>The body of the inner loop of \<open>MetricsHandler\<close>.\<close>

definition count :: "snapshot \<Rightarrow> ManagedUpstream \<Rightarrow> snapshot" where
  "count s m =
     s\<lparr>upstreamTotal := upstreamTotal s + 1,
       upstreamReconnecting := (if conn m = None then upstreamReconnecting s + 1 else upstreamReconnecting s),
       channelsUsed := channelsUsed s + card (usedChannels m),
       channelsPendingClose := channelsPendingClose s + card (pendingClose m),
       reconnectAttempts := reconnectAttempts s + reconnectTotal m\<rparr>"

definition collect :: "Proxy \<Rightarrow> snapshot" where
  "collect p =
     foldl (\<lambda>s i. count s (ups p i))
       \<lparr>s_activeClients = activeClients p, upstreamTotal = 0, upstreamReconnecting = 0, channelsUsed = 0,
        channelsPendingClose = 0, reconnectAttempts = 0\<rparr>
       (concat (map snd (upstreams p)))"

section \<open>The response\<close>

text \<open>The status, the content type and the body.\<close>

record http_response =
  code :: nat
  contentType :: string
  body :: string

definition newline :: char where
  "newline = CHR 0x0A"

text \<open>The three calls of \<open>fmt.Fprintf\<close> for one metric.\<close>

definition metric :: "string \<Rightarrow> string \<Rightarrow> string \<Rightarrow> int \<Rightarrow> string" where
  "metric name help kind n =
     ''# HELP '' @ name @ '' '' @ help @ [newline] @
     ''# TYPE '' @ name @ '' '' @ kind @ [newline] @
     name @ '' '' @ decInt n @ [newline]"

definition MetricsHandler :: "Proxy \<Rightarrow> http_response" where
  "MetricsHandler p =
     (let s = collect p
      in \<lparr>code = 200, contentType = ''text/plain; version=0.0.4; charset=utf-8'',
          body =
            metric ''amqplex_active_clients'' ''Current number of connected clients.'' ''gauge'' (s_activeClients s) @
            metric ''amqplex_upstream_connections'' ''Total upstream AMQP connections.'' ''gauge''
              (int (upstreamTotal s)) @
            metric ''amqplex_upstream_reconnecting'' ''Upstream connections currently in reconnect loop.'' ''gauge''
              (int (upstreamReconnecting s)) @
            metric ''amqplex_channels_used'' ''Total AMQP channels currently allocated.'' ''gauge''
              (int (channelsUsed s)) @
            metric ''amqplex_channels_pending_close'' ''Channels awaiting Channel.CloseOk from broker.'' ''gauge''
              (int (channelsPendingClose s)) @
            metric ''amqplex_upstream_reconnect_attempts_total''
              ''Cumulative upstream reconnect attempts since proxy start.'' ''counter'' (reconnectAttempts s)\<rparr>)"

section \<open>A reader of the format\<close>

fun lines_from :: "string \<Rightarrow> string \<Rightarrow> string list" where
  "lines_from cur [] = []"
| "lines_from cur (c # s) = (if c = newline then rev cur # lines_from [] s else lines_from (c # cur) s)"

definition sample :: "string \<Rightarrow> (string \<times> int) option" where
  "sample l =
     (if take 1 l = ''#'' then None
      else Some (takeWhile (\<lambda>c. c \<noteq> CHR '' '') l, undecInt (drop 1 (dropWhile (\<lambda>c. c \<noteq> CHR '' '') l))))"

definition scrape :: "string \<Rightarrow> (string \<times> int) list" where
  "scrape s = List.map_filter sample (lines_from [] s)"

lemma lines_from_line: "newline \<notin> set l \<Longrightarrow> lines_from cur (l @ newline # s) = (rev cur @ l) # lines_from [] s"
  by (induction l arbitrary: cur) auto

lemma scrape_line:
  "newline \<notin> set l \<Longrightarrow> scrape (l @ newline # s) = (case sample l of None \<Rightarrow> [] | Some x \<Rightarrow> [x]) @ scrape s"
  by (simp add: scrape_def lines_from_line map_filter_simps split: option.splits)

lemma sample_value:
  assumes "CHR '' '' \<notin> set name" "take 1 name \<noteq> ''#''" "name \<noteq> []"
  shows "sample (name @ CHR '' '' # decInt n) = Some (name, n)"
proof -
  have "\<And>c. c \<in> set name \<Longrightarrow> c \<noteq> CHR '' ''" using assms(1) by auto
  then have "takeWhile (\<lambda>c. c \<noteq> CHR '' '') (name @ CHR '' '' # decInt n) = name"
    "dropWhile (\<lambda>c. c \<noteq> CHR '' '') (name @ CHR '' '' # decInt n) = CHR '' '' # decInt n"
    by (simp_all add: takeWhile_append2 dropWhile_append2)
  moreover have "take 1 (name @ CHR '' '' # decInt n) = take 1 name" using assms(3) by (cases name) simp_all
  ultimately show ?thesis using assms(2) by (simp add: sample_def undecInt_decInt del: undecInt.simps)
qed

lemma newline_decInt: "newline \<notin> set (decInt n)"
  using decInt_char [of newline n] by (auto simp: newline_def)

lemma scrape_metric:
  assumes "newline \<notin> set (name @ help @ kind)" "CHR '' '' \<notin> set name" "take 1 name \<noteq> ''#''" "name \<noteq> []"
  shows "scrape (metric name help kind n @ s) = (name, n) # scrape s"
proof -
  have h: "scrape ((''# HELP '' @ name @ '' '' @ help) @ newline # t) = scrape t" for t
    using assms(1) by (subst scrape_line) (auto simp: sample_def newline_def)
  have k: "scrape ((''# TYPE '' @ name @ '' '' @ kind) @ newline # t) = scrape t" for t
    using assms(1) by (subst scrape_line) (auto simp: sample_def newline_def)
  have "newline \<notin> set (name @ CHR '' '' # decInt n)"
    using assms(1) newline_decInt by (auto simp: newline_def)
  from scrape_line [OF this, of s]
  have v: "scrape ((name @ CHR '' '' # decInt n) @ newline # s) = (name, n) # scrape s"
    unfolding sample_value [OF assms(2-4)] by simp
  have "metric name help kind n @ s = (''# HELP '' @ name @ '' '' @ help) @ newline #
      (''# TYPE '' @ name @ '' '' @ kind) @ newline # (name @ CHR '' '' # decInt n) @ newline # s"
    by (simp add: metric_def)
  then show ?thesis by (simp only: h k v)
qed

lemma scrape_last_metric:
  assumes "newline \<notin> set (name @ help @ kind)" "CHR '' '' \<notin> set name" "take 1 name \<noteq> ''#''" "name \<noteq> []"
  shows "scrape (metric name help kind n) = [(name, n)]"
  using scrape_metric [OF assms, of n "[]"] by (simp add: scrape_def map_filter_simps)

section \<open>The numbers\<close>

lemma count_all:
  "upstreamTotal (foldl (\<lambda>s i. count s (f i)) s is) = upstreamTotal s + length is"
  "upstreamReconnecting (foldl (\<lambda>s i. count s (f i)) s is) =
     upstreamReconnecting s + length (filter (\<lambda>i. conn (f i) = None) is)"
  "channelsUsed (foldl (\<lambda>s i. count s (f i)) s is) = channelsUsed s + (\<Sum>i\<leftarrow>is. card (usedChannels (f i)))"
  "channelsPendingClose (foldl (\<lambda>s i. count s (f i)) s is) =
     channelsPendingClose s + (\<Sum>i\<leftarrow>is. card (pendingClose (f i)))"
  "s_activeClients (foldl (\<lambda>s i. count s (f i)) s is) = s_activeClients s"
  "reconnectAttempts (foldl (\<lambda>s i. count s (f i)) s is) = reconnectAttempts s + (\<Sum>i\<leftarrow>is. reconnectTotal (f i))"
  by (induction "is" arbitrary: s) (simp_all add: count_def)

lemma length_pools: "length (concat (map snd l)) = sum_list (map (\<lambda>(key, is). length is) l)"
  by (induction l) auto

text \<open>A failure of an upstream, which starts its reconnect, changes no number.\<close>

lemma collect_failure:
  "collect (put_world p i (snd (handleUpstreamFailure (world_of p i)))) = collect p"
proof -
  let ?p = "put_world p i (snd (handleUpstreamFailure (world_of p i)))"
  have "count s (ups ?p j) = count s (ups p j)" for s j
    by (simp add: put_world_def handleUpstreamFailure_def world_of_def count_def)
  then have "foldl (\<lambda>s i. count s (ups ?p i)) s l = foldl (\<lambda>s i. count s (ups p i)) s l" for s l
    by (induction l arbitrary: s) simp_all
  then show ?thesis by (simp add: collect_def) (simp add: put_world_def)
qed

section \<open>Properties\<close>

text \<open>
  (C39) The metrics can be read back. A reader of the exposition format that scrapes the response gets
  exactly the six metrics, in order, with the number of active clients, of upstreams, of upstreams without a
  connection, of channels in use and of channels awaiting \<open>CloseOk\<close>, summed over all upstreams of all pools, and
  of reconnect attempts. The third is meant to count the reconnecting upstreams and does not: the
  failure of an upstream, which starts its reconnect, leaves the whole response as it was.
\<close>

theorem metrics_roundtrip:
  "let ids = concat (map snd (upstreams p)) in
   scrape (body (MetricsHandler p)) =
     [(''amqplex_active_clients'', activeClients p),
      (''amqplex_upstream_connections'', int (totalUpstreams p)),
      (''amqplex_upstream_reconnecting'', int (length (filter (\<lambda>i. conn (ups p i) = None) ids))),
      (''amqplex_channels_used'', int (\<Sum>i\<leftarrow>ids. card (usedChannels (ups p i)))),
      (''amqplex_channels_pending_close'', int (\<Sum>i\<leftarrow>ids. card (pendingClose (ups p i)))),
      (''amqplex_upstream_reconnect_attempts_total'', \<Sum>i\<leftarrow>ids. reconnectTotal (ups p i))] \<and>
   MetricsHandler (put_world p i (snd (handleUpstreamFailure (world_of p i)))) = MetricsHandler p"
  unfolding MetricsHandler_def Let_def collect_failure
  by (simp add: scrape_metric scrape_last_metric newline_def collect_def count_all totalUpstreams_def length_pools)

end
