(* ===== verification/Main_Program.thy ===== *)
theory Main_Program
  imports Proxy_Server Metrics
begin

text \<open>
  \<open>main.go\<close> and \<open>LoadConfig\<close> of \<open>config/config.go\<close>: from the command line and the configuration to the
  proxy. \<open>parseFlags\<close> has the parsing of the package \<open>flag\<close> written out for the one flag the
  program defines. The library viper is the parameter \<open>viper\<close>: what it has been told (defaults,
  prefix of the environment variables, file, key replacer) is the record \<open>viper_state\<close>, and
  reading a file and looking up a key are its functions. Then \<open>main\<close> up to the point where its
  goroutines run, from where the process is the machine of \<open>Proxy_Server\<close>, and the admin endpoint: the handler of
  \<open>health/health.go\<close> and the routing between it and the metrics.
\<close>

section \<open>Configuration\<close>

datatype vval = VStr string | VInt int

record viper_state =
  defaults :: "(string \<times> vval) list"
  envPrefix :: string
  automaticEnv :: bool
  configFile :: string
  searchPaths :: "string list"
  keyReplacer :: bool

record viper =
  ReadInConfig :: "viper_state \<Rightarrow> go_error option"
  GetString :: "viper_state \<Rightarrow> string \<Rightarrow> string"
  GetInt :: "viper_state \<Rightarrow> string \<Rightarrow> int"
  GetBool :: "viper_state \<Rightarrow> string \<Rightarrow> bool"

definition config_defaults :: "(string \<times> vval) list" where
  "config_defaults =
     [(''listen.address'', VStr ''0.0.0.0''), (''listen.port'', VInt 5673), (''listen.admin_port'', VInt 9099),
      (''pool.idle_timeout'', VInt 5), (''pool.max_channels'', VInt 65535),
      (''pool.max_upstream_connections'', VInt 0), (''pool.max_client_connections'', VInt 0),
      (''pool.cleanup_interval'', VInt 30)]"

definition LoadConfig :: "viper \<Rightarrow> string \<Rightarrow> string \<Rightarrow> Config result" where
  "LoadConfig lib configPath prefix =
     (let v = \<lparr>defaults = config_defaults, envPrefix = '''', automaticEnv = False, configFile = '''',
               searchPaths = [], keyReplacer = False\<rparr>;
          v = (if prefix \<noteq> '''' then v\<lparr>envPrefix := prefix, automaticEnv := True\<rparr> else v)
      in case (if configPath \<noteq> ''''
               then let v = v\<lparr>configFile := configPath\<rparr>
                    in (case ReadInConfig lib v of
                          Some err \<Rightarrow> Inl (Wrapf ''failed to read config: %w'' [] err)
                        | None \<Rightarrow> Inr v)
               else Inr (v\<lparr>searchPaths := [''.'', ''/etc/amqplex'']\<rparr>)) of
           Inl err \<Rightarrow> Inl err
         | Inr v \<Rightarrow>
             let v = v\<lparr>keyReplacer := True\<rparr>
             in Inr \<lparr>ListenAddress = GetString lib v ''listen.address'',
                     ListenPort = GetInt lib v ''listen.port'',
                     AdminPort = GetInt lib v ''listen.admin_port'',
                     PoolIdleTimeout = GetInt lib v ''pool.idle_timeout'',
                     PoolMaxChannels = GetInt lib v ''pool.max_channels'',
                     MaxUpstreamConnections = GetInt lib v ''pool.max_upstream_connections'',
                     MaxClientConnections = GetInt lib v ''pool.max_client_connections'',
                     PoolCleanupInterval = GetInt lib v ''pool.cleanup_interval'',
                     UpstreamURL = GetString lib v ''upstream.url'',
                     TLSCert = GetString lib v ''tls.cert'', TLSKey = GetString lib v ''tls.key'',
                     TLSCACert = GetString lib v ''tls.ca_cert'', TLSClientCert = GetString lib v ''tls.client_cert'',
                     TLSClientKey = GetString lib v ''tls.client_key'', TLSSkipVerify = GetBool lib v ''tls.skip_verify''\<rparr>)"

section \<open>Command line\<close>

text \<open>The value after the first \<open>=\<close> of a flag's name, if there is one.\<close>

fun cutEq :: "string \<Rightarrow> string \<times> string option" where
  "cutEq [] = ([], None)"
| "cutEq (c # s) = (if c = CHR ''='' then ([], Some s) else (case cutEq s of (n, v) \<Rightarrow> (c # n, v)))"

text \<open>\<open>flagSet.Parse\<close>: the value of \<open>-config\<close> and the remaining arguments.\<close>

fun flagParse :: "string \<Rightarrow> string list \<Rightarrow> (string \<times> string list) result" where
  "flagParse conf [] = Inr (conf, [])"
| "flagParse conf (s # args) =
     (if length s < 2 \<or> s ! 0 \<noteq> CHR ''-'' then Inr (conf, s # args)
      else if s = ''--'' then Inr (conf, args)
      else let nm = (if s ! 1 = CHR ''-'' then drop 2 s else drop 1 s)
           in if nm ! 0 = CHR ''-'' \<or> nm ! 0 = CHR ''='' then Inl (Errorf ''bad flag syntax: %s'' [] [s])
              else (case cutEq nm of
                (flag, val) \<Rightarrow>
                  if flag \<noteq> ''config''
                  then Inl (if flag = ''help'' \<or> flag = ''h'' then New ''flag: help requested''
                            else Errorf ''flag provided but not defined: -%s'' [] [flag])
                  else (case (val, args) of
                          (Some x, _) \<Rightarrow> flagParse x args
                        | (None, x # rest) \<Rightarrow> flagParse x rest
                        | (None, []) \<Rightarrow> Inl (Errorf ''flag needs an argument: -%s'' [] [flag]))))"

definition parseFlags :: "string list \<Rightarrow> (string \<times> string) result" where
  "parseFlags args =
     (case flagParse '''' args of
        Inl err \<Rightarrow> Inl err
      | Inr (conf, remaining) \<Rightarrow>
          if length remaining > 1 then Inl (Errorf ''too many arguments'' [] [])
          else Inr (conf, if length remaining = 1 then remaining ! 0 else ''''))"

section \<open>The logger\<close>

text \<open>
  \<open>strings.ToLower\<close> on ASCII letters; no other character has one of the letters of the words
  compared with as its lower case.
\<close>

definition toLower :: "string \<Rightarrow> string" where
  "toLower s = map (\<lambda>c. if 65 \<le> (of_char c :: nat) \<and> of_char c \<le> (90 :: nat) then char_of (of_char c + 32 :: nat) else c) s"

datatype level = LevelDebug | LevelInfo | LevelWarn | LevelError
datatype handler = TextHandler level | JSONHandler level

definition logLevel :: "string \<Rightarrow> level" where
  "logLevel levelStr =
     (if levelStr = ''debug'' then LevelDebug else if levelStr = ''warn'' then LevelWarn
      else if levelStr = ''error'' then LevelError else LevelInfo)"

definition buildLogger :: "(string \<Rightarrow> string) \<Rightarrow> handler" where
  "buildLogger getenv =
     (let opts = logLevel (toLower (getenv ''LOG_LEVEL''))
      in if toLower (getenv ''LOG_FORMAT'') = ''json'' then JSONHandler opts else TextHandler opts)"

section \<open>Start-up\<close>

text \<open>\<open>main\<close>, up to its goroutines: the message and error of a \<open>log.Fatalf\<close>, or the logger and the server.\<close>

definition main_start ::
    "net_env \<Rightarrow> viper \<Rightarrow> (string \<Rightarrow> string) \<Rightarrow> Proxy \<Rightarrow> string list \<Rightarrow> (string \<times> go_error) + (handler \<times> server)" where
  "main_start env lib getenv blank args =
     (case parseFlags args of
        Inl err \<Rightarrow> Inl (''Error parsing flags: %v'', err)
      | Inr (configPath, upstreamURL) \<Rightarrow>
          (case LoadConfig lib configPath ''AMQP'' of
             Inl err \<Rightarrow> Inl (''Error loading config: %v'', err)
           | Inr cfg \<Rightarrow>
               let cfg = (if upstreamURL \<noteq> [] then cfg\<lparr>UpstreamURL := upstreamURL\<rparr> else cfg);
                   logger = buildLogger getenv
               in (case NewProxy env cfg blank of
                     Inl err \<Rightarrow> Inl (''Error creating proxy: %v'', err)
                   | Inr p \<Rightarrow> Inr (logger, new_server p))))"

section \<open>The admin endpoint\<close>

definition adminAddr :: "Config \<Rightarrow> string" where
  "adminAddr cfg = ListenAddress cfg @ '':'' @ decInt (AdminPort cfg)"

text \<open>The content type is the one that the HTTP server finds by looking at the body.\<close>

definition HealthHandler :: http_response where
  "HealthHandler = \<lparr>code = 200, contentType = ''text/plain; charset=utf-8'', body = ''OK''\<rparr>"

text \<open>
  The multiplexer, on the path of a request: the pattern \<open>/metrics\<close> matches only itself, the pattern
  \<open>/\<close> everything else. (Paths with empty or dot components never get here; they are redirected.)
\<close>

definition serveAdmin :: "Proxy \<Rightarrow> string \<Rightarrow> http_response" where
  "serveAdmin p path = (if path = ''/metrics'' then MetricsHandler p else HealthHandler)"

section \<open>Lemmas\<close>

lemma flagParse_url: "url \<noteq> '''' \<Longrightarrow> hd url \<noteq> CHR ''-'' \<Longrightarrow> flagParse conf (url # args) = Inr (conf, url # args)"
  by (simp add: hd_conv_nth)

lemma flagParse_config: "flagParse conf (''-config'' # path # args) = flagParse path args"
  by simp

lemma cutEq_append: "CHR ''='' \<notin> set n \<Longrightarrow> cutEq (n @ CHR ''='' # v) = (n, Some v)"
  by (induction n) auto

lemma flagParse_config_eq: "flagParse conf ((''-config='' @ path) # args) = flagParse path args"
  using cutEq_append [of "''config''" path] by simp

section \<open>Properties\<close>

text \<open>
  The command line. The path after \<open>-config\<close>, given as the next argument or after an equals
  sign, and one upstream URL are recognised, the last path counting; a second
  positional argument is refused.
\<close>

theorem parseFlags_forms:
  assumes "url \<noteq> ''''" "hd url \<noteq> CHR ''-''"
  shows "parseFlags [''-config'', path, url] = Inr (path, url) \<and>
    parseFlags [''-config='' @ path, url] = Inr (path, url) \<and> parseFlags [url] = Inr ([], url) \<and>
    parseFlags [''-config'', other, ''-config'', path] = Inr (path, []) \<and> parseFlags [] = Inr ([], []) \<and>
    parseFlags (url # arg # args) = Inl (Errorf ''too many arguments'' [] [])"
  unfolding parseFlags_def
  by (simp add: flagParse_config flagParse_config_eq flagParse_url [OF assms] del: flagParse.simps(2) append_Cons)

theorem parseFlags_forms_witness:
  "parseFlags [''-config'', ''c.toml'', ''amqp://b''] = Inr (''c.toml'', ''amqp://b'')"
  using parseFlags_forms [of "''amqp://b''" "''c.toml''"] by simp

text \<open>
  The default limit. When neither a file nor the environment sets \<open>pool.max_channels\<close> (so that
  viper returns the default it was given), every upstream gets the limit 65535, the largest
  \<open>uint16\<close>, for which the search of \<open>AllocateChannel\<close> runs over to channel 0.
\<close>

theorem default_limit:
  assumes "\<And>v n. map_of (defaults v) ''pool.max_channels'' = Some (VInt n) \<Longrightarrow> GetInt lib v ''pool.max_channels'' = n"
    and "LoadConfig lib configPath prefix = Inr cfg"
  shows "maxChannels (newManagedUpstream username password vhost (of_int (PoolMaxChannels cfg))) = - 1"
proof -
  have "map_of config_defaults ''pool.max_channels'' = Some (VInt 65535)" by (simp add: config_defaults_def)
  with assms have "PoolMaxChannels cfg = 65535"
    by (auto simp: LoadConfig_def Let_def split: if_splits option.splits)
  then show ?thesis by (simp add: newManagedUpstream_def)
qed

definition viper_ex :: viper where
  "viper_ex = \<lparr>ReadInConfig = (\<lambda>v. Some EOF), GetString = (\<lambda>v key. ''''),
     GetInt = (\<lambda>v key. case map_of (defaults v) key of Some (VInt n) \<Rightarrow> n | _ \<Rightarrow> 0), GetBool = (\<lambda>v key. False)\<rparr>"

theorem default_limit_witness:
  "\<exists>cfg. LoadConfig viper_ex '''' ''AMQP'' = Inr cfg \<and>
     maxChannels (newManagedUpstream ''u'' ''p'' ''/'' (of_int (PoolMaxChannels cfg))) = - 1"
proof -
  obtain cfg where cfg: "LoadConfig viper_ex '''' ''AMQP'' = Inr cfg" by (simp add: LoadConfig_def Let_def)
  have "GetInt viper_ex v ''pool.max_channels'' = n" if "map_of (defaults v) ''pool.max_channels'' = Some (VInt n)" for v n
    using that by (simp add: viper_ex_def)
  from default_limit [OF this cfg] cfg show ?thesis by blast
qed

text \<open>
  Start-up. With acceptable arguments and a readable configuration the only way to fail is the TLS material of the listener;
  otherwise the server starts with this configuration, the upstream URL of the command line
  taking precedence, with no client, no upstream and no listener; its invariant holds in all states that
  it reaches, and its admin endpoint serves the metrics and, on every other path, the health check.
\<close>

theorem main_startup:
  assumes "parseFlags args = Inr (path, url)" "LoadConfig lib path ''AMQP'' = Inr cfg"
  defines "cfg' \<equiv> cfg\<lparr>UpstreamURL := (if url = [] then UpstreamURL cfg else url)\<rparr>"
  shows "case main_start env lib getenv blank args of
      Inl (msg, err) \<Rightarrow> msg = ''Error creating proxy: %v'' \<and> (\<exists>e. NewAMQPListener (files env) cfg' = Inl e)
    | Inr (logger, s) \<Rightarrow> logger = buildLogger getenv \<and> config (prox s) = cfg' \<and> upstreams (prox s) = [] \<and>
        serving s = Map.empty \<and> \<not> listening (prox s) \<and> status s = Running \<and>
        (\<forall>net_Listen s'. reaches env net_Listen s s' \<longrightarrow> server_ok s') \<and>
        (\<forall>q. serveAdmin (prox s) q = (if q = ''/metrics'' then MetricsHandler (prox s) else HealthHandler))"
proof -
  have c: "(if url \<noteq> [] then cfg\<lparr>UpstreamURL := url\<rparr> else cfg) = cfg'" by (simp add: cfg'_def)
  show ?thesis
  proof (cases "NewProxy env cfg' blank")
    case (Inl err)
    then have "\<exists>e. NewAMQPListener (files env) cfg' = Inl e" by (auto simp: NewProxy_def split: sum.splits)
    with Inl assms(1,2) c show ?thesis by (simp add: main_start_def Let_def)
  next
    case (Inr p)
    then have "config p = cfg'" "upstreams p = []" "\<not> listening p" by (auto simp: NewProxy_def split: sum.splits)
    moreover have "main_start env lib getenv blank args = Inr (buildLogger getenv, new_server p)"
      using Inr assms(1,2) c by (simp add: main_start_def Let_def)
    moreover have "server_ok s'" if "reaches env net_Listen (new_server p) s'" for net_Listen s'
      using server_ok_reaches [OF that server_ok_new [OF Inr]] .
    ultimately show ?thesis by (simp add: new_server_def serveAdmin_def)
  qed
qed

theorem main_startup_witness:
  "\<exists>logger s. main_start env_ex viper_ex (\<lambda>_. ''DEBUG'') proxy_ex [''amqp://b''] = Inr (logger, s) \<and>
     UpstreamURL (config (prox s)) = ''amqp://b'' \<and> logger = TextHandler LevelDebug"
proof -
  obtain cfg where cfg: "LoadConfig viper_ex [] ''AMQP'' = Inr cfg" "TLSCert cfg = []" "TLSCACert cfg = []"
    by (simp add: LoadConfig_def Let_def viper_ex_def)
  have f: "parseFlags [''amqp://b''] = Inr ([], ''amqp://b'')" by (simp add: parseFlags_def)
  have "NewAMQPListener (files env_ex) (cfg\<lparr>UpstreamURL := ''amqp://b''\<rparr>) = Inr None"
    using cfg(2,3) by (simp add: NewAMQPListener_def)
  moreover have "buildLogger (\<lambda>_. ''DEBUG'') = TextHandler LevelDebug"
    by code_simp
  ultimately show ?thesis using main_startup [OF f cfg(1), of env_ex "\<lambda>_. ''DEBUG''" proxy_ex]
    by (auto split: sum.splits)
qed

end
