(* ===== verification/Channel_Pool.thy ===== *)
theory Channel_Pool
  imports Prelude
begin

text \<open>
  The package \<open>pool\<close>: \<open>pool/channel.go\<close>, a channel that remembers its operations and whether one of
  them made it unsafe to share, and \<open>pool/pool.go\<close>, a list of pooled connections with the set of their safe
  channels. A \<open>*PooledConnection\<close> is an address into the store \<open>pooled\<close>; the
  interface \<open>Connection\<close> is the address of a connection, of which the pool uses \<open>Close\<close> only, so the
  state of all connections is the set of those that are closed.
\<close>

section \<open>Channels\<close>

record pool_channel =
  ch_ID :: int
  ch_Operations :: "string set"
  Unsafe :: bool

definition NewChannel :: "int \<Rightarrow> pool_channel" where
  "NewChannel n = \<lparr>ch_ID = n, ch_Operations = {}, Unsafe = False\<rparr>"

definition unsafeOps :: "string set" where
  "unsafeOps = {''Basic.Consume'', ''Basic.Qos'', ''Basic.Ack'', ''Basic.Reject'', ''Basic.Nack'',
     ''Queue.Bind'', ''Queue.Unbind'', ''Exchange.Bind'', ''Exchange.Unbind''}"

definition RecordOperation :: "pool_channel \<Rightarrow> string \<Rightarrow> pool_channel" where
  "RecordOperation c oper =
     (let c = c\<lparr>ch_Operations := insert oper (ch_Operations c)\<rparr>
      in if oper \<in> unsafeOps then c\<lparr>Unsafe := True\<rparr> else c)"

definition IsSafe :: "pool_channel \<Rightarrow> bool" where
  "IsSafe c \<longleftrightarrow> \<not> Unsafe c"

definition ResetChannel :: "pool_channel \<Rightarrow> pool_channel" where
  "ResetChannel c = c\<lparr>ch_Operations := {}, Unsafe := False\<rparr>"

section \<open>Connections\<close>

record PooledConnection =
  Connection :: "nat option"
  SafeChannels :: "u16 set"

record ConnectionPool =
  cp_Username :: string
  cp_Password :: string
  cp_Vhost :: string
  IdleTimeout :: int
  MaxChannels :: int
  Connections :: "nat list"
  LastUsed :: int
  pooled :: "nat \<Rightarrow> PooledConnection"

definition NewConnectionPool ::
    "string \<Rightarrow> string \<Rightarrow> string \<Rightarrow> int \<Rightarrow> int \<Rightarrow> int \<Rightarrow> (nat \<Rightarrow> PooledConnection) \<Rightarrow> ConnectionPool" where
  "NewConnectionPool username password vhost timeout mx now store =
     \<lparr>cp_Username = username, cp_Password = password, cp_Vhost = vhost, IdleTimeout = timeout * 1000000000,
      MaxChannels = mx, Connections = [], LastUsed = now, pooled = store\<rparr>"

text \<open>\<open>a\<close> is the address of the new \<open>PooledConnection\<close>.\<close>

definition AddConnection :: "ConnectionPool \<Rightarrow> nat \<Rightarrow> nat option \<Rightarrow> ConnectionPool" where
  "AddConnection p a c =
     p\<lparr>Connections := Connections p @ [a],
       pooled := (pooled p)(a := \<lparr>Connection = c, SafeChannels = {}\<rparr>)\<rparr>"

definition GetConnection :: "ConnectionPool \<Rightarrow> nat option" where
  "GetConnection p = (if length (Connections p) = 0 then None else Some (Connections p ! 0))"

definition GetConnectionByIndex :: "ConnectionPool \<Rightarrow> int \<Rightarrow> nat option" where
  "GetConnectionByIndex p i =
     (if i < 0 \<or> i \<ge> int (length (Connections p)) then None else Some (Connections p ! nat i))"

definition AddSafeChannel :: "ConnectionPool \<Rightarrow> nat \<Rightarrow> u16 \<Rightarrow> ConnectionPool" where
  "AddSafeChannel p a u =
     p\<lparr>pooled := (pooled p)(a := (pooled p a)\<lparr>SafeChannels := insert u (SafeChannels (pooled p a))\<rparr>)\<rparr>"

definition IsSafeChannel :: "ConnectionPool \<Rightarrow> nat \<Rightarrow> u16 \<Rightarrow> bool" where
  "IsSafeChannel p a u \<longleftrightarrow> u \<in> SafeChannels (pooled p a)"

definition RemoveSafeChannel :: "ConnectionPool \<Rightarrow> nat \<Rightarrow> u16 \<Rightarrow> ConnectionPool" where
  "RemoveSafeChannel p a u =
     p\<lparr>pooled := (pooled p)(a := (pooled p a)\<lparr>SafeChannels := SafeChannels (pooled p a) - {u}\<rparr>)\<rparr>"

definition ClosePool :: "ConnectionPool \<Rightarrow> nat set \<Rightarrow> ConnectionPool \<times> nat set" where
  "ClosePool p closed =
     (p\<lparr>Connections := []\<rparr>,
      foldl (\<lambda>cl a. case Connection (pooled p a) of None \<Rightarrow> cl | Some c \<Rightarrow> insert c cl) closed (Connections p))"

section \<open>Lemmas\<close>

lemma Record_all:
  "ch_Operations (foldl RecordOperation c opers) = ch_Operations c \<union> set opers \<and>
   Unsafe (foldl RecordOperation c opers) = (Unsafe c \<or> set opers \<inter> unsafeOps \<noteq> {})"
  by (induction opers arbitrary: c) (auto simp: RecordOperation_def Let_def)

lemma Close_all:
  "foldl (\<lambda>cl a. case Connection (pooled p a) of None \<Rightarrow> cl | Some c \<Rightarrow> insert c cl) cl as =
     cl \<union> {c. \<exists>a \<in> set as. Connection (pooled p a) = Some c}"
  by (induction as arbitrary: cl) (auto split: option.splits)

section \<open>Properties\<close>

text \<open>
  A pooled channel is safe exactly when no operation recorded since its creation or its last
  reset is one of the unsafe ones, whatever else was recorded and in whatever order; all
  operations are remembered.
\<close>

theorem pool_channel_safe:
  "(IsSafe (foldl RecordOperation (NewChannel n) opers) \<longleftrightarrow> set opers \<inter> unsafeOps = {}) \<and>
   (IsSafe (foldl RecordOperation (ResetChannel c) opers) \<longleftrightarrow> set opers \<inter> unsafeOps = {}) \<and>
   ch_Operations (foldl RecordOperation (ResetChannel c) opers) = set opers"
  by (simp add: Record_all IsSafe_def NewChannel_def ResetChannel_def)

text \<open>
  The connection pool: a connection added is found at the last index and has no safe channel,
  indices outside the list give nothing, and closing the pool closes every connection it held.
\<close>

lemma pool_connections:
  "GetConnectionByIndex (AddConnection p a c) (int (length (Connections p))) = Some a \<and>
   \<not> IsSafeChannel (AddConnection p a c) a u \<and>
   (GetConnectionByIndex p i \<noteq> None \<longleftrightarrow> 0 \<le> i \<and> i < int (length (Connections p))) \<and>
   GetConnection p = GetConnectionByIndex p 0 \<and>
   IsSafeChannel (AddSafeChannel p a u) a v = (v = u \<or> IsSafeChannel p a v) \<and>
   IsSafeChannel (RemoveSafeChannel p a u) a v = (v \<noteq> u \<and> IsSafeChannel p a v) \<and>
   snd (ClosePool p closed) = closed \<union> {c. \<exists>a \<in> set (Connections p). Connection (pooled p a) = Some c} \<and>
   GetConnection (fst (ClosePool p closed)) = None"
  by (auto simp: GetConnectionByIndex_def AddConnection_def IsSafeChannel_def GetConnection_def
      AddSafeChannel_def RemoveSafeChannel_def ClosePool_def Close_all)

end
